(* ===== verification/Prelude.thy ===== *)
theory Prelude
  imports Main "HOL-Library.Word" "HOL-Library.Monad_Syntax"
begin

text \<open>
  Shared base of the development: the machine types, the status and error enums of
  include/ccask/status.h with the retry macro CCASK_ATTEMPT, the theorem collections used by the
  component theories, and generic lemmas on lists, options and words.

  A C function that always returns is a HOL function on the state.  A C function that may fail to
  return (endless loop, blocked for ever, process exit, undefined behaviour) has a result in
  \<open>option\<close>; \<open>None\<close> means that the C call does not return to its caller.
\<close>

unbundle bit_operations_syntax

type_synonym byte = "8 word"
type_synonym u16 = "16 word"
type_synonym u32 = "32 word"
type_synonym u64 = "64 word"

named_theorems frame_simps "which state components an operation leaves alone"
named_theorems no_fault_simps "what an operation does when the environment reports no fault"
named_theorems codec_simps "lengths and round trips of the on-disk encodings"


section \<open>Status and error codes\<close>

datatype ccask_error =
    CCASK_ERR_UNKNOWN
  | CCASK_ERR_NO_MEMORY
  | CCASK_ERR_CRC_INVALID
  | CCASK_ERR_NO_KEY
  | CCASK_ERR_ITER_END
  | CCASK_ERR_GET_FD_FAILED
  | CCASK_ERR_MAX_FDS_OPENED
  | CCASK_ERR_NO_SUCH_DATAFILE
  | CCASK_ERR_READ_FAILED
  | CCASK_ERR_WRITE_FAILED
  | CCASK_ERR_COULDNT_START_THREAD
  | CCASK_ERR_UNEXPECTED_EOF
  | CCASK_ERR_RINGBUFFER_FULL

datatype ccask_status = CCASK_OK | CCASK_FAIL | CCASK_RETRY

text \<open>
  The macro CCASK_ATTEMPT evaluates an expression up to \<open>max_attempts\<close> times, stopping at the first
  result that is not the retry code.  The retry code is a parameter because the macro is used on
  status codes, on file descriptors and on the results of \<open>pthread_create\<close>.  The second form is for
  expressions that may not return.
\<close>

fun ccask_attempt :: "nat \<Rightarrow> 'r \<Rightarrow> ('w \<Rightarrow> 'r \<times> 'w) \<Rightarrow> 'w \<Rightarrow> 'r \<times> 'w" where
  "ccask_attempt 0 retry e w = (retry, w)"
| "ccask_attempt (Suc n) retry e w =
     (let (r, w') = e w in if r \<noteq> retry then (r, w') else ccask_attempt n retry e w')"

fun ccask_attempt_opt ::
  "nat \<Rightarrow> 'r \<Rightarrow> ('w \<Rightarrow> ('r \<times> 'w) option) \<Rightarrow> 'w \<Rightarrow> ('r \<times> 'w) option" where
  "ccask_attempt_opt 0 retry e w = Some (retry, w)"
| "ccask_attempt_opt (Suc n) retry e w =
     do { (r, w') \<leftarrow> e w;
          if r \<noteq> retry then Some (r, w') else ccask_attempt_opt n retry e w' }"

lemma ccask_attempt_done:
  "0 < n \<Longrightarrow> e w = (r, w') \<Longrightarrow> r \<noteq> retry \<Longrightarrow> ccask_attempt n retry e w = (r, w')"
  by (cases n) auto

lemma ccask_attempt_opt_done:
  "0 < n \<Longrightarrow> e w = Some (r, w') \<Longrightarrow> r \<noteq> retry \<Longrightarrow> ccask_attempt_opt n retry e w = Some (r, w')"
  by (cases n) auto

text \<open>A property that every evaluation of the expression keeps is kept by the retry loop.\<close>

lemma ccask_attempt_inv:
  assumes "ccask_attempt n retry e w = (r, w')" and "P w"
    and "\<And>u s u'. P u \<Longrightarrow> e u = (s, u') \<Longrightarrow> P u'"
  shows "P w'"
  using assms(1,2)
proof (induction n arbitrary: w)
  case (Suc n)
  obtain s u where s: "e w = (s, u)" by fastforce
  with Suc.prems assms(3) have "P u" by blast
  with Suc s show ?case by (auto split: if_splits)
qed simp

lemma ccask_attempt_opt_inv:
  assumes "ccask_attempt_opt n retry e w = Some (r, w')" and "P w"
    and "\<And>u s u'. P u \<Longrightarrow> e u = Some (s, u') \<Longrightarrow> P u'"
  shows "P w'"
  using assms(1,2)
proof (induction n arbitrary: w)
  case (Suc n)
  then obtain s u where s: "e w = Some (s, u)"
    by (auto simp: bind_eq_Some_conv)
  with Suc.prems assms(3) have "P u" by blast
  with Suc s show ?case by (auto split: if_splits)
qed simp

text \<open>The result of the retry loop is either the retry code or the result of some evaluation.\<close>

lemma ccask_attempt_result:
  assumes "ccask_attempt n retry e w = (r, w')" and "r \<noteq> retry" and "P w"
    and "\<And>u s u'. P u \<Longrightarrow> e u = (s, u') \<Longrightarrow> P u'"
  obtains u where "P u" and "e u = (r, w')"
  using assms(1,3)
proof (induction n arbitrary: w thesis)
  case 0
  with assms(2) show ?case by simp
next
  case (Suc n)
  obtain s u where s: "e w = (s, u)" by fastforce
  with Suc.prems assms(4) have "P u" by blast
  with Suc s show ?case by (auto split: if_splits)
qed

text \<open>Only evaluations that returned the retry code come before the last one.\<close>

lemma ccask_attempt_last:
  assumes "ccask_attempt n retry e w = (r, w')" and "P w"
    and "\<And>u u'. P u \<Longrightarrow> e u = (retry, u') \<Longrightarrow> P u'"
  obtains (last) u where "P u" and "e u = (r, w')" | (none) "P w'" and "r = retry"
  using assms(1,2)
proof (induction n arbitrary: w thesis)
  case 0
  then show ?case by simp
next
  case (Suc n)
  obtain s u where s: "e w = (s, u)" by fastforce
  show ?case
  proof (cases "s = retry")
    case True
    with s assms(3) Suc.prems have "P u" "ccask_attempt n retry e u = (r, w')" by auto
    with Suc show ?thesis by blast
  next
    case False
    with s Suc.prems show ?thesis by auto
  qed
qed

lemma ccask_attempt_opt_cases:
  assumes "ccask_attempt_opt n retry e w = Some (r, w')" and "P w"
    and "\<And>u u'. P u \<Longrightarrow> e u = Some (retry, u') \<Longrightarrow> P u'"
  obtains (last) u where "P u" and "e u = Some (r, w')" and "r \<noteq> retry"
  | (gave_up) "r = retry" and "P w'"
  using assms(1,2)
proof (induction n arbitrary: w thesis)
  case 0
  then show ?case by simp
next
  case (Suc n)
  obtain s u where s: "e w = Some (s, u)" using Suc.prems(3) by (auto simp: bind_eq_Some_conv)
  show ?case
  proof (cases "s = retry")
    case True
    then have "ccask_attempt_opt n retry e u = Some (r, w')" and "P u"
      using Suc.prems(3,4) s assms(3) by auto
    with Suc.IH Suc.prems(1,2) show ?thesis by blast
  next
    case False
    with s Suc.prems show ?thesis by auto
  qed
qed

lemma ccask_attempt_opt_result:
  assumes "ccask_attempt_opt n retry e w = Some (r, w')" and "r \<noteq> retry" and "P w"
    and "\<And>u s u'. P u \<Longrightarrow> e u = Some (s, u') \<Longrightarrow> P u'"
  obtains u where "P u" and "e u = Some (r, w')"
  using assms(1,3)
proof (induction n arbitrary: w thesis)
  case 0
  with assms(2) show ?case by simp
next
  case (Suc n)
  then obtain s u where s: "e w = Some (s, u)"
    by (auto simp: bind_eq_Some_conv)
  with Suc.prems assms(4) have "P u" by blast
  with Suc s show ?case by (auto split: if_splits)
qed


section \<open>Lists\<close>

lemma take_length_append [simp]: "n = length xs \<Longrightarrow> take n (xs @ ys) = xs"
  by simp

lemma drop_length_append [simp]: "n = length xs \<Longrightarrow> drop n (xs @ ys) = ys"
  by simp

lemma sum_list_eq_0_nat: "sum_list (xs :: nat list) = 0 \<longleftrightarrow> (\<forall>x \<in> set xs. x = 0)"
  by (induction xs) auto

lemma map_of_filter_key:
  "map_of (filter (\<lambda>(k, v). k \<noteq> x) xs) = (map_of xs)(x := None)"
  by (induction xs) auto

lemma map_of_snoc:
  "map_of xs k = None \<Longrightarrow> map_of (xs @ [(k, v)]) = (map_of xs)(k \<mapsto> v)"
  by (rule ext) (auto simp: map_add_def split: option.splits)

end
