(* ===== verification/Posix.thy ===== *)
theory Posix
  imports Prelude
begin

text \<open>
  The part of the C library and of the POSIX interface that the sources call: heap allocation,
  files and directories.  The operating system is a record of directory entries, file contents,
  open descriptors and a fault script; each call that may fail takes the next entry of the script,
  so an arbitrary finite sequence of failures, interrupted calls and short transfers is an initial
  value of \<open>fault_script\<close>.  Once the script is empty every call does what it is asked.
\<close>

section \<open>State\<close>

datatype errno =
    EACCES | EPERM | EISDIR | ENAMETOOLONG | ENOENT | ENOTDIR | EFAULT | EROFS
  | EINTR | EAGAIN | EMFILE | EIO | ENOSPC | EFBIG | EBADF | ENOMEM

text \<open>
  \<open>Short n\<close> limits one transfer to \<open>Suc n\<close> bytes: a positive request to a regular file never
  transfers nothing, except at end of file.
\<close>

datatype fault = NoFault | Fault errno | Short nat

datatype open_flags = RDONLY | CREAT_RDWR_APPEND

record fdesc =
  fd_inode :: nat
  fd_writable :: bool

text \<open>A directory entry is a regular file (with its inode) or something else.\<close>

datatype node = Regular nat | Other

record posix =
  dir_entries :: "(string \<times> node) list"
  inode_data :: "nat \<Rightarrow> byte list"
  next_inode :: nat
  open_fds :: "int \<Rightarrow> fdesc option"
  fd_offsets :: "int \<Rightarrow> nat"
  next_fd :: int
  fault_script :: "fault list"
  clock :: nat
  ccask_errno :: ccask_error

text \<open>The largest file offset of a 64-bit \<open>off_t\<close>.\<close>

definition max_file_size :: nat where
  "max_file_size = 2 ^ 63 - 1"


section \<open>Calls\<close>

definition next_fault :: "'a posix_scheme \<Rightarrow> fault \<times> 'a posix_scheme" where
  "next_fault w = (case fault_script w of
      [] \<Rightarrow> (NoFault, w)
    | f # fs \<Rightarrow> (f, w\<lparr>fault_script := fs\<rparr>))"

definition set_errno :: "ccask_error \<Rightarrow> 'a posix_scheme \<Rightarrow> 'a posix_scheme" where
  "set_errno e w = w\<lparr>ccask_errno := e\<rparr>"

text \<open>\<open>malloc\<close>: whether the block could be allocated.\<close>

definition sys_malloc :: "'a posix_scheme \<Rightarrow> bool \<times> 'a posix_scheme" where
  "sys_malloc w = (case next_fault w of
      (Fault e, w') \<Rightarrow> (False, w')
    | (_, w') \<Rightarrow> (True, w'))"

text \<open>\<open>n\<close> allocations in a row, stopping at the first that fails.\<close>

fun sys_mallocs :: "nat \<Rightarrow> 'a posix_scheme \<Rightarrow> bool \<times> 'a posix_scheme" where
  "sys_mallocs 0 w = (True, w)"
| "sys_mallocs (Suc n) w =
     (let (ok, w') = sys_malloc w in if ok then sys_mallocs n w' else (False, w'))"

definition lookup_inode :: "'a posix_scheme \<Rightarrow> string \<Rightarrow> nat option" where
  "lookup_inode w path = (case map_of (dir_entries w) path of Some (Regular i) \<Rightarrow> Some i | _ \<Rightarrow> None)"

definition new_fd :: "nat \<Rightarrow> bool \<Rightarrow> 'a posix_scheme \<Rightarrow> int \<times> 'a posix_scheme" where
  "new_fd i writable w = (next_fd w,
     w\<lparr>open_fds := (open_fds w)(next_fd w \<mapsto> \<lparr>fd_inode = i, fd_writable = writable\<rparr>),
       fd_offsets := (fd_offsets w)(next_fd w := 0),
       next_fd := next_fd w + 1\<rparr>)"

text \<open>\<open>open\<close>; the path pointer may be NULL.\<close>

definition sys_open ::
  "string option \<Rightarrow> open_flags \<Rightarrow> 'a posix_scheme \<Rightarrow> (errno + int) \<times> 'a posix_scheme" where
  "sys_open path flags w = (case next_fault w of
      (Fault e, w') \<Rightarrow> (Inl e, w')
    | (_, w') \<Rightarrow> (case path of
        None \<Rightarrow> (Inl EFAULT, w')
      | Some p \<Rightarrow> (case map_of (dir_entries w') p of
          Some (Regular i) \<Rightarrow>
            (let (fd, w'') = new_fd i (flags = CREAT_RDWR_APPEND) w' in (Inr fd, w''))
        | Some Other \<Rightarrow> (Inl EISDIR, w')
        | None \<Rightarrow>
            (if flags = CREAT_RDWR_APPEND
             then let i = next_inode w';
                      (fd, w'') = new_fd i True
                        (w'\<lparr>dir_entries := dir_entries w' @ [(p, Regular i)],
                            inode_data := (inode_data w')(i := []),
                            next_inode := Suc i\<rparr>)
                  in (Inr fd, w'')
             else (Inl ENOENT, w')))))"

definition sys_close :: "int \<Rightarrow> 'a posix_scheme \<Rightarrow> 'a posix_scheme" where
  "sys_close fd w = w\<lparr>open_fds := (open_fds w)(fd := None)\<rparr>"

text \<open>\<open>lseek(fd, 0, SEEK_END)\<close>.\<close>

definition sys_lseek_end :: "int \<Rightarrow> 'a posix_scheme \<Rightarrow> (errno + nat) \<times> 'a posix_scheme" where
  "sys_lseek_end fd w = (case next_fault w of
      (Fault e, w') \<Rightarrow> (Inl e, w')
    | (_, w') \<Rightarrow> (case open_fds w' fd of
        None \<Rightarrow> (Inl EBADF, w')
      | Some d \<Rightarrow>
          (let n = length (inode_data w' (fd_inode d))
           in (Inr n, w'\<lparr>fd_offsets := (fd_offsets w')(fd := n)\<rparr>))))"

text \<open>How much of a request of \<open>n\<close> bytes one call transfers.\<close>

fun transfer_limit :: "fault \<Rightarrow> nat \<Rightarrow> nat" where
  "transfer_limit (Short k) n = min (Suc k) n"
| "transfer_limit _ n = n"

text \<open>
  \<open>writev\<close> of the given bytes to a descriptor opened with O_APPEND.  A call with nothing to write
  returns 0.
\<close>

definition sys_append ::
  "int \<Rightarrow> byte list \<Rightarrow> 'a posix_scheme \<Rightarrow> (errno + nat) \<times> 'a posix_scheme" where
  "sys_append fd bs w = (case next_fault w of
      (Fault e, w') \<Rightarrow> (Inl e, w')
    | (f, w') \<Rightarrow> (case open_fds w' fd of
        None \<Rightarrow> (Inl EBADF, w')
      | Some d \<Rightarrow>
          (if \<not> fd_writable d then (Inl EBADF, w')
           else let old = inode_data w' (fd_inode d);
                    room = max_file_size - length old
                in if bs \<noteq> [] \<and> room = 0 then (Inl EFBIG, w')
                   else let n = transfer_limit f (min (length bs) room);
                            new = old @ take n bs
                        in (Inr n, w'\<lparr>inode_data := (inode_data w')(fd_inode d := new),
                                      fd_offsets := (fd_offsets w')(fd := length new)\<rparr>))))"

text \<open>\<open>pread\<close> / \<open>preadv\<close> of at most \<open>n\<close> bytes at an offset: the bytes read, none at end of file.\<close>

definition sys_pread ::
  "int \<Rightarrow> nat \<Rightarrow> nat \<Rightarrow> 'a posix_scheme \<Rightarrow> (errno + byte list) \<times> 'a posix_scheme" where
  "sys_pread fd n off w = (case next_fault w of
      (Fault e, w') \<Rightarrow> (Inl e, w')
    | (f, w') \<Rightarrow> (case open_fds w' fd of
        None \<Rightarrow> (Inl EBADF, w')
      | Some d \<Rightarrow> (Inr (take (transfer_limit f n) (drop off (inode_data w' (fd_inode d)))), w')))"

text \<open>\<open>read\<close> / \<open>readv\<close> at the descriptor's own offset.\<close>

definition sys_read ::
  "int \<Rightarrow> nat \<Rightarrow> 'a posix_scheme \<Rightarrow> (errno + byte list) \<times> 'a posix_scheme" where
  "sys_read fd n w = (let off = fd_offsets w fd in case sys_pread fd n off w of
      (Inl e, w') \<Rightarrow> (Inl e, w')
    | (Inr bs, w') \<Rightarrow> (Inr bs, w'\<lparr>fd_offsets := (fd_offsets w')(fd := off + length bs)\<rparr>))"

definition sys_unlink :: "string option \<Rightarrow> 'a posix_scheme \<Rightarrow> (errno + unit) \<times> 'a posix_scheme" where
  "sys_unlink path w = (case next_fault w of
      (Fault e, w') \<Rightarrow> (Inl e, w')
    | (_, w') \<Rightarrow> (case path of
        None \<Rightarrow> (Inl EFAULT, w')
      | Some p \<Rightarrow> (case map_of (dir_entries w') p of
          Some (Regular i) \<Rightarrow>
            (Inr (), w'\<lparr>dir_entries := filter (\<lambda>(q, n). q \<noteq> p) (dir_entries w')\<rparr>)
        | Some Other \<Rightarrow> (Inl EISDIR, w')
        | None \<Rightarrow> (Inl ENOENT, w'))))"

text \<open>\<open>rename\<close> of a regular file, which replaces an existing target.\<close>

definition sys_rename ::
  "string option \<Rightarrow> string option \<Rightarrow> 'a posix_scheme \<Rightarrow> (errno + unit) \<times> 'a posix_scheme" where
  "sys_rename from_path to_path w = (case next_fault w of
      (Fault e, w') \<Rightarrow> (Inl e, w')
    | (_, w') \<Rightarrow> (case (from_path, to_path) of
        (Some p, Some q) \<Rightarrow> (case (map_of (dir_entries w') p, map_of (dir_entries w') q) of
          (None, _) \<Rightarrow> (Inl ENOENT, w')
        | (Some n, Some Other) \<Rightarrow> (Inl EISDIR, w')
        | (Some n, _) \<Rightarrow>
            (if p = q then (Inr (), w')
             else (Inr (), w'\<lparr>dir_entries :=
               filter (\<lambda>(r, m). r \<noteq> p \<and> r \<noteq> q) (dir_entries w') @ [(q, n)]\<rparr>)))
      | _ \<Rightarrow> (Inl EFAULT, w')))"

text \<open>\<open>access(path, F_OK) == 0\<close>.\<close>

definition sys_access :: "string option \<Rightarrow> 'a posix_scheme \<Rightarrow> bool \<times> 'a posix_scheme" where
  "sys_access path w = (case next_fault w of
      (Fault e, w') \<Rightarrow> (False, w')
    | (_, w') \<Rightarrow> (case path of None \<Rightarrow> False | Some p \<Rightarrow> map_of (dir_entries w') p \<noteq> None, w'))"

text \<open>
  \<open>opendir\<close>: the data directory exists, so it fails only when the script says so, or for an empty
  name.  \<open>readdir\<close> lists the dot entries and then the entries directly below the prefix (the
  directory with its slash), in directory order.
\<close>

definition sys_opendir :: "string \<Rightarrow> 'a posix_scheme \<Rightarrow> (errno + unit) \<times> 'a posix_scheme" where
  "sys_opendir dir w = (case next_fault w of
      (Fault e, w') \<Rightarrow> (Inl e, w')
    | (_, w') \<Rightarrow> (if dir = [] then Inl ENOENT else Inr (), w'))"

definition dir_names :: "'a posix_scheme \<Rightarrow> string \<Rightarrow> string list" where
  "dir_names w pre = [''.'', ''..''] @
     filter (\<lambda>name. name \<noteq> [] \<and> CHR ''/'' \<notin> set name)
       (map (drop (length pre)) (filter (\<lambda>p. take (length pre) p = pre) (map fst (dir_entries w))))"

text \<open>\<open>stat\<close>: the kind of an entry, None when the call fails.\<close>

definition sys_stat :: "string \<Rightarrow> 'a posix_scheme \<Rightarrow> node option \<times> 'a posix_scheme" where
  "sys_stat path w = (case next_fault w of
      (Fault e, w') \<Rightarrow> (None, w')
    | (_, w') \<Rightarrow> (map_of (dir_entries w') path, w'))"

text \<open>\<open>pthread_create\<close>: whether the thread could be started.\<close>

definition sys_pthread_create :: "'a posix_scheme \<Rightarrow> bool \<times> 'a posix_scheme" where
  "sys_pthread_create w = sys_malloc w"

text \<open>\<open>(uint32_t)time(NULL)\<close>.\<close>

definition sys_time :: "'a posix_scheme \<Rightarrow> u32" where
  "sys_time w = of_nat (clock w)"


section \<open>What the calls change\<close>

text \<open>
  Each call that only consults the fault script is described by one equation on its result state.
\<close>

lemma next_fault_nil [no_fault_simps]: "fault_script w = [] \<Longrightarrow> next_fault w = (NoFault, w)"
  by (simp add: next_fault_def)

lemma next_fault_frame:
  "next_fault w = (f, w') \<Longrightarrow>
     \<exists>fs. w' = w\<lparr>fault_script := fs\<rparr> \<and> length fs \<le> length (fault_script w)
          \<and> (f \<noteq> NoFault \<longrightarrow> length fs < length (fault_script w))"
  by (cases "fault_script w") (auto simp: next_fault_def intro: exI [of _ "[]"])

lemma next_faultE:
  assumes "next_fault w = (f, w')"
  obtains fs where "w' = w\<lparr>fault_script := fs\<rparr>" and "length fs \<le> length (fault_script w)"
    and "f \<noteq> NoFault \<Longrightarrow> length fs < length (fault_script w)"
  using next_fault_frame [OF assms] by blast

lemma sys_malloc_no_fault [no_fault_simps]: "fault_script w = [] \<Longrightarrow> sys_malloc w = (True, w)"
  by (simp add: sys_malloc_def next_fault_nil)

lemma sys_mallocs_no_fault [no_fault_simps]: "fault_script w = [] \<Longrightarrow> sys_mallocs n w = (True, w)"
  by (induction n) (simp_all add: sys_malloc_no_fault)

lemma sys_malloc_frame:
  "sys_malloc w = (b, w') \<Longrightarrow>
     \<exists>fs. w' = w\<lparr>fault_script := fs\<rparr> \<and> length fs \<le> length (fault_script w)"
  by (auto simp: sys_malloc_def split: prod.splits fault.splits dest!: next_fault_frame)

lemma sys_mallocs_frame:
  "sys_mallocs n w = (b, w') \<Longrightarrow>
     \<exists>fs. w' = w\<lparr>fault_script := fs\<rparr> \<and> length fs \<le> length (fault_script w)"
proof (induction n arbitrary: w)
  case 0
  then show ?case by (auto intro: exI [of _ "fault_script w"])
next
  case (Suc n)
  obtain ok u where u: "sys_malloc w = (ok, u)" by fastforce
  then obtain fs where fs: "u = w\<lparr>fault_script := fs\<rparr>" "length fs \<le> length (fault_script w)"
    using sys_malloc_frame by blast
  show ?case
  proof (cases ok)
    case True
    with Suc.prems u have "sys_mallocs n u = (b, w')" by simp
    then obtain gs where "w' = u\<lparr>fault_script := gs\<rparr>" "length gs \<le> length (fault_script u)"
      using Suc.IH by blast
    with fs show ?thesis by auto
  next
    case False
    with Suc.prems u fs show ?thesis by auto
  qed
qed

lemma sys_pthread_create_no_fault [no_fault_simps]:
  "fault_script w = [] \<Longrightarrow> sys_pthread_create w = (True, w)"
  by (simp add: sys_pthread_create_def sys_malloc_no_fault)

lemma sys_pthread_create_frame:
  "sys_pthread_create w = (b, w') \<Longrightarrow>
     \<exists>fs. w' = w\<lparr>fault_script := fs\<rparr> \<and> length fs \<le> length (fault_script w)"
  by (simp add: sys_pthread_create_def sys_malloc_frame)

lemma sys_access_frame:
  "sys_access p w = (b, w') \<Longrightarrow> \<exists>fs. w' = w\<lparr>fault_script := fs\<rparr>"
  by (auto simp: sys_access_def split: prod.splits fault.splits dest!: next_fault_frame)

lemma sys_pread_frame:
  "sys_pread fd n off w = (r, w') \<Longrightarrow> \<exists>fs. w' = w\<lparr>fault_script := fs\<rparr>"
  by (auto simp: sys_pread_def split: prod.splits fault.splits option.splits dest!: next_fault_frame)

text \<open>What a read returns is a piece of the file at the offset asked for.\<close>

lemma sys_pread_result:
  assumes "sys_pread fd n off w = (Inr bs, w')"
  obtains d m fs where "open_fds w fd = Some d" and "m \<le> n" and "0 < n \<Longrightarrow> 0 < m"
    and "bs = take m (drop off (inode_data w (fd_inode d)))" and "w' = w\<lparr>fault_script := fs\<rparr>"
proof -
  obtain f u where f: "next_fault w = (f, u)" by fastforce
  then obtain fs where u: "u = w\<lparr>fault_script := fs\<rparr>" using next_faultE by blast
  have lim: "transfer_limit f n \<le> n" "0 < n \<Longrightarrow> 0 < transfer_limit f n"
    by (cases f; simp)+
  from assms f u obtain d where d: "open_fds w fd = Some d" "w' = w\<lparr>fault_script := fs\<rparr>"
    "bs = take (transfer_limit f n) (drop off (inode_data w (fd_inode d)))"
    by (auto simp: sys_pread_def split: fault.splits option.splits)
  show ?thesis by (rule that [OF d(1) lim d(3) d(2)])
qed

lemma sys_pread_no_fault [no_fault_simps]:
  "fault_script w = [] \<Longrightarrow> open_fds w fd = Some d \<Longrightarrow>
     sys_pread fd n off w = (Inr (take n (drop off (inode_data w (fd_inode d)))), w)"
  by (simp add: sys_pread_def next_fault_nil)

lemma sys_lseek_end_no_fault [no_fault_simps]:
  "fault_script w = [] \<Longrightarrow> open_fds w fd = Some d \<Longrightarrow>
     sys_lseek_end fd w = (Inr (length (inode_data w (fd_inode d))),
       w\<lparr>fd_offsets := (fd_offsets w)(fd := length (inode_data w (fd_inode d)))\<rparr>)"
  by (simp add: sys_lseek_end_def next_fault_nil Let_def)

lemma sys_lseek_end_frame:
  "sys_lseek_end fd w = (r, w') \<Longrightarrow>
     (\<exists>fs offs. w' = w\<lparr>fault_script := fs, fd_offsets := offs\<rparr>) \<and>
     (\<forall>n. r = Inr n \<longrightarrow> (\<exists>d. open_fds w fd = Some d \<and> n = length (inode_data w (fd_inode d))))"
  by (cases w)
     (auto simp: sys_lseek_end_def Let_def split: prod.splits fault.splits option.splits
       dest!: next_fault_frame)

text \<open>An append adds a nonempty prefix of the bytes, or nothing at all.\<close>

lemma sys_append_result:
  assumes "sys_append fd bs w = (r, w')"
  obtains (written) d n fs offs where "r = Inr n" and "open_fds w fd = Some d" and "fd_writable d"
      and "n \<le> length bs" and "bs \<noteq> [] \<Longrightarrow> 0 < n"
      and "w' = w\<lparr>inode_data := (inode_data w)(fd_inode d := inode_data w (fd_inode d) @ take n bs),
                  fault_script := fs, fd_offsets := offs\<rparr>"
      and "length fs \<le> length (fault_script w)"
      and "n > 0 \<Longrightarrow> length (inode_data w (fd_inode d)) + n \<le> max_file_size"
  | (failed) e fs where "r = Inl e" and "w' = w\<lparr>fault_script := fs\<rparr>"
      and "length fs \<le> length (fault_script w)"
      and "e = EINTR \<or> e = EAGAIN \<Longrightarrow> length fs < length (fault_script w)"
proof -
  obtain f u where f: "next_fault w = (f, u)" by fastforce
  then obtain fs where fs: "u = w\<lparr>fault_script := fs\<rparr>" "length fs \<le> length (fault_script w)"
    "f \<noteq> NoFault \<Longrightarrow> length fs < length (fault_script w)"
    using next_faultE by blast
  have lim: "transfer_limit f m \<le> m" "0 < m \<Longrightarrow> 0 < transfer_limit f m" for m
    by (cases f; simp)+
  show ?thesis
  proof (cases r)
    case (Inl e)
    with assms f fs show ?thesis
      by (intro failed) (auto simp: sys_append_def Let_def split: fault.splits option.splits if_splits)
  next
    case (Inr n)
    with assms f fs obtain d where d: "open_fds w fd = Some d" "fd_writable d"
      and room: "bs = [] \<or> max_file_size - length (inode_data w (fd_inode d)) \<noteq> 0"
      and n: "n = transfer_limit f (min (length bs) (max_file_size - length (inode_data w (fd_inode d))))"
      and w': "w' = u\<lparr>inode_data := (inode_data w)(fd_inode d := inode_data w (fd_inode d) @ take n bs),
                     fd_offsets := (fd_offsets w)(fd := length (inode_data w (fd_inode d) @ take n bs))\<rparr>"
      by (auto simp: sys_append_def Let_def split: fault.splits option.splits if_splits)
    let ?m = "min (length bs) (max_file_size - length (inode_data w (fd_inode d)))"
    have "n \<le> ?m" using n lim by blast
    moreover have "bs \<noteq> [] \<Longrightarrow> 0 < n" using n lim(2) [of ?m] room by simp
    moreover have "w' = w\<lparr>inode_data := (inode_data w)(fd_inode d := inode_data w (fd_inode d) @ take n bs),
        fault_script := fs,
        fd_offsets := (fd_offsets w)(fd := length (inode_data w (fd_inode d) @ take n bs))\<rparr>"
      using w' fs by (cases w) simp
    ultimately show ?thesis
      using Inr d fs by (intro written [of n d]) auto
  qed
qed

lemma sys_append_no_fault [no_fault_simps]:
  "fault_script w = [] \<Longrightarrow> open_fds w fd = Some d \<Longrightarrow> fd_writable d \<Longrightarrow>
     length (inode_data w (fd_inode d)) + length bs \<le> max_file_size \<Longrightarrow>
     sys_append fd bs w = (Inr (length bs),
       w\<lparr>inode_data := (inode_data w)(fd_inode d := inode_data w (fd_inode d) @ bs),
         fd_offsets := (fd_offsets w)(fd := length (inode_data w (fd_inode d) @ bs))\<rparr>)"
  by (cases bs) (auto simp: sys_append_def next_fault_nil Let_def min_def)


text \<open>Calls that change nothing but the fault script and the error code.\<close>

definition io_frame :: "'a posix_scheme \<Rightarrow> 'a posix_scheme \<Rightarrow> bool" where
  "io_frame w w' \<longleftrightarrow> (\<exists>fs e. w' = w\<lparr>fault_script := fs, ccask_errno := e\<rparr>
     \<and> length fs \<le> length (fault_script w))"

lemma io_frameI:
  "w' = w\<lparr>fault_script := fs\<rparr> \<Longrightarrow> length fs \<le> length (fault_script w) \<Longrightarrow> io_frame w w'"
  unfolding io_frame_def by (intro exI [of _ fs] exI [of _ "ccask_errno w"]) simp

lemma io_frame_refl [simp]: "io_frame w w"
  by (rule io_frameI [where fs = "fault_script w"]) simp_all

lemma io_frame_trans [trans]:
  assumes "io_frame w w'" and "io_frame w' w''"
  shows "io_frame w w''"
proof -
  obtain fs e where a: "w' = w\<lparr>fault_script := fs, ccask_errno := e\<rparr>" "length fs \<le> length (fault_script w)"
    using assms(1) by (auto simp: io_frame_def)
  obtain gs e' where b: "w'' = w'\<lparr>fault_script := gs, ccask_errno := e'\<rparr>" "length gs \<le> length (fault_script w')"
    using assms(2) by (auto simp: io_frame_def)
  have "w'' = w\<lparr>fault_script := gs, ccask_errno := e'\<rparr>" "length gs \<le> length (fault_script w)"
    using a b by simp_all
  then show ?thesis unfolding io_frame_def by blast
qed

lemma io_frame_set_errno [simp]: "io_frame w (set_errno e w)"
  unfolding io_frame_def set_errno_def by (intro exI [of _ "fault_script w"] exI [of _ e]) simp

lemma io_frame_more:
  "io_frame w w' \<Longrightarrow> posix.more w' = posix.more w"
  by (auto simp: io_frame_def)

lemma io_frame_same [frame_simps]:
  assumes "io_frame w w'"
  shows "dir_entries w' = dir_entries w" "inode_data w' = inode_data w" "next_inode w' = next_inode w"
    "open_fds w' = open_fds w" "fd_offsets w' = fd_offsets w" "next_fd w' = next_fd w"
    "clock w' = clock w" "length (fault_script w') \<le> length (fault_script w)"
  using assms by (auto simp: io_frame_def)

lemma io_frame_no_fault: "io_frame w w' \<Longrightarrow> fault_script w = [] \<Longrightarrow> fault_script w' = []"
  using io_frame_same(8) by fastforce

lemma sys_malloc_io: "sys_malloc w = (b, w') \<Longrightarrow> io_frame w w'"
  using sys_malloc_frame io_frameI by blast

lemma sys_mallocs_io: "sys_mallocs n w = (b, w') \<Longrightarrow> io_frame w w'"
  using sys_mallocs_frame io_frameI by blast

lemma sys_pread_io: "sys_pread fd n off w = (r, w') \<Longrightarrow> io_frame w w'"
  by (auto simp: sys_pread_def split: prod.splits fault.splits option.splits
      dest!: next_fault_frame intro!: io_frameI)

section \<open>Well-formed file systems\<close>

text \<open>
  Every path names one inode and every inode has one path at most; descriptors are not negative and
  refer to inodes that exist.
\<close>

definition inode_names :: "(string \<times> node) list \<Rightarrow> nat list" where
  "inode_names es = concat (map (\<lambda>(p, n). case n of Regular i \<Rightarrow> [i] | Other \<Rightarrow> []) es)"

definition posix_inv :: "'a posix_scheme \<Rightarrow> bool" where
  "posix_inv w \<longleftrightarrow>
     distinct (map fst (dir_entries w)) \<and> distinct (inode_names (dir_entries w))
     \<and> (\<forall>i \<in> set (inode_names (dir_entries w)). i < next_inode w)
     \<and> 0 \<le> next_fd w
     \<and> (\<forall>fd d. open_fds w fd = Some d \<longrightarrow> 0 \<le> fd \<and> fd < next_fd w \<and> fd_inode d < next_inode w)"

lemma inode_names_simps [simp]:
  "inode_names [] = []" "inode_names ((p, Regular i) # es) = i # inode_names es"
  "inode_names ((p, Other) # es) = inode_names es"
  "inode_names (es @ fs) = inode_names es @ inode_names fs"
  by (simp_all add: inode_names_def)

lemma in_inode_names: "i \<in> set (inode_names es) \<longleftrightarrow> (\<exists>p. (p, Regular i) \<in> set es)"
  by (auto simp: inode_names_def split: node.splits)

lemma inode_names_filter: "distinct (inode_names es) \<Longrightarrow> distinct (inode_names (filter P es))"
proof (induction es)
  case (Cons e es)
  obtain p n where e: "e = (p, n)" by fastforce
  have "i \<notin> set (inode_names (filter P es))" if "i \<notin> set (inode_names es)" for i
    using that by (auto simp: in_inode_names)
  with Cons e show ?case by (cases n) auto
qed simp

lemma inode_names_unique:
  assumes "distinct (inode_names es)" and "(p, Regular i) \<in> set es" and "(q, Regular i) \<in> set es"
  shows "p = q"
  using assms
proof (induction es)
  case (Cons e es)
  obtain r n where e: "e = (r, n)" by fastforce
  with Cons show ?case by (cases n) (auto simp: in_inode_names)
qed simp

lemma lookup_inode_eq: "lookup_inode w p = Some i \<longleftrightarrow> map_of (dir_entries w) p = Some (Regular i)"
  by (auto simp: lookup_inode_def split: option.splits node.splits)

lemma lookup_inode_iff:
  "distinct (map fst (dir_entries w)) \<Longrightarrow>
     lookup_inode w p = Some i \<longleftrightarrow> (p, Regular i) \<in> set (dir_entries w)"
  by (simp add: lookup_inode_eq)

text \<open>Distinct paths have distinct inodes.\<close>

lemma lookup_inode_inj:
  "posix_inv w \<Longrightarrow> lookup_inode w p = Some i \<Longrightarrow> lookup_inode w q = Some i \<Longrightarrow> p = q"
  using inode_names_unique by (auto simp: posix_inv_def lookup_inode_iff)

lemma lookup_inode_less: "posix_inv w \<Longrightarrow> lookup_inode w p = Some i \<Longrightarrow> i < next_inode w"
  by (auto simp: posix_inv_def lookup_inode_iff in_inode_names)

lemma posix_inv_cong:
  assumes "posix_inv w" and "dir_entries w' = dir_entries w" and "next_inode w' = next_inode w"
    and "next_fd w' = next_fd w" and "open_fds w' = open_fds w"
  shows "posix_inv w'"
  using assms by (simp add: posix_inv_def)

lemma posix_inv_simps [simp]:
  "posix_inv (w\<lparr>fault_script := fs\<rparr>) = posix_inv w"
  "posix_inv (w\<lparr>ccask_errno := e\<rparr>) = posix_inv w"
  "posix_inv (w\<lparr>inode_data := ds\<rparr>) = posix_inv w"
  "posix_inv (w\<lparr>fd_offsets := offs\<rparr>) = posix_inv w"
  "posix_inv (w\<lparr>clock := t\<rparr>) = posix_inv w"
  by (simp_all add: posix_inv_def)

lemma posix_inv_set_errno [simp]: "posix_inv (set_errno e w) = posix_inv w"
  by (simp add: set_errno_def)

lemma posix_inv_close: "posix_inv w \<Longrightarrow> posix_inv (sys_close fd w)"
  by (auto simp: posix_inv_def sys_close_def)

text \<open>The three outcomes of \<open>open\<close>.\<close>

lemma sys_open_cases:
  assumes "sys_open path flags w = (r, w')"
  obtains (failed) e fs where "r = Inl e" and "w' = w\<lparr>fault_script := fs\<rparr>"
      and "length fs \<le> length (fault_script w)"
  | (existing) p i fs where "path = Some p" and "r = Inr (next_fd w)" and "lookup_inode w p = Some i"
      and "w' = w\<lparr>fault_script := fs,
        open_fds := (open_fds w)(next_fd w \<mapsto> \<lparr>fd_inode = i, fd_writable = (flags = CREAT_RDWR_APPEND)\<rparr>),
        fd_offsets := (fd_offsets w)(next_fd w := 0), next_fd := next_fd w + 1\<rparr>"
      and "length fs \<le> length (fault_script w)"
  | (created) p fs where "path = Some p" and "r = Inr (next_fd w)" and "flags = CREAT_RDWR_APPEND"
      and "map_of (dir_entries w) p = None"
      and "w' = w\<lparr>fault_script := fs,
        dir_entries := dir_entries w @ [(p, Regular (next_inode w))],
        inode_data := (inode_data w)(next_inode w := []), next_inode := Suc (next_inode w),
        open_fds := (open_fds w)(next_fd w \<mapsto> \<lparr>fd_inode = next_inode w, fd_writable = True\<rparr>),
        fd_offsets := (fd_offsets w)(next_fd w := 0), next_fd := next_fd w + 1\<rparr>"
      and "length fs \<le> length (fault_script w)"
proof -
  obtain f u where f: "next_fault w = (f, u)" by fastforce
  then obtain fs where u: "u = w\<lparr>fault_script := fs\<rparr>" "length fs \<le> length (fault_script w)"
    using next_faultE by blast
  note simps = sys_open_def new_fd_def Let_def f u(1)
  consider (bad) e where "r = Inl e" "w' = u"
    | (old) p i where "path = Some p" "map_of (dir_entries w) p = Some (Regular i)" "\<not> (\<exists>e. f = Fault e)"
    | (fresh) p where "path = Some p" "map_of (dir_entries w) p = None" "flags = CREAT_RDWR_APPEND"
        "\<not> (\<exists>e. f = Fault e)"
    using assms by (auto simp: simps split: fault.splits option.splits node.splits if_splits)
  then show ?thesis
  proof cases
    case bad
    with u failed show ?thesis by blast
  next
    case old
    have "sys_open path flags w = (Inr (next_fd u), snd (new_fd i (flags = CREAT_RDWR_APPEND) u))"
      using old f u(1) by (cases f) (simp_all add: sys_open_def new_fd_def)
    with assms have r: "r = Inr (next_fd w)" and "w' = snd (new_fd i (flags = CREAT_RDWR_APPEND) u)"
      using u(1) by simp_all
    then have "w' = w\<lparr>fault_script := fs,
        open_fds := (open_fds w)(next_fd w \<mapsto> \<lparr>fd_inode = i, fd_writable = (flags = CREAT_RDWR_APPEND)\<rparr>),
        fd_offsets := (fd_offsets w)(next_fd w := 0), next_fd := next_fd w + 1\<rparr>"
      using u(1) by (cases w) (simp add: new_fd_def)
    moreover have "lookup_inode w p = Some i" using old(2) by (simp add: lookup_inode_def)
    ultimately show ?thesis using existing old(1) r u(2) by blast
  next
    case fresh
    let ?u = "u\<lparr>dir_entries := dir_entries u @ [(p, Regular (next_inode u))],
      inode_data := (inode_data u)(next_inode u := []), next_inode := Suc (next_inode u)\<rparr>"
    have "sys_open path flags w = (Inr (next_fd ?u), snd (new_fd (next_inode u) True ?u))"
      using fresh f u(1) by (cases f) (simp_all add: sys_open_def new_fd_def Let_def)
    with assms have r: "r = Inr (next_fd w)" and "w' = snd (new_fd (next_inode u) True ?u)"
      using u(1) by simp_all
    then have "w' = w\<lparr>fault_script := fs,
        dir_entries := dir_entries w @ [(p, Regular (next_inode w))],
        inode_data := (inode_data w)(next_inode w := []), next_inode := Suc (next_inode w),
        open_fds := (open_fds w)(next_fd w \<mapsto> \<lparr>fd_inode = next_inode w, fd_writable = True\<rparr>),
        fd_offsets := (fd_offsets w)(next_fd w := 0), next_fd := next_fd w + 1\<rparr>"
      using u(1) by (cases w) (simp add: new_fd_def)
    then show ?thesis using created fresh r u(2) by blast
  qed
qed

lemma sys_open_inv:
  assumes "sys_open path flags w = (r, w')" and "posix_inv w"
  shows "posix_inv w'"
  using assms(1)
proof (cases rule: sys_open_cases)
  case failed
  with assms(2) show ?thesis by simp
next
  case existing
  with assms(2) lookup_inode_less [OF assms(2)] show ?thesis
    by (force simp: posix_inv_def)
next
  case (created p fs)
  have "p \<notin> fst ` set (dir_entries w)" using created(4) by (simp add: map_of_eq_None_iff)
  moreover have "next_inode w \<notin> set (inode_names (dir_entries w))"
    using assms(2) by (auto simp: posix_inv_def)
  ultimately show ?thesis using created assms(2) by (force simp: posix_inv_def less_Suc_eq)
qed

text \<open>What an open leaves alone: the inodes that exist and the paths that are not opened.\<close>

lemma sys_open_frame:
  assumes "sys_open path flags w = (r, w')" and "posix_inv w"
  shows "lookup_inode w q = Some i \<Longrightarrow> lookup_inode w' q = Some i"
    and "i < next_inode w \<Longrightarrow> inode_data w' i = inode_data w i"
    and "fd < next_fd w \<Longrightarrow> open_fds w' fd = open_fds w fd"
    and "next_fd w \<le> next_fd w'" and "next_inode w \<le> next_inode w'"
    and "length (fault_script w') \<le> length (fault_script w)"
    and "clock w' = clock w"
  using assms(1)
  by (cases rule: sys_open_cases; auto simp: lookup_inode_def map_of_append split: option.splits)+

text \<open>A successful open refers to the inode of the path.\<close>

lemma sys_open_ok:
  assumes "sys_open path flags w = (Inr fd, w')"
  obtains p i where "path = Some p" and "fd = next_fd w" and "lookup_inode w' p = Some i"
    and "open_fds w' fd = Some \<lparr>fd_inode = i, fd_writable = (flags = CREAT_RDWR_APPEND)\<rparr>"
    and "next_fd w' = next_fd w + 1"
    and "lookup_inode w p = None \<Longrightarrow> inode_data w' i = []"
  using assms
proof (cases rule: sys_open_cases)
  case (existing p i fs)
  then show ?thesis by (intro that [of p i]) (auto simp: lookup_inode_def)
next
  case (created p fs)
  then show ?thesis
    by (intro that [of p "next_inode w"]) (auto simp: lookup_inode_def map_of_append split: option.splits)
qed simp

lemma sys_open_no_fault [no_fault_simps]:
  "fault_script w = [] \<Longrightarrow> lookup_inode w p = Some i \<Longrightarrow>
     sys_open (Some p) flags w = (Inr (next_fd w),
       w\<lparr>open_fds := (open_fds w)(next_fd w \<mapsto> \<lparr>fd_inode = i, fd_writable = (flags = CREAT_RDWR_APPEND)\<rparr>),
         fd_offsets := (fd_offsets w)(next_fd w := 0), next_fd := next_fd w + 1\<rparr>)"
  by (auto simp: sys_open_def next_fault_nil new_fd_def lookup_inode_def Let_def
      split: option.splits node.splits)

lemma sys_open_create_no_fault [no_fault_simps]:
  "fault_script w = [] \<Longrightarrow> map_of (dir_entries w) p = None \<Longrightarrow>
     sys_open (Some p) CREAT_RDWR_APPEND w = (Inr (next_fd w),
       w\<lparr>dir_entries := dir_entries w @ [(p, Regular (next_inode w))],
         inode_data := (inode_data w)(next_inode w := []), next_inode := Suc (next_inode w),
         open_fds := (open_fds w)(next_fd w \<mapsto> \<lparr>fd_inode = next_inode w, fd_writable = True\<rparr>),
         fd_offsets := (fd_offsets w)(next_fd w := 0), next_fd := next_fd w + 1\<rparr>)"
  by (simp add: sys_open_def next_fault_nil new_fd_def Let_def)


section \<open>Opening and closing keep every file's contents\<close>

definition bytes_at :: "'a posix_scheme \<Rightarrow> string \<Rightarrow> byte list" where
  "bytes_at w path = (case lookup_inode w path of None \<Rightarrow> [] | Some i \<Rightarrow> inode_data w i)"

lemma lookup_inode_cong: "dir_entries w' = dir_entries w \<Longrightarrow> lookup_inode w' q = lookup_inode w q"
  by (simp add: lookup_inode_def)

lemma bytes_at_cong:
  "dir_entries w' = dir_entries w \<Longrightarrow> inode_data w' = inode_data w \<Longrightarrow> bytes_at w' q = bytes_at w q"
  using lookup_inode_cong [of w' w q] by (simp add: bytes_at_def split: option.split)

text \<open>
  \<open>grows P F w w'\<close>: between \<open>w\<close> and \<open>w'\<close> only paths of \<open>P\<close> were created, as empty files, only
  descriptors of \<open>F\<close> were closed, and nothing was written.
\<close>

definition grows :: "string set \<Rightarrow> int set \<Rightarrow> 'a posix_scheme \<Rightarrow> 'b posix_scheme \<Rightarrow> bool" where
  "grows P F w w' \<longleftrightarrow>
     (\<forall>q. q \<notin> P \<longrightarrow> map_of (dir_entries w') q = map_of (dir_entries w) q)
     \<and> (\<forall>q i. lookup_inode w q = Some i \<longrightarrow> lookup_inode w' q = Some i)
     \<and> (\<forall>q. bytes_at w' q = bytes_at w q)
     \<and> (\<forall>fd. fd \<notin> F \<longrightarrow> fd < next_fd w \<longrightarrow> open_fds w' fd = open_fds w fd)
     \<and> next_fd w \<le> next_fd w'
     \<and> length (fault_script w') \<le> length (fault_script w)
     \<and> clock w' = clock w"

lemma grows_trans:
  assumes "grows P F w w'" and "grows Q G w' w''"
  shows "grows (P \<union> Q) (F \<union> G) w w''"
proof -
  have "open_fds w'' fd = open_fds w fd" if "fd \<notin> F \<union> G" "fd < next_fd w" for fd
    using that assms by (simp add: grows_def)
  then show ?thesis using assms by (simp add: grows_def)
qed

lemma grows_trans_same:
  "grows P F w w' \<Longrightarrow> grows P F w' w'' \<Longrightarrow> grows P F w w''"
  using grows_trans [of P F w w' P F w''] by simp

lemma grows_mono: "grows P F w w' \<Longrightarrow> P \<subseteq> Q \<Longrightarrow> F \<subseteq> G \<Longrightarrow> grows Q G w w'"
  unfolding grows_def by blast

lemma grows_same:
  assumes "dir_entries w' = dir_entries w" "inode_data w' = inode_data w" "open_fds w' = open_fds w"
    "next_fd w' = next_fd w" "length (fault_script w') \<le> length (fault_script w)" "clock w' = clock w"
  shows "grows P F w w'"
proof -
  have "lookup_inode w' q = lookup_inode w q" "bytes_at w' q = bytes_at w q" for q
    using assms lookup_inode_cong bytes_at_cong by metis+
  with assms show ?thesis by (simp add: grows_def)
qed

lemma grows_bytes: "grows P F w w' \<Longrightarrow> bytes_at w' q = bytes_at w q"
  by (simp add: grows_def)

lemma grows_lookup: "grows P F w w' \<Longrightarrow> lookup_inode w q = Some i \<Longrightarrow> lookup_inode w' q = Some i"
  by (simp add: grows_def)

lemma grows_fds:
  "grows P F w w' \<Longrightarrow> posix_inv w \<Longrightarrow> open_fds w fd = Some d \<Longrightarrow> fd \<notin> F \<Longrightarrow> open_fds w' fd = Some d"
  by (auto simp: grows_def posix_inv_def)

lemma grows_close: "grows {} {fd} w (sys_close fd w)"
proof -
  have "dir_entries (sys_close fd w) = dir_entries w" "inode_data (sys_close fd w) = inode_data w"
    by (simp_all add: sys_close_def)
  then have "lookup_inode (sys_close fd w) q = lookup_inode w q"
    "bytes_at (sys_close fd w) q = bytes_at w q" for q
    using lookup_inode_cong bytes_at_cong by metis+
  then show ?thesis by (simp add: grows_def) (simp add: sys_close_def)
qed

lemma grows_open:
  assumes "sys_open path flags w = (r, w')" and "posix_inv w"
  shows "grows (if flags = CREAT_RDWR_APPEND then set_option path else {}) {} w w'"
  using assms(1)
proof (cases rule: sys_open_cases)
  case (failed e fs)
  then show ?thesis by (intro grows_same) simp_all
next
  case (existing p i fs)
  then have "dir_entries w' = dir_entries w" "inode_data w' = inode_data w" by simp_all
  then have "lookup_inode w' q = lookup_inode w q" "bytes_at w' q = bytes_at w q" for q
    using lookup_inode_cong bytes_at_cong by metis+
  with existing show ?thesis by (simp add: grows_def)
next
  case (created p fs)
  have "lookup_inode w q = Some i \<Longrightarrow> lookup_inode w' q = Some i" for q i
    using sys_open_frame(1) [OF assms] .
  moreover have "bytes_at w' q = bytes_at w q" for q
  proof (cases "lookup_inode w q")
    case None
    then show ?thesis
      using created by (auto simp: bytes_at_def lookup_inode_def map_of_append split: option.splits node.splits if_splits)
  next
    case (Some i)
    then have "i < next_inode w" using assms(2) lookup_inode_less by blast
    with Some sys_open_frame(1,2) [OF assms] show ?thesis by (simp add: bytes_at_def)
  qed
  moreover have "q \<notin> set_option path \<Longrightarrow> map_of (dir_entries w') q = map_of (dir_entries w) q" for q
    using created by (simp add: map_add_def split: option.splits)
  ultimately show ?thesis using created by (simp add: grows_def)
qed

text \<open>\<open>reads_from fd bs w\<close>: the descriptor is open on a file with the contents \<open>bs\<close>.\<close>

definition reads_from :: "int \<Rightarrow> byte list \<Rightarrow> 'a posix_scheme \<Rightarrow> bool" where
  "reads_from fd bs w \<longleftrightarrow> 0 \<le> fd \<and> (\<exists>d. open_fds w fd = Some d \<and> inode_data w (fd_inode d) = bs)"

lemma reads_from_cong:
  "open_fds w' = open_fds w \<Longrightarrow> inode_data w' = inode_data w \<Longrightarrow> reads_from fd bs w' = reads_from fd bs w"
  by (simp add: reads_from_def)

lemma reads_from_io: "io_frame w w' \<Longrightarrow> reads_from fd bs w' = reads_from fd bs w"
  by (rule reads_from_cong) (simp_all add: frame_simps)

lemma reads_from_simps [simp]:
  "reads_from fd bs (w\<lparr>fault_script := fs\<rparr>) = reads_from fd bs w"
  "reads_from fd bs (w\<lparr>ccask_errno := e\<rparr>) = reads_from fd bs w"
  by (simp_all add: reads_from_def)

text \<open>A world with no file and no fault, for concrete runs.\<close>

definition quiet_posix :: posix where
  "quiet_posix = \<lparr>dir_entries = [], inode_data = \<lambda>_. [], next_inode = 0, open_fds = \<lambda>_. None,
     fd_offsets = \<lambda>_. 0, next_fd = 3, fault_script = [], clock = 0, ccask_errno = CCASK_ERR_UNKNOWN\<rparr>"

end
