(* ===== verification/Encoding.thy ===== *)
theory Encoding
  imports Posix
begin

text \<open>
  The byte-order helpers, the checksum helper and the file names of src/utils.c.  Multi-byte
  integers are stored big-endian on disk (\<open>htobe32\<close> and friends), while \<open>calculate_crc32\<close> feeds
  zlib the bytes of the integers in host order: the host is taken to be little-endian.
\<close>

section \<open>Big-endian integers\<close>

definition write_be16 :: "u16 \<Rightarrow> byte list" where
  "write_be16 v = [ucast (drop_bit 8 v), ucast v]"

definition write_be32 :: "u32 \<Rightarrow> byte list" where
  "write_be32 v = [ucast (drop_bit 24 v), ucast (drop_bit 16 v), ucast (drop_bit 8 v), ucast v]"

definition write_be64 :: "u64 \<Rightarrow> byte list" where
  "write_be64 v = [ucast (drop_bit 56 v), ucast (drop_bit 48 v), ucast (drop_bit 40 v),
     ucast (drop_bit 32 v), ucast (drop_bit 24 v), ucast (drop_bit 16 v), ucast (drop_bit 8 v), ucast v]"

text \<open>The readers copy 2, 4 or 8 bytes out of a buffer that holds at least as many.\<close>

definition read_be16 :: "byte list \<Rightarrow> u16" where
  "read_be16 b = push_bit 8 (ucast (b ! 0)) OR ucast (b ! 1)"

definition read_be32 :: "byte list \<Rightarrow> u32" where
  "read_be32 b = push_bit 24 (ucast (b ! 0)) OR push_bit 16 (ucast (b ! 1))
     OR push_bit 8 (ucast (b ! 2)) OR ucast (b ! 3)"

definition read_be64 :: "byte list \<Rightarrow> u64" where
  "read_be64 b = push_bit 56 (ucast (b ! 0)) OR push_bit 48 (ucast (b ! 1))
     OR push_bit 40 (ucast (b ! 2)) OR push_bit 32 (ucast (b ! 3))
     OR push_bit 24 (ucast (b ! 4)) OR push_bit 16 (ucast (b ! 5))
     OR push_bit 8 (ucast (b ! 6)) OR ucast (b ! 7)"

lemma length_write_be [simp, codec_simps]:
  "length (write_be16 v) = 2" "length (write_be32 x) = 4" "length (write_be64 y) = 8"
  by (simp_all add: write_be16_def write_be32_def write_be64_def)

lemma read_write_be16 [simp, codec_simps]: "read_be16 (write_be16 v @ bs) = v"
proof (rule bit_word_eqI)
  fix n assume "n < LENGTH(16)"
  then have "n < 16" by simp
  then consider "n < 8" | "8 \<le> n \<and> n < 16"
    by linarith
  then show "bit (read_be16 (write_be16 v @ bs)) n \<longleftrightarrow> bit v n"
    by cases (auto simp: read_be16_def write_be16_def bit_simps less_diff_conv2)
qed

lemma read_write_be32 [simp, codec_simps]: "read_be32 (write_be32 v @ bs) = v"
proof (rule bit_word_eqI)
  fix n assume "n < LENGTH(32)"
  then have "n < 32" by simp
  then consider "n < 8" | "8 \<le> n \<and> n < 16" | "16 \<le> n \<and> n < 24" | "24 \<le> n \<and> n < 32"
    by linarith
  then show "bit (read_be32 (write_be32 v @ bs)) n \<longleftrightarrow> bit v n"
    by cases (auto simp: read_be32_def write_be32_def bit_simps less_diff_conv2)
qed

lemma read_write_be64 [simp, codec_simps]: "read_be64 (write_be64 v @ bs) = v"
proof (rule bit_word_eqI)
  fix n assume "n < LENGTH(64)"
  then have "n < 64" by simp
  then consider "n < 8" | "8 \<le> n \<and> n < 16" | "16 \<le> n \<and> n < 24" | "24 \<le> n \<and> n < 32" | "32 \<le> n \<and> n < 40" | "40 \<le> n \<and> n < 48" | "48 \<le> n \<and> n < 56" | "56 \<le> n \<and> n < 64"
    by linarith
  then show "bit (read_be64 (write_be64 v @ bs)) n \<longleftrightarrow> bit v n"
    by cases (auto simp: read_be64_def write_be64_def bit_simps less_diff_conv2)
qed

lemma read_write_be_exact [simp, codec_simps]:
  "read_be16 (write_be16 v) = v" "read_be32 (write_be32 x) = x" "read_be64 (write_be64 y) = y"
  using read_write_be16 [of v "[]"] read_write_be32 [of x "[]"] read_write_be64 [of y "[]"]
  by simp_all

text \<open>The bytes of a 32-bit or 64-bit variable in the memory of a little-endian host.\<close>

definition host32 :: "u32 \<Rightarrow> byte list" where
  "host32 v = rev (write_be32 v)"

definition host64 :: "u64 \<Rightarrow> byte list" where
  "host64 v = rev (write_be64 v)"

lemma length_host [simp]: "length (host32 v) = 4" "length (host64 x) = 8"
  by (simp_all add: host32_def host64_def)

lemma host64_inj [simp]: "host64 x = host64 y \<longleftrightarrow> x = y"
proof
  assume "host64 x = host64 y"
  then have "read_be64 (write_be64 x) = read_be64 (write_be64 y)" by (simp add: host64_def)
  then show "x = y" by simp
qed simp


section \<open>Checksum\<close>

text \<open>
  zlib's \<open>crc32(crc, buf, len)\<close> is a parameter: it gets the running checksum and the bytes of the
  buffer, or \<open>None\<close> for a NULL buffer.
\<close>

type_synonym crc_fun = "u32 \<Rightarrow> byte list option \<Rightarrow> u32"

definition calculate_crc32 ::
  "crc_fun \<Rightarrow> u32 \<Rightarrow> u32 \<Rightarrow> u32 \<Rightarrow> byte list option \<Rightarrow> byte list option \<Rightarrow> u32" where
  "calculate_crc32 crc32 timestamp key_size value_size key val =
     (let crc = crc32 0 (Some (host32 timestamp));
          crc = crc32 crc (Some (host32 key_size));
          crc = crc32 crc (Some (host32 value_size));
          crc = crc32 crc (map_option (take (unat key_size)) key);
          crc = crc32 crc (map_option (take (unat value_size)) val)
      in crc)"

text \<open>
  zlib documents that a NULL buffer makes \<open>crc32\<close> return the initial value 0, whatever the running
  checksum.
\<close>

definition zlib_null_resets :: "crc_fun \<Rightarrow> bool" where
  "zlib_null_resets crc32 \<longleftrightarrow> (\<forall>c. crc32 c None = 0)"

lemma crc_of_null_value:
  "zlib_null_resets crc32 \<Longrightarrow> calculate_crc32 crc32 ts ks vs key None = 0"
  by (simp add: calculate_crc32_def zlib_null_resets_def Let_def)


section \<open>File names\<close>

datatype file_ext = FILE_UNKNOWN | FILE_DATA | FILE_HINT | FILE_TEMP_DATA

text \<open>\<open>strrchr\<close>: the position of the last occurrence of a character.\<close>

fun strrchr :: "string \<Rightarrow> char \<Rightarrow> nat option" where
  "strrchr [] c = None"
| "strrchr (x # xs) c = (case strrchr xs c of
      Some i \<Rightarrow> Some (Suc i)
    | None \<Rightarrow> if x = c then Some 0 else None)"

definition is_digit :: "char \<Rightarrow> bool" where
  "is_digit c \<longleftrightarrow> of_char CHR ''0'' \<le> (of_char c :: nat) \<and> of_char c \<le> (of_char CHR ''9'' :: nat)"

definition is_space :: "char \<Rightarrow> bool" where
  "is_space c \<longleftrightarrow> c = CHR '' '' \<or> (9 \<le> (of_char c :: nat) \<and> of_char c \<le> (13 :: nat))"

definition digit_val :: "char \<Rightarrow> nat" where
  "digit_val c = of_char c - of_char CHR ''0''"

fun digits_val :: "nat \<Rightarrow> string \<Rightarrow> nat" where
  "digits_val n [] = n"
| "digits_val n (c # cs) = (if is_digit c then digits_val (10 * n + digit_val c) cs else n)"

text \<open>
  \<open>atoi\<close>: white space, an optional sign, decimal digits.  A value outside the range of \<open>int\<close> is
  undefined behaviour, \<open>None\<close>.
\<close>

definition atoi :: "string \<Rightarrow> int option" where
  "atoi s = (let t = dropWhile is_space s;
                 v = (case t of
                        [] \<Rightarrow> 0
                      | c # cs \<Rightarrow> if c = CHR ''-'' then - int (digits_val 0 cs)
                                  else if c = CHR ''+'' then int (digits_val 0 cs)
                                  else int (digits_val 0 t))
             in if - (2 ^ 31) \<le> v \<and> v < 2 ^ 31 then Some v else None)"

text \<open>
  \<open>parse_filename\<close>: a name without a dot makes \<open>dot\<close> NULL and the copy of \<open>dot - name\<close> bytes
  undefined; so does a failed allocation, which is not checked.  The identifier is the \<open>int\<close> of
  \<open>atoi\<close> converted to 64 bits.
\<close>

definition parse_filename ::
  "string \<Rightarrow> 'a posix_scheme \<Rightarrow> ((file_ext \<times> u64) \<times> 'a posix_scheme) option" where
  "parse_filename name w = (case strrchr name CHR ''.'' of
      None \<Rightarrow> None
    | Some flen \<Rightarrow>
        (let (ok, w') = sys_malloc w in
         if \<not> ok then None
         else let fname = take flen name; dot = drop flen name in
              do { i \<leftarrow> atoi fname;
                   let ext = (if dot = ''.data.tmp'' then FILE_TEMP_DATA
                              else if dot = ''.data'' then FILE_DATA
                              else if dot = ''.hint'' then FILE_HINT
                              else FILE_UNKNOWN);
                   Some ((ext, word_of_int i), w') }))"

text \<open>Decimal printing, as \<open>sprintf\<close> does for PRIu64.\<close>

fun decimal :: "nat \<Rightarrow> string" where
  "decimal n = (if n < 10 then [char_of (48 + n)] else decimal (n div 10) @ [char_of (48 + n mod 10)])"

declare decimal.simps [simp del]

definition ext_chars :: "file_ext \<Rightarrow> string option" where
  "ext_chars ext = (case ext of
      FILE_DATA \<Rightarrow> Some ''.data''
    | FILE_HINT \<Rightarrow> Some ''.hint''
    | FILE_TEMP_DATA \<Rightarrow> Some ''.data.tmp''
    | FILE_UNKNOWN \<Rightarrow> None)"

definition has_trailing_slash :: "string \<Rightarrow> bool" where
  "has_trailing_slash dir \<longleftrightarrow> dir \<noteq> [] \<and> last dir = CHR ''/''"

definition dir_prefix :: "string \<Rightarrow> string" where
  "dir_prefix dir = (if has_trailing_slash dir then dir else dir @ ''/'')"

text \<open>The text that \<open>build_filepath\<close> prints, and the size of the buffer it prints it into.\<close>

definition filepath_text :: "string \<Rightarrow> u64 \<Rightarrow> string \<Rightarrow> string" where
  "filepath_text dir file_id ext_char = dir_prefix dir @ decimal (unat file_id) @ ext_char"

definition filepath_total :: "string \<Rightarrow> string \<Rightarrow> nat" where
  "filepath_total dir ext_char =
     length dir + (if has_trailing_slash dir then 0 else 1) + 20 + 1 + length ext_char + 1"

definition build_filepath ::
  "string \<Rightarrow> u64 \<Rightarrow> file_ext \<Rightarrow> 'a posix_scheme \<Rightarrow> string option \<times> 'a posix_scheme" where
  "build_filepath dir file_id ext w = (case ext_chars ext of
      None \<Rightarrow> (None, w)
    | Some ext_char \<Rightarrow>
        (let (ok, w') = sys_malloc w in
         if \<not> ok then (None, w') else (Some (filepath_text dir file_id ext_char), w')))"

lemma build_filepath_frame:
  "build_filepath dir i ext w = (p, w') \<Longrightarrow>
     (\<exists>fs. w' = w\<lparr>fault_script := fs\<rparr> \<and> length fs \<le> length (fault_script w)) \<and>
     (\<forall>q. p = Some q \<longrightarrow> (\<exists>e. ext_chars ext = Some e \<and> q = filepath_text dir i e))"
  by (cases w)
     (auto simp: build_filepath_def split: option.splits prod.splits if_splits
       dest!: sys_malloc_frame)

lemma build_filepath_no_fault [no_fault_simps]:
  "fault_script w = [] \<Longrightarrow> ext_chars ext = Some e \<Longrightarrow>
     build_filepath dir i ext w = (Some (filepath_text dir i e), w)"
  by (simp add: build_filepath_def sys_malloc_no_fault)


section \<open>Facts about names\<close>

lemma is_digit_char_of [simp]: "d < 10 \<Longrightarrow> is_digit (char_of (48 + d :: nat))"
  by (simp add: is_digit_def)

lemma digit_val_char_of [simp]: "d < 10 \<Longrightarrow> digit_val (char_of (48 + d :: nat)) = d"
  by (simp add: digit_val_def)

lemma decimal_digits: "c \<in> set (decimal n) \<Longrightarrow> is_digit c"
proof (induction n rule: decimal.induct)
  case (1 n)
  then show ?case
    by (subst (asm) (2) decimal.simps) (auto split: if_splits)
qed

lemma decimal_not_Nil [simp]: "decimal n \<noteq> []"
  by (subst decimal.simps) simp

lemma digits_val_append:
  "(\<And>c. c \<in> set xs \<Longrightarrow> is_digit c) \<Longrightarrow> digits_val n (xs @ ys) = digits_val (digits_val n xs) ys"
  by (induction xs arbitrary: n) auto

lemma digits_val_decimal [simp]: "digits_val 0 (decimal n) = n"
proof (induction n rule: decimal.induct)
  case (1 n)
  show ?case
  proof (cases "n < 10")
    case True
    then show ?thesis by (subst decimal.simps) simp
  next
    case False
    with 1 have IH: "digits_val 0 (decimal (n div 10)) = n div 10" by simp
    have "digits_val 0 (decimal n) = digits_val (digits_val 0 (decimal (n div 10))) [char_of (48 + n mod 10)]"
      using False by (subst decimal.simps) (simp only: if_False digits_val_append [OF decimal_digits])
    also have "\<dots> = n" using IH by simp
    finally show ?thesis .
  qed
qed

lemma decimal_inj [simp]: "decimal m = decimal n \<longleftrightarrow> m = n"
  by (metis digits_val_decimal)

lemma length_decimal: "n < 10 ^ k \<Longrightarrow> 0 < k \<Longrightarrow> length (decimal n) \<le> k"
proof (induction n arbitrary: k rule: decimal.induct)
  case (1 n)
  show ?case
  proof (cases "n < 10")
    case True
    with 1 show ?thesis by (subst decimal.simps) simp
  next
    case False
    with "1.prems" obtain j where k: "k = Suc j" and j: "0 < j" by (cases k; cases "k - 1") auto
    have "n div 10 < 10 ^ j" using "1.prems" k by auto
    with "1.IH" False j have "length (decimal (n div 10)) \<le> j" by simp
    with False k show ?thesis by (subst decimal.simps) simp
  qed
qed

lemma length_decimal_u64: "length (decimal (unat (i :: u64))) \<le> 20"
proof (rule length_decimal)
  have "unat i < 2 ^ 64" using unsigned_less [of i, where ?'a = nat] by simp
  then show "unat i < 10 ^ 20" by simp
qed simp

lemma digit_char_cases:
  assumes "is_digit c"
  shows "\<not> is_space c" "c \<noteq> CHR ''-''" "c \<noteq> CHR ''+''" "c \<noteq> CHR ''.''" "c \<noteq> CHR ''/''"
  using assms by (auto simp: is_digit_def is_space_def)

lemma atoi_decimal: "n < 2 ^ 31 \<Longrightarrow> atoi (decimal n) = Some (int n)"
proof -
  assume n: "n < 2 ^ 31"
  obtain c cs where c: "decimal n = c # cs" by (cases "decimal n") auto
  have "is_digit c" using decimal_digits [of c n] c by simp
  note d = digit_char_cases [OF this]
  have "dropWhile is_space (decimal n) = decimal n" using c d by simp
  moreover have "int (digits_val 0 (decimal n)) = int n" by simp
  moreover have "- (2 ^ 31) \<le> int n" "int n < 2 ^ 31" using n by auto
  ultimately show ?thesis
    using c d by (simp add: atoi_def Let_def del: digits_val.simps)
qed

lemma strrchr_None: "strrchr s c = None \<longleftrightarrow> c \<notin> set s"
  by (induction s) (auto split: option.splits)

lemma strrchr_append:
  "strrchr (xs @ ys) c = (case strrchr ys c of Some i \<Rightarrow> Some (length xs + i) | None \<Rightarrow> strrchr xs c)"
  by (induction xs) (auto split: option.splits)

lemma strrchr_SomeD:
  "strrchr s c = Some i \<Longrightarrow> i < length s \<and> s ! i = c \<and> c \<notin> set (drop (Suc i) s)"
  by (induction s arbitrary: i) (auto split: option.splits if_splits simp: strrchr_None)

text \<open>The part of a path after the directory.\<close>

definition path_name :: "string \<Rightarrow> string \<Rightarrow> string" where
  "path_name dir path = drop (length (dir_prefix dir)) path"

lemma path_name_text [simp]: "path_name dir (filepath_text dir i e) = decimal (unat i) @ e"
  by (simp add: path_name_def filepath_text_def)

lemma digits_prefix_unique:
  assumes "xs @ CHR ''.'' # ys = xs' @ CHR ''.'' # ys'"
    and "\<And>c. c \<in> set xs \<Longrightarrow> is_digit c" and "\<And>c. c \<in> set xs' \<Longrightarrow> is_digit c"
  shows "xs = xs' \<and> ys = ys'"
  using assms
proof (induction xs arbitrary: xs')
  case Nil
  then show ?case
    by (cases xs') (auto dest: digit_char_cases(4))
next
  case (Cons x xs)
  then obtain xs'' where "xs' = x # xs''" by (cases xs') (auto dest: digit_char_cases(4))
  with Cons show ?case by auto
qed

lemma ext_chars_dot: "ext_chars ext = Some e \<Longrightarrow> \<exists>es. e = CHR ''.'' # es"
  by (cases ext) (auto simp: ext_chars_def)

lemma ext_chars_inj: "ext_chars x = Some e \<Longrightarrow> ext_chars y = Some e \<Longrightarrow> x = y"
  by (cases x; cases y) (auto simp: ext_chars_def)

lemma filepath_text_inj:
  assumes "filepath_text dir i e = filepath_text dir j e'"
    and "ext_chars x = Some e" and "ext_chars y = Some e'"
  shows "i = j \<and> x = y"
proof -
  obtain es es' where e: "e = CHR ''.'' # es" "e' = CHR ''.'' # es'"
    using ext_chars_dot assms(2,3) by blast
  have "decimal (unat i) @ e = decimal (unat j) @ e'"
    using assms(1) by (simp add: filepath_text_def)
  then have "decimal (unat i) = decimal (unat j) \<and> es = es'"
    using e digits_prefix_unique [of "decimal (unat i)" es "decimal (unat j)" es'] decimal_digits
    by simp
  then show ?thesis using assms(2,3) e ext_chars_inj by (auto simp: word_unat_eq_iff)
qed

lemma parse_data_name:
  assumes "fault_script w = []" and "unat i < 2 ^ 31"
    and "ext_chars ext = Some e" and "ext \<noteq> FILE_TEMP_DATA"
  shows "parse_filename (decimal (unat i) @ e) w = Some ((ext, i), w)"
proof -
  have "strrchr e CHR ''.'' = Some 0"
    using assms(3,4) by (cases ext) (auto simp: ext_chars_def)
  then have "strrchr (decimal (unat i) @ e) CHR ''.'' = Some (length (decimal (unat i)))"
    by (simp add: strrchr_append)
  moreover have "atoi (decimal (unat i)) = Some (int (unat i))"
    using assms(2) by (rule atoi_decimal)
  ultimately show ?thesis
    using assms(1,3,4)
    by (cases ext) (auto simp: parse_filename_def sys_malloc_no_fault ext_chars_def)
qed

section \<open>Properties\<close>

text \<open>
  Every integer that is written big-endian is read back, whatever follows it in the buffer.
\<close>

theorem byte_order_round_trip:
  "read_be16 (write_be16 x @ bs) = x \<and> read_be32 (write_be32 y @ bs) = y \<and> read_be64 (write_be64 z @ bs) = z"
  by simp

text \<open>
  C36: the name that \<open>build_filepath\<close> gives a datafile or a hintfile is parsed back to the same
  identifier and extension, for identifiers in the range of the \<open>int\<close> that \<open>atoi\<close> returns.
\<close>

theorem file_name_round_trip:
  assumes "fault_script w = []" and "unat i < 2 ^ 31" and "ext = FILE_DATA \<or> ext = FILE_HINT"
  shows "\<exists>path. build_filepath dir i ext w = (Some path, w)
    \<and> parse_filename (path_name dir path) w = Some ((ext, i), w)"
proof -
  obtain e where e: "ext_chars ext = Some e" using assms(3) by (auto simp: ext_chars_def)
  have "build_filepath dir i ext w = (Some (filepath_text dir i e), w)"
    using assms(1) e by (rule build_filepath_no_fault)
  moreover have "parse_filename (path_name dir (filepath_text dir i e)) w = Some ((ext, i), w)"
    using parse_data_name [OF assms(1,2) e] assms(3) by auto
  ultimately show ?thesis by blast
qed

theorem file_name_round_trip_witness:
  "\<exists>path. build_filepath ''d'' 42 FILE_HINT quiet_posix = (Some path, quiet_posix)
    \<and> parse_filename (path_name ''d'' path) quiet_posix = Some ((FILE_HINT, 42), quiet_posix)"
  by (rule file_name_round_trip) (simp_all add: quiet_posix_def)

text \<open>
  The text that \<open>build_filepath\<close> prints, with its terminating null byte, fits the buffer it
  allocates.
\<close>

theorem file_path_fits_buffer:
  "length (filepath_text dir i ext_char) + 1 \<le> filepath_total dir ext_char"
  using length_decimal_u64 [of i] by (simp add: filepath_text_def filepath_total_def dir_prefix_def)

text \<open>
  C37: \<open>parse_filename\<close> never recognises a temporary datafile: the extension is what follows the last
  dot of the name, so ".data.tmp" is never one.
\<close>

theorem parse_never_temp:
  assumes "parse_filename name w = Some ((ext, i), w')"
  shows "ext \<noteq> FILE_TEMP_DATA"
proof -
  obtain n where n: "strrchr name CHR ''.'' = Some n" and ext: "ext = FILE_TEMP_DATA \<Longrightarrow> drop n name = ''.data.tmp''"
    using assms by (auto simp: parse_filename_def Let_def bind_eq_Some_conv split: option.splits prod.splits if_splits)
  have "CHR ''.'' \<notin> set (drop (Suc n) name)" using strrchr_SomeD [OF n] by blast
  moreover have "drop (Suc n) name = tl (drop n name)" by (simp add: drop_Suc tl_drop)
  ultimately show ?thesis using ext by auto
qed

theorem parse_never_temp_witness:
  "parse_filename ''7.data.tmp'' quiet_posix = Some ((FILE_UNKNOWN, 7), quiet_posix)
    \<and> FILE_UNKNOWN \<noteq> FILE_TEMP_DATA"
proof -
  have p: "parse_filename ''7.data.tmp'' quiet_posix = Some ((FILE_UNKNOWN, 7), quiet_posix)"
    by (simp add: parse_filename_def quiet_posix_def sys_malloc_def next_fault_def atoi_def is_space_def
        is_digit_def digit_val_def Let_def)
  from p parse_never_temp [OF p] show ?thesis by blast
qed

end
