(* ===== verification/SafeIO.thy ===== *)
theory SafeIO
  imports Encoding
begin

text \<open>
  The retrying I/O helpers of src/utils.c: \<open>safe_writev\<close>, \<open>safe_preadv\<close> and \<open>safe_pread\<close>.  An
  \<open>iovec\<close> holds the bytes its base pointer addresses: the bytes still to be written for a write, the
  bytes read so far for a read, and the number of bytes left to transfer.

  \<open>safe_writev\<close> does not return when a zero-length vector is left over (\<open>writev\<close> then returns 0 for
  ever), so its loop is a \<open>partial_function\<close>; the read loops always return.
\<close>

record iovec =
  iov_base :: "byte list"
  iov_len :: nat

definition wf_iov :: "iovec \<Rightarrow> bool" where
  "wf_iov v \<longleftrightarrow> length (iov_base v) = iov_len v"

definition iov_bytes :: "iovec list \<Rightarrow> byte list" where
  "iov_bytes iov = concat (map (\<lambda>v. take (iov_len v) (iov_base v)) iov)"

definition iov_total_len :: "iovec list \<Rightarrow> nat" where
  "iov_total_len iov = sum_list (map iov_len iov)"

definition retry_errno :: "errno \<Rightarrow> bool" where
  "retry_errno e \<longleftrightarrow> e = EINTR \<or> e = EAGAIN"


section \<open>Writing\<close>

text \<open>
  The inner loop of \<open>safe_writev\<close>: skip what \<open>n\<close> written bytes cover.  The vectors before
  \<open>current_iov_idx\<close> are dropped.
\<close>

fun iov_advance :: "nat \<Rightarrow> iovec list \<Rightarrow> iovec list" where
  "iov_advance n [] = []"
| "iov_advance n (v # vs) =
     (if n = 0 then v # vs
      else if n < iov_len v
           then v\<lparr>iov_base := drop n (iov_base v), iov_len := iov_len v - n\<rparr> # vs
           else iov_advance (n - iov_len v) vs)"

partial_function (option) safe_writev_loop ::
  "int \<Rightarrow> iovec list \<Rightarrow> 'a posix_scheme \<Rightarrow> (ccask_status \<times> 'a posix_scheme) option" where
  "safe_writev_loop fd iov w =
     (if iov = [] then Some (CCASK_OK, w)
      else case sys_append fd (iov_bytes iov) w of
          (Inl e, w') \<Rightarrow>
            (if retry_errno e then safe_writev_loop fd iov w'
             else Some (CCASK_FAIL, set_errno CCASK_ERR_WRITE_FAILED w'))
        | (Inr nwritten, w') \<Rightarrow> safe_writev_loop fd (iov_advance nwritten iov) w')"

definition safe_writev ::
  "int \<Rightarrow> iovec list \<Rightarrow> 'a posix_scheme \<Rightarrow> (ccask_status \<times> 'a posix_scheme) option" where
  "safe_writev fd iov w =
     (if fd < 0 \<or> iov = [] then Some (CCASK_FAIL, w) else safe_writev_loop fd iov w)"

lemma iov_bytes_simps [simp]:
  "iov_bytes [] = []"
  "iov_bytes (v # vs) = take (iov_len v) (iov_base v) @ iov_bytes vs"
  by (simp_all add: iov_bytes_def)

lemma length_iov_bytes: "\<forall>v \<in> set iov. wf_iov v \<Longrightarrow> length (iov_bytes iov) = iov_total_len iov"
  by (induction iov) (auto simp: iov_total_len_def wf_iov_def)

lemma iov_advance_wf: "\<forall>v \<in> set iov. wf_iov v \<Longrightarrow> v \<in> set (iov_advance n iov) \<Longrightarrow> wf_iov v"
  by (induction n iov rule: iov_advance.induct) (auto simp: wf_iov_def split: if_splits)

lemma iov_advance_bytes:
  "\<forall>v \<in> set iov. wf_iov v \<Longrightarrow> iov_bytes (iov_advance n iov) = drop n (iov_bytes iov)"
  by (induction n iov rule: iov_advance.induct) (auto simp: wf_iov_def)

text \<open>
  Vectors with something left to write at the end: these are the ones whose write loop ends, because
  skipping all bytes then skips all vectors.
\<close>

definition iov_open_end :: "iovec list \<Rightarrow> bool" where
  "iov_open_end iov \<longleftrightarrow> iov = [] \<or> 0 < iov_len (last iov)"

lemma iov_advance_open_end: "iov_open_end iov \<Longrightarrow> iov_open_end (iov_advance n iov)"
  by (induction n iov rule: iov_advance.induct) (auto simp: iov_open_end_def split: if_splits)

lemma iov_open_end_bytes:
  "iov_open_end iov \<Longrightarrow> \<forall>v \<in> set iov. wf_iov v \<Longrightarrow> iov_bytes iov = [] \<longleftrightarrow> iov = []"
proof (cases iov rule: rev_cases)
  case (snoc vs v)
  assume "iov_open_end iov" and "\<forall>v \<in> set iov. wf_iov v"
  with snoc show ?thesis
    by (auto simp: iov_open_end_def wf_iov_def iov_bytes_def)
qed simp

text \<open>A zero-length last vector is never skipped, so the loop never reaches its end.\<close>

lemma iov_advance_closed_end:
  "iov \<noteq> [] \<Longrightarrow> iov_len (last iov) = 0 \<Longrightarrow> n \<le> iov_total_len iov \<Longrightarrow>
     iov_advance n iov \<noteq> [] \<and> iov_len (last (iov_advance n iov)) = 0"
  by (induction n iov rule: iov_advance.induct)
     (auto simp: iov_total_len_def split: if_splits)

text \<open>What a completed call did, for any fault script: it appended a prefix of the bytes.\<close>

definition appended ::
  "int \<Rightarrow> byte list \<Rightarrow> nat \<Rightarrow> 'a posix_scheme \<Rightarrow> 'a posix_scheme \<Rightarrow> bool" where
  "appended fd bs k w w' \<longleftrightarrow> k \<le> length bs \<and>
     (\<exists>i fs offs e.
        w' = w\<lparr>inode_data := (inode_data w)(i := inode_data w i @ take k bs),
               fault_script := fs, fd_offsets := offs, ccask_errno := e\<rparr> \<and>
        length fs \<le> length (fault_script w) \<and>
        (case open_fds w fd of None \<Rightarrow> k = 0 | Some d \<Rightarrow> i = fd_inode d \<and> (0 < k \<longrightarrow> fd_writable d)))"

lemma appended_0:
  assumes "w' = w\<lparr>fault_script := fs, ccask_errno := e\<rparr>" "length fs \<le> length (fault_script w)"
  shows "appended fd bs 0 w w'"
proof (cases "open_fds w fd")
  case None
  with assms show ?thesis
    unfolding appended_def
    by (intro conjI exI [of _ 0] exI [of _ fs] exI [of _ "fd_offsets w"] exI [of _ e]) (cases w; auto)+
next
  case (Some d)
  with assms show ?thesis
    unfolding appended_def
    by (intro conjI exI [of _ "fd_inode d"] exI [of _ fs] exI [of _ "fd_offsets w"] exI [of _ e])
       (cases w; auto)+
qed

lemma appended_trans:
  assumes "appended fd bs k w u" and "appended fd (drop k bs) m u w'"
  shows "appended fd bs (k + m) w w'"
proof -
  from assms(1) obtain i fs offs e where u:
    "k \<le> length bs"
    "u = w\<lparr>inode_data := (inode_data w)(i := inode_data w i @ take k bs),
           fault_script := fs, fd_offsets := offs, ccask_errno := e\<rparr>"
    "length fs \<le> length (fault_script w)"
    "case open_fds w fd of None \<Rightarrow> k = 0 | Some d \<Rightarrow> i = fd_inode d \<and> (0 < k \<longrightarrow> fd_writable d)"
    unfolding appended_def by blast
  from assms(2) obtain j gs offs' e' where w':
    "m \<le> length (drop k bs)"
    "w' = u\<lparr>inode_data := (inode_data u)(j := inode_data u j @ take m (drop k bs)),
           fault_script := gs, fd_offsets := offs', ccask_errno := e'\<rparr>"
    "length gs \<le> length (fault_script u)"
    "case open_fds u fd of None \<Rightarrow> m = 0 | Some d \<Rightarrow> j = fd_inode d \<and> (0 < m \<longrightarrow> fd_writable d)"
    unfolding appended_def by blast
  show ?thesis
  proof (cases "open_fds w fd")
    case None
    with u w' have "k = 0" "m = 0"
      "w' = w\<lparr>fault_script := gs, fd_offsets := offs', ccask_errno := e'\<rparr>"
      "length gs \<le> length (fault_script w)"
      by (cases w; auto)+
    with None show ?thesis
      unfolding appended_def
      by (intro conjI exI [of _ 0] exI [of _ gs] exI [of _ offs'] exI [of _ e']) (cases w; auto)+
  next
    case (Some d)
    with u w' have ij: "i = fd_inode d" "j = fd_inode d" and wr: "0 < k + m \<longrightarrow> fd_writable d" by auto
    have "w' = w\<lparr>inode_data := (inode_data w)(fd_inode d := inode_data w (fd_inode d) @ take (k + m) bs),
           fault_script := gs, fd_offsets := offs', ccask_errno := e'\<rparr>"
      using u(2) w'(2) ij by (cases w) (simp add: take_add)
    moreover have "k + m \<le> length bs" using u(1) w'(1) by simp
    moreover have "length gs \<le> length (fault_script w)" using u(2,3) w'(3) by simp
    ultimately show ?thesis
      using Some wr unfolding appended_def by auto
  qed
qed


lemma sys_append_appended:
  "sys_append fd bs w = (Inr n, w') \<Longrightarrow> appended fd bs n w w'"
  "sys_append fd bs w = (Inl e, w') \<Longrightarrow> appended fd bs 0 w w'"
proof -
  assume "sys_append fd bs w = (Inr n, w')"
  then show "appended fd bs n w w'"
  proof (cases rule: sys_append_result)
    case (written d m fs offs)
    then show ?thesis
      unfolding appended_def
      by (intro conjI exI [of _ "fd_inode d"] exI [of _ fs] exI [of _ offs] exI [of _ "ccask_errno w"])
         (cases w; auto)+
  qed auto
next
  assume "sys_append fd bs w = (Inl e, w')"
  then show "appended fd bs 0 w w'"
  proof (cases rule: sys_append_result)
    case (failed e' fs)
    then show ?thesis
      by (intro appended_0 [where fs = fs and e = "ccask_errno w"]) (cases w; auto)+
  qed auto
qed

lemma appended_set_errno: "appended fd bs k w w' \<Longrightarrow> appended fd bs k w (set_errno e w')"
  unfolding appended_def set_errno_def by fastforce

lemma appended_length: "appended fd bs k w w' \<Longrightarrow> k \<le> length bs"
  by (simp add: appended_def)

text \<open>
  Any completed call appended some prefix of the bytes to the file, and all of them if it returns
  CCASK_OK.  A failed call may leave a proper prefix behind.
\<close>

lemma safe_writev_loop_result:
  assumes "safe_writev_loop fd iov w = Some r" and "\<forall>v \<in> set iov. wf_iov v"
  shows "\<exists>k. appended fd (iov_bytes iov) k w (snd r)
             \<and> (fst r = CCASK_OK \<longrightarrow> k = length (iov_bytes iov)) \<and> fst r \<noteq> CCASK_RETRY
             \<and> (iov \<noteq> [] \<and> iov_len (last iov) = 0 \<longrightarrow> fst r = CCASK_FAIL)"
proof (rule safe_writev_loop.raw_induct
    [where P = "\<lambda>fd iov w r. (\<forall>v \<in> set iov. wf_iov v) \<longrightarrow>
        (\<exists>k. appended fd (iov_bytes iov) k w (snd r)
           \<and> (fst r = CCASK_OK \<longrightarrow> k = length (iov_bytes iov)) \<and> fst r \<noteq> CCASK_RETRY
           \<and> (iov \<noteq> [] \<and> iov_len (last iov) = 0 \<longrightarrow> fst r = CCASK_FAIL))",
      OF _ assms(1), THEN mp, OF _ assms(2)], rule impI)
  fix f :: "int \<Rightarrow> iovec list \<Rightarrow> 'a posix_scheme \<Rightarrow> (ccask_status \<times> 'a posix_scheme) option"
    and fd iov w r
  assume IH: "\<And>fd iov w r. f fd iov w = Some r \<Longrightarrow> (\<forall>v \<in> set iov. wf_iov v) \<longrightarrow>
        (\<exists>k. appended fd (iov_bytes iov) k w (snd r)
           \<and> (fst r = CCASK_OK \<longrightarrow> k = length (iov_bytes iov)) \<and> fst r \<noteq> CCASK_RETRY
           \<and> (iov \<noteq> [] \<and> iov_len (last iov) = 0 \<longrightarrow> fst r = CCASK_FAIL))"
    and eq: "(if iov = [] then Some (CCASK_OK, w)
      else case sys_append fd (iov_bytes iov) w of
          (Inl e, w') \<Rightarrow> (if retry_errno e then f fd iov w'
             else Some (CCASK_FAIL, set_errno CCASK_ERR_WRITE_FAILED w'))
        | (Inr n, w') \<Rightarrow> f fd (iov_advance n iov) w') = Some r"
    and wf: "\<forall>v \<in> set iov. wf_iov v"
  let ?bs = "iov_bytes iov"
  show "\<exists>k. appended fd ?bs k w (snd r)
     \<and> (fst r = CCASK_OK \<longrightarrow> k = length ?bs) \<and> fst r \<noteq> CCASK_RETRY
     \<and> (iov \<noteq> [] \<and> iov_len (last iov) = 0 \<longrightarrow> fst r = CCASK_FAIL)"
  proof (cases "iov = []")
    case True
    with eq show ?thesis
      by (intro exI [of _ 0]) (auto intro!: appended_0 [where fs = "fault_script w" and e = "ccask_errno w"])
  next
    case False
    obtain res u where app: "sys_append fd ?bs w = (res, u)" by fastforce
    show ?thesis
    proof (cases res)
      case (Inl e)
      with app have a: "appended fd ?bs 0 w u" by (simp add: sys_append_appended)
      show ?thesis
      proof (cases "retry_errno e")
        case True
        with eq False app Inl have "f fd iov u = Some r" by simp
        from IH [OF this] wf obtain k where "appended fd ?bs k u (snd r)"
          "fst r = CCASK_OK \<longrightarrow> k = length ?bs" "fst r \<noteq> CCASK_RETRY"
          "iov \<noteq> [] \<and> iov_len (last iov) = 0 \<longrightarrow> fst r = CCASK_FAIL"
          by blast
        with appended_trans [OF a, of k] show ?thesis by (intro exI [of _ k]) simp
      next
        case False
        with eq \<open>iov \<noteq> []\<close> app Inl a show ?thesis
          by (intro exI [of _ 0]) (auto intro: appended_set_errno)
      qed
    next
      case (Inr n)
      with app have a: "appended fd ?bs n w u" by (simp add: sys_append_appended)
      then have n: "n \<le> length ?bs" by (rule appended_length)
      from eq False app Inr have "f fd (iov_advance n iov) u = Some r" by simp
      from IH [OF this] obtain k where k: "appended fd (iov_bytes (iov_advance n iov)) k u (snd r)"
        "fst r = CCASK_OK \<longrightarrow> k = length (iov_bytes (iov_advance n iov))" "fst r \<noteq> CCASK_RETRY"
        "iov_advance n iov \<noteq> [] \<and> iov_len (last (iov_advance n iov)) = 0 \<longrightarrow> fst r = CCASK_FAIL"
        using wf iov_advance_wf by blast
      have "appended fd ?bs (n + k) w (snd r)"
        using appended_trans [OF a] k(1) wf by (simp add: iov_advance_bytes)
      moreover have "fst r = CCASK_OK \<longrightarrow> n + k = length ?bs"
        using k(2) wf n by (simp add: iov_advance_bytes)
      moreover have "iov_len (last iov) = 0 \<longrightarrow> fst r = CCASK_FAIL"
        using k(4) iov_advance_closed_end [OF False, of n] n wf by (simp add: length_iov_bytes)
      ultimately show ?thesis using k(3) by (intro exI [of _ "n + k"]) simp
    qed
  qed
qed

lemma safe_writev_result:
  assumes "safe_writev fd iov w = Some (st, w')" and "\<forall>v \<in> set iov. wf_iov v"
  obtains k where "appended fd (iov_bytes iov) k w w'"
    and "st = CCASK_OK \<Longrightarrow> k = length (iov_bytes iov)" and "st \<noteq> CCASK_RETRY"
    and "iov \<noteq> [] \<Longrightarrow> iov_len (last iov) = 0 \<Longrightarrow> st = CCASK_FAIL"
proof (cases "fd < 0 \<or> iov = []")
  case True
  with assms(1) have "w' = w" "st = CCASK_FAIL" by (auto simp: safe_writev_def)
  then show ?thesis
    by (intro that [of 0] appended_0 [where fs = "fault_script w" and e = "ccask_errno w"]) auto
next
  case False
  with assms(1) have "safe_writev_loop fd iov w = Some (st, w')" by (simp add: safe_writev_def)
  from safe_writev_loop_result [OF this assms(2)] that show ?thesis by auto
qed

text \<open>The loop ends when the last vector is not empty: every round shortens the script or the rest.\<close>

lemma safe_writev_loop_returns:
  assumes "iov_open_end iov" and "\<forall>v \<in> set iov. wf_iov v"
  shows "\<exists>r. safe_writev_loop fd iov w = Some r"
  using assms
proof (induction "length (fault_script w) + iov_total_len iov" arbitrary: iov w rule: less_induct)
  case less
  show ?case
  proof (cases "iov = []")
    case True
    then show ?thesis by (simp add: safe_writev_loop.simps)
  next
    case False
    let ?bs = "iov_bytes iov"
    have ne: "?bs \<noteq> []" using False less.prems iov_open_end_bytes by blast
    obtain res u where app: "sys_append fd ?bs w = (res, u)" by fastforce
    then show ?thesis
    proof (cases rule: sys_append_result)
      case (written d n fs offs)
      then have n: "0 < n" "n \<le> length ?bs" using ne by auto
      let ?iov = "iov_advance n iov"
      have wf: "\<forall>v \<in> set ?iov. wf_iov v" using less.prems(2) iov_advance_wf by blast
      have "iov_total_len ?iov = length (iov_bytes ?iov)"
        using wf by (simp add: length_iov_bytes)
      also have "\<dots> < iov_total_len iov"
        using n less.prems(2) by (simp add: iov_advance_bytes length_iov_bytes [symmetric])
      finally have "length (fault_script u) + iov_total_len ?iov
          < length (fault_script w) + iov_total_len iov"
        using written by simp
      from less.hyps [OF this] wf less.prems(1) have "\<exists>r. safe_writev_loop fd ?iov u = Some r"
        by (simp add: iov_advance_open_end)
      with False app written show ?thesis by (subst safe_writev_loop.simps) simp
    next
      case (failed e fs)
      show ?thesis
      proof (cases "retry_errno e")
        case True
        with failed have "length (fault_script u) < length (fault_script w)"
          by (simp add: retry_errno_def)
        then have "\<exists>r. safe_writev_loop fd iov u = Some r"
          using less.hyps [of u iov] less.prems by simp
        with False app failed True show ?thesis by (subst safe_writev_loop.simps) simp
      next
        case False
        with \<open>iov \<noteq> []\<close> app failed show ?thesis by (subst safe_writev_loop.simps) simp
      qed
    qed
  qed
qed

lemma safe_writev_returns:
  "iov_open_end iov \<Longrightarrow> \<forall>v \<in> set iov. wf_iov v \<Longrightarrow> \<exists>r. safe_writev fd iov w = Some r"
  using safe_writev_loop_returns [of iov fd w] by (auto simp: safe_writev_def)

lemma iov_advance_all:
  "iov_open_end iov \<Longrightarrow> \<forall>v \<in> set iov. wf_iov v \<Longrightarrow> iov_advance (length (iov_bytes iov)) iov = []"
  using iov_open_end_bytes [of "iov_advance (length (iov_bytes iov)) iov"]
  by (simp add: iov_advance_open_end iov_advance_wf iov_advance_bytes)

lemma safe_writev_no_fault [no_fault_simps]:
  assumes "fault_script w = []" and "0 \<le> fd" and "open_fds w fd = Some d" and "fd_writable d"
    and "iov \<noteq> []" and "iov_open_end iov" and "\<forall>v \<in> set iov. wf_iov v"
    and "length (inode_data w (fd_inode d)) + length (iov_bytes iov) \<le> max_file_size"
  shows "safe_writev fd iov w = Some (CCASK_OK,
    w\<lparr>inode_data := (inode_data w)(fd_inode d := inode_data w (fd_inode d) @ iov_bytes iov),
      fd_offsets := (fd_offsets w)(fd := length (inode_data w (fd_inode d) @ iov_bytes iov))\<rparr>)"
  using assms
  by (simp add: safe_writev_def safe_writev_loop.simps sys_append_no_fault iov_advance_all)

text \<open>
  With a zero-length vector at the end and no I/O error, the call never returns: once the other
  vectors are written, \<open>writev\<close> returns 0 and nothing changes any more.
\<close>

lemma safe_writev_loop_stuck:
  assumes "safe_writev_loop fd iov w = Some r"
    and "iov \<noteq> []" and "iov_len (last iov) = 0" and "\<forall>v \<in> set iov. wf_iov v"
    and "\<forall>f \<in> set (fault_script w). \<forall>e. f = Fault e \<longrightarrow> retry_errno e"
    and "open_fds w fd = Some d" and "fd_writable d"
    and "length (inode_data w (fd_inode d)) + length (iov_bytes iov) \<le> max_file_size"
  shows False
proof -
  let ?Q = "\<lambda>fd iov w. iov \<noteq> [] \<and> iov_len (last iov) = 0 \<and> (\<forall>v \<in> set iov. wf_iov v)
    \<and> (\<forall>f \<in> set (fault_script w). \<forall>e. f = Fault e \<longrightarrow> retry_errno e)
    \<and> open_fds w fd = Some d \<and> fd_writable d
    \<and> length (inode_data w (fd_inode d)) + length (iov_bytes iov) \<le> max_file_size"
  have "\<not> ?Q fd iov w"
  proof (rule safe_writev_loop.raw_induct [where P = "\<lambda>fd iov w r. \<not> ?Q fd iov w", OF _ assms(1)],
      rule notI)
    fix f :: "int \<Rightarrow> iovec list \<Rightarrow> 'a posix_scheme \<Rightarrow> (ccask_status \<times> 'a posix_scheme) option"
      and fd iov w r
    assume IH: "\<And>fd iov w r. f fd iov w = Some r \<Longrightarrow> \<not> ?Q fd iov w"
      and eq: "(if iov = [] then Some (CCASK_OK, w)
        else case sys_append fd (iov_bytes iov) w of
            (Inl e, w') \<Rightarrow> (if retry_errno e then f fd iov w'
               else Some (CCASK_FAIL, set_errno CCASK_ERR_WRITE_FAILED w'))
          | (Inr n, w') \<Rightarrow> f fd (iov_advance n iov) w') = Some r"
      and Q: "?Q fd iov w"
    let ?bs = "iov_bytes iov"
    obtain x u where x: "next_fault w = (x, u)" by fastforce
    from x Q have u: "u = w\<lparr>fault_script := tl (fault_script w)\<rparr>"
      and retry: "\<And>e. x = Fault e \<Longrightarrow> retry_errno e"
      by (cases "fault_script w"; auto simp: next_fault_def)+
    have script: "\<forall>f \<in> set (tl (fault_script w)). \<forall>e. f = Fault e \<longrightarrow> retry_errno e"
      using Q by (cases "fault_script w") auto
    show False
    proof (cases "\<exists>e. x = Fault e")
      case True
      then obtain e where e: "x = Fault e" by blast
      with x eq Q retry have "f fd iov u = Some r" by (simp add: sys_append_def)
      from IH [OF this] Q u script show False by simp
    next
      case False
      let ?old = "inode_data w (fd_inode d)"
      define n where "n = transfer_limit x (min (length ?bs) (max_file_size - length ?old))"
      define v where "v = u\<lparr>inode_data := (inode_data w)(fd_inode d := ?old @ take n ?bs),
        fd_offsets := (fd_offsets w)(fd := length (?old @ take n ?bs))\<rparr>"
      have "?bs = [] \<or> length ?old < max_file_size" using Q by (cases ?bs) auto
      then have app: "sys_append fd ?bs w = (Inr n, v)"
        using False x u Q
        by (cases x) (auto simp: sys_append_def Let_def n_def v_def)
      then have n: "n \<le> length ?bs" using appended_length sys_append_appended(1) by blast
      from eq Q app have "f fd (iov_advance n iov) v = Some r" by simp
      moreover have "?Q fd (iov_advance n iov) v"
        using Q u script n iov_advance_closed_end [of iov n] iov_advance_wf [of iov _ n]
        by (auto simp: v_def iov_advance_bytes length_iov_bytes)
      ultimately show False using IH by blast
    qed
  qed
  with assms show False by simp
qed


section \<open>Reading\<close>

text \<open>
  The kernel stores the bytes of one \<open>preadv\<close> into the vectors in order; the inner loop of
  \<open>safe_preadv\<close> then skips the vectors that are full.  The result is the list of the vectors that
  were filled and skipped, and the vectors that are left.
\<close>

fun iov_fill :: "byte list \<Rightarrow> iovec list \<Rightarrow> iovec list \<times> iovec list" where
  "iov_fill bs [] = ([], [])"
| "iov_fill bs (v # vs) =
     (if bs = [] then ([], v # vs)
      else if length bs < iov_len v
           then ([], v\<lparr>iov_base := iov_base v @ bs, iov_len := iov_len v - length bs\<rparr> # vs)
           else let (full, rest) = iov_fill (drop (iov_len v) bs) vs
                in (v\<lparr>iov_base := iov_base v @ take (iov_len v) bs, iov_len := 0\<rparr> # full, rest))"

lemma iov_fill_total:
  "iov_fill bs iov = (full, rest) \<Longrightarrow> length bs \<le> iov_total_len iov \<Longrightarrow>
     iov_total_len rest = iov_total_len iov - length bs"
  by (induction bs iov arbitrary: full rule: iov_fill.induct)
     (auto simp: iov_total_len_def Let_def split: if_splits prod.splits)

lemma sys_pread_progress:
  assumes "sys_pread fd n off w = (r, w')"
  shows "length (fault_script w') \<le> length (fault_script w)"
    and "r = Inl e \<Longrightarrow> retry_errno e \<Longrightarrow> length (fault_script w') < length (fault_script w)"
    and "r = Inr bs \<Longrightarrow> length bs \<le> n"
proof -
  obtain f u where f: "next_fault w = (f, u)" by fastforce
  then obtain fs where u: "u = w\<lparr>fault_script := fs\<rparr>" "length fs \<le> length (fault_script w)"
    "f \<noteq> NoFault \<Longrightarrow> length fs < length (fault_script w)"
    using next_faultE by blast
  have "transfer_limit f n \<le> n" by (cases f) auto
  with assms f u show "length (fault_script w') \<le> length (fault_script w)"
    and "r = Inl e \<Longrightarrow> retry_errno e \<Longrightarrow> length (fault_script w') < length (fault_script w)"
    and "r = Inr bs \<Longrightarrow> length bs \<le> n"
    by (auto simp: sys_pread_def retry_errno_def split: fault.splits option.splits)
qed

function safe_preadv_loop ::
  "int \<Rightarrow> iovec list \<Rightarrow> iovec list \<Rightarrow> nat \<Rightarrow> nat \<Rightarrow> 'a posix_scheme
     \<Rightarrow> (ccask_status \<times> byte list list) \<times> 'a posix_scheme" where
  "safe_preadv_loop fd full rest total_read offset w =
     (if rest = [] then ((CCASK_OK, map iov_base full), w)
      else case sys_pread fd (iov_total_len rest) (offset + total_read) w of
          (Inl e, w') \<Rightarrow>
            (if retry_errno e then safe_preadv_loop fd full rest total_read offset w'
             else ((CCASK_FAIL, map iov_base (full @ rest)), set_errno CCASK_ERR_READ_FAILED w'))
        | (Inr bs, w') \<Rightarrow>
            (if bs = [] then
               ((CCASK_FAIL, map iov_base (full @ rest)), set_errno CCASK_ERR_UNEXPECTED_EOF w')
             else safe_preadv_loop fd (full @ fst (iov_fill bs rest)) (snd (iov_fill bs rest))
                    (total_read + length bs) offset w'))"
  by pat_completeness auto
termination
proof (relation "measure (\<lambda>(fd, full, rest, t, off, w). length (fault_script w) + iov_total_len rest)",
    goal_cases)
  case (2 fd full rest t off w x w' e)
  then show ?case
    using sys_pread_progress(2) [of fd "iov_total_len rest" "off + t" w x w' e] by simp
next
  case (3 fd full rest t off w x w' bs)
  then have "sys_pread fd (iov_total_len rest) (off + t) w = (Inr bs, w')" by simp
  then have "length (fault_script w') \<le> length (fault_script w)" "length bs \<le> iov_total_len rest"
    using sys_pread_progress(1,3) by blast+
  moreover have "0 < length bs" using 3 by (cases bs) auto
  moreover have "iov_total_len (snd (iov_fill bs rest)) = iov_total_len rest - length bs"
    using iov_fill_total [of bs rest] calculation(2) by (metis prod.collapse)
  ultimately show ?case by (simp del: length_greater_0_conv)
qed simp

declare safe_preadv_loop.simps [simp del]

text \<open>
  \<open>safe_preadv\<close> gets the lengths of the destination buffers and returns what was stored in each.
\<close>

definition safe_preadv ::
  "int \<Rightarrow> nat list \<Rightarrow> nat \<Rightarrow> 'a posix_scheme
     \<Rightarrow> (ccask_status \<times> byte list list) \<times> 'a posix_scheme" where
  "safe_preadv fd lens offset w =
     (if fd < 0 \<or> lens = [] then ((CCASK_FAIL, map (\<lambda>_. []) lens), w)
      else safe_preadv_loop fd [] (map (\<lambda>n. \<lparr>iov_base = [], iov_len = n\<rparr>) lens) 0 offset w)"

function safe_pread_loop ::
  "int \<Rightarrow> byte list \<Rightarrow> nat \<Rightarrow> nat \<Rightarrow> 'a posix_scheme
     \<Rightarrow> (ccask_status \<times> byte list) \<times> 'a posix_scheme" where
  "safe_pread_loop fd p to_read pos w =
     (if to_read = 0 then ((CCASK_OK, p), w)
      else case sys_pread fd to_read pos w of
          (Inl e, w') \<Rightarrow>
            (if retry_errno e then safe_pread_loop fd p to_read pos w'
             else ((CCASK_FAIL, p), set_errno CCASK_ERR_READ_FAILED w'))
        | (Inr bs, w') \<Rightarrow>
            (if bs = [] then ((CCASK_FAIL, p), set_errno CCASK_ERR_UNEXPECTED_EOF w')
             else safe_pread_loop fd (p @ bs) (to_read - length bs) (pos + length bs) w'))"
  by pat_completeness auto
termination
proof (relation "measure (\<lambda>(fd, p, n, pos, w). length (fault_script w) + n)", goal_cases)
  case (2 fd p n pos w x w' e)
  then show ?case using sys_pread_progress(2) [of fd n pos w x w' e] by simp
next
  case (3 fd p n pos w x w' bs)
  then have "sys_pread fd n pos w = (Inr bs, w')" by simp
  then have "length (fault_script w') \<le> length (fault_script w)" "length bs \<le> n"
    using sys_pread_progress(1,3) by blast+
  with 3 show ?case by (cases bs) auto
qed simp

declare safe_pread_loop.simps [simp del]

definition safe_pread ::
  "int \<Rightarrow> nat \<Rightarrow> nat \<Rightarrow> 'a posix_scheme \<Rightarrow> (ccask_status \<times> byte list) \<times> 'a posix_scheme" where
  "safe_pread fd len offset w = safe_pread_loop fd [] len offset w"


text \<open>The reads change nothing but the fault script and the error code.\<close>

lemma safe_preadv_loop_frame:
  "safe_preadv_loop fd full rest t off w = (r, w') \<Longrightarrow>
     io_frame w w' \<and> fst r \<noteq> CCASK_RETRY"
proof (induction fd full rest t off w rule: safe_preadv_loop.induct)
  case (1 fd full rest t off w)
  show ?case
  proof (cases "rest = []")
    case True
    with "1.prems" show ?thesis
      by (auto simp: safe_preadv_loop.simps)
  next
    case False
    obtain x u where x: "sys_pread fd (iov_total_len rest) (off + t) w = (x, u)" by fastforce
    then have u: "io_frame w u" by (rule sys_pread_io)
    have se: "io_frame w (set_errno e u)" for e using u io_frame_set_errno by (rule io_frame_trans)
    consider (again) e where "x = Inl e" "retry_errno e" | (err) e where "x = Inl e" "\<not> retry_errno e"
      | (eof) "x = Inr []" | (some) bs where "x = Inr bs" "bs \<noteq> []"
      by (cases x) auto
    then show ?thesis
    proof cases
      case again
      with "1.prems" False x have "safe_preadv_loop fd full rest t off u = (r, w')"
        by (simp add: safe_preadv_loop.simps [of fd full rest t off w])
      from "1.IH"(1) [OF False x [symmetric] again(1) again(2) this] io_frame_trans [OF u] show ?thesis by auto
    next
      case err
      with "1.prems" False x se show ?thesis
        by (auto simp: safe_preadv_loop.simps [of fd full rest t off w])
    next
      case eof
      with "1.prems" False x se show ?thesis
        by (auto simp: safe_preadv_loop.simps [of fd full rest t off w])
    next
      case some
      with "1.prems" False x have "safe_preadv_loop fd (full @ fst (iov_fill bs rest))
          (snd (iov_fill bs rest)) (t + length bs) off u = (r, w')"
        by (simp add: safe_preadv_loop.simps [of fd full rest t off w])
      from "1.IH"(2) [OF False x [symmetric] some(1) some(2) this] io_frame_trans [OF u] show ?thesis by auto
    qed
  qed
qed

lemma safe_preadv_frame:
  assumes "safe_preadv fd lens off w = (r, w')"
  shows "io_frame w w' \<and> fst r \<noteq> CCASK_RETRY"
proof (cases "fd < 0 \<or> lens = []")
  case True
  with assms have "r = (CCASK_FAIL, map (\<lambda>_. []) lens)" and "w' = w" by (auto simp: safe_preadv_def)
  then show ?thesis by simp
next
  case False
  with assms show ?thesis by (auto simp: safe_preadv_def dest!: safe_preadv_loop_frame)
qed

definition iov_size :: "iovec \<Rightarrow> nat" where
  "iov_size v = length (iov_base v) + iov_len v"

lemma iov_fill_spec:
  assumes "iov_fill bs iov = (full, rest)" and "length bs \<le> iov_total_len iov"
    and "\<forall>v \<in> set (tl iov). iov_base v = []"
  shows "map iov_size (full @ rest) = map iov_size iov" (is ?sizes)
    and "\<forall>v \<in> set full. iov_len v = 0" (is ?full)
    and "concat (map iov_base (full @ rest)) = concat (map iov_base iov) @ bs" (is ?bytes)
    and "\<forall>v \<in> set (tl rest). iov_base v = []" (is ?rest)
    and "iov \<noteq> [] \<and> iov_len (last iov) = 0 \<longrightarrow> rest \<noteq> [] \<and> iov_len (last rest) = 0" (is ?last)
proof -
  have "?sizes \<and> ?full \<and> ?bytes \<and> ?rest \<and> ?last"
    using assms
  proof (induction bs iov arbitrary: full rest rule: iov_fill.induct)
    case (1 bs)
    then show ?case by (auto simp: iov_total_len_def)
  next
    case (2 bs v vs)
    consider (none) "bs = []" | (part) "bs \<noteq> []" "length bs < iov_len v"
      | (whole) "bs \<noteq> []" "iov_len v \<le> length bs"
      by linarith
    then show ?case
    proof cases
      case whole
      obtain f' where f': "iov_fill (drop (iov_len v) bs) vs = (f', rest)"
        and full: "full = v\<lparr>iov_base := iov_base v @ take (iov_len v) bs, iov_len := 0\<rparr> # f'"
        using "2.prems"(1) whole by (auto simp: Let_def split: prod.splits)
      have "length (drop (iov_len v) bs) \<le> iov_total_len vs"
        using "2.prems"(2) by (simp add: iov_total_len_def)
      moreover have "\<forall>v \<in> set (tl vs). iov_base v = []"
        using "2.prems"(3) by (cases vs) auto
      moreover have "\<not> length bs < iov_len v" using whole by simp
      ultimately have IH: "map iov_size (f' @ rest) = map iov_size vs \<and> (\<forall>v \<in> set f'. iov_len v = 0)
        \<and> concat (map iov_base (f' @ rest)) = concat (map iov_base vs) @ drop (iov_len v) bs
        \<and> (\<forall>v \<in> set (tl rest). iov_base v = [])
        \<and> (vs \<noteq> [] \<and> iov_len (last vs) = 0 \<longrightarrow> rest \<noteq> [] \<and> iov_len (last rest) = 0)"
        using "2.IH" [OF whole(1) _ f'] by blast
      have es: "concat (map iov_base vs) = []" using "2.prems"(3) by simp
      have rest_bytes: "concat (map iov_base (f' @ rest)) = drop (iov_len v) bs"
        using IH es by (simp only: append_Nil)
      have "vs = [] \<longrightarrow> 0 < iov_len v"
        using whole "2.prems"(2) by (cases bs) (auto simp: iov_total_len_def)
      then have "v # vs \<noteq> [] \<and> iov_len (last (v # vs)) = 0 \<longrightarrow> rest \<noteq> [] \<and> iov_len (last rest) = 0"
        using IH by (cases "vs = []") simp_all
      moreover have "iov_size (v\<lparr>iov_base := iov_base v @ take (iov_len v) bs, iov_len := 0\<rparr>) = iov_size v"
        using whole(2) by (simp add: iov_size_def)
      then have "map iov_size (full @ rest) = map iov_size (v # vs)" using IH full by simp
      moreover have "concat (map iov_base (full @ rest)) = concat (map iov_base (v # vs)) @ bs"
        using full rest_bytes es by (simp del: concat_eq_Nil_conv)
      moreover have "\<forall>v \<in> set full. iov_len v = 0" using IH full by simp
      moreover have "\<forall>v \<in> set (tl rest). iov_base v = []" using IH by simp
      ultimately show ?thesis by (intro conjI)
    next
      case part
      have "concat (map iov_base vs) = []" using "2.prems"(3) by simp
      with "2.prems" part show ?thesis by (auto simp: iov_size_def simp del: concat_eq_Nil_conv)
    qed (use "2.prems" in \<open>auto simp: iov_size_def\<close>)
  qed
  note all = this
  show ?sizes using all by (elim conjE)
  show ?full using all by (elim conjE)
  show ?bytes using all by (elim conjE)
  show ?rest using all by (elim conjE)
  show ?last using all by (elim conjE)
qed

text \<open>
  A read that returns CCASK_OK has filled every buffer, and the buffers together hold the bytes of
  the file at the offset.
\<close>

lemma safe_preadv_loop_ok:
  assumes "safe_preadv_loop fd full rest t off w = ((CCASK_OK, bufs), w')"
    and "\<forall>v \<in> set full. iov_len v = 0" and "\<forall>v \<in> set (tl rest). iov_base v = []"
  shows "map length bufs = map iov_size (full @ rest) \<and>
         (rest \<noteq> [] \<longrightarrow> 0 < iov_len (last rest) \<and>
           (\<exists>d. open_fds w fd = Some d
              \<and> off + t + iov_total_len rest \<le> length (inode_data w (fd_inode d))
              \<and> concat bufs = concat (map iov_base (full @ rest))
                   @ take (iov_total_len rest) (drop (off + t) (inode_data w (fd_inode d)))))"
  using assms
proof (induction fd full rest t off w rule: safe_preadv_loop.induct)
  case (1 fd full rest t off w)
  show ?case
  proof (cases "rest = []")
    case True
    with 1 show ?thesis by (auto simp: safe_preadv_loop.simps iov_size_def)
  next
    case False
    obtain x u where x: "sys_pread fd (iov_total_len rest) (off + t) w = (x, u)" by fastforce
    then obtain fs where u: "u = w\<lparr>fault_script := fs\<rparr>" using sys_pread_frame by blast
    consider (again) e where "x = Inl e" "retry_errno e"
      | (stop) "(\<exists>e. x = Inl e \<and> \<not> retry_errno e) \<or> x = Inr []"
      | (some) bs where "x = Inr bs" "bs \<noteq> []"
      by (cases x) auto
    then show ?thesis
    proof cases
      case again
      with "1.prems" False x have "safe_preadv_loop fd full rest t off u = ((CCASK_OK, bufs), w')"
        by (simp add: safe_preadv_loop.simps [of fd full rest t off w])
      from "1.IH"(1) [OF False x [symmetric] again(1) again(2) this] "1.prems"(2,3) u
      show ?thesis by simp
    next
      case stop
      with "1.prems" False x show ?thesis
        by (auto simp: safe_preadv_loop.simps [of fd full rest t off w])
    next
      case some
      obtain f' r' where fill: "iov_fill bs rest = (f', r')" by fastforce
      obtain d m fs where d: "open_fds w fd = Some d" "m \<le> iov_total_len rest"
        "bs = take m (drop (off + t) (inode_data w (fd_inode d)))"
        by (rule sys_pread_result [OF x [unfolded some(1)]])
      let ?data = "inode_data w (fd_inode d)"
      have len: "length bs \<le> iov_total_len rest" using d by simp
      note sp = iov_fill_spec [OF fill len "1.prems"(3)]
      have tot: "iov_total_len r' = iov_total_len rest - length bs"
        using iov_fill_total [OF fill len] .
      from "1.prems" False x some fill
      have "safe_preadv_loop fd (full @ f') r' (t + length bs) off u = ((CCASK_OK, bufs), w')"
        by (simp add: safe_preadv_loop.simps [of fd full rest t off w])
      then have IH: "map length bufs = map iov_size ((full @ f') @ r')"
        "r' \<noteq> [] \<longrightarrow> 0 < iov_len (last r') \<and> (\<exists>d. open_fds u fd = Some d
            \<and> off + (t + length bs) + iov_total_len r' \<le> length (inode_data u (fd_inode d))
            \<and> concat bufs = concat (map iov_base ((full @ f') @ r'))
               @ take (iov_total_len r') (drop (off + (t + length bs)) (inode_data u (fd_inode d))))"
        using "1.IH"(2) [OF False x [symmetric] some(1) some(2)] fill sp(2,4) "1.prems"(2)
        by (simp_all add: ball_Un)
      have sizes: "map length bufs = map iov_size (full @ rest)" using IH(1) sp(1) by simp
      have bytes: "concat (map iov_base (full @ f' @ r')) = concat (map iov_base (full @ rest)) @ bs"
        using sp(3) by simp
      have bs: "bs = take (length bs) (drop (off + t) ?data)" "off + t + length bs \<le> length ?data"
        using d(3) some(2) by (auto simp: min_def)
      have last: "0 < iov_len (last rest)"
        using sp(5) IH(2) False by (cases "iov_len (last rest) = 0") auto
      show ?thesis
      proof (cases "r' = []")
        case True
        then have n: "length bs = iov_total_len rest" using tot len by (simp add: iov_total_len_def)
        have "bufs = map iov_base (full @ f')"
          using \<open>safe_preadv_loop fd (full @ f') r' (t + length bs) off u = ((CCASK_OK, bufs), w')\<close> True
          by (simp add: safe_preadv_loop.simps)
        then have "concat bufs = concat (map iov_base (full @ rest)) @ bs" using bytes True by simp
        with sizes d(1) bs n last show ?thesis by auto
      next
        case False
        let ?ys = "take (iov_total_len r') (drop (off + (t + length bs)) ?data)"
        from False IH(2) u d(1) have room: "off + (t + length bs) + iov_total_len r' \<le> length ?data"
          and bufs: "concat bufs = concat (map iov_base ((full @ f') @ r')) @ ?ys"
          by auto
        have "bs @ ?ys = take (iov_total_len rest) (drop (off + t) ?data)"
          using bs(1) len tot take_add [of "length bs" "iov_total_len r'" "drop (off + t) ?data"]
          by (simp add: add.commute add.left_commute)
        moreover have "concat (map iov_base ((full @ f') @ r')) @ ?ys
            = concat (map iov_base (full @ rest)) @ (bs @ ?ys)"
          using bytes by (simp only: append_assoc)
        ultimately have "concat bufs = concat (map iov_base (full @ rest))
            @ take (iov_total_len rest) (drop (off + t) ?data)"
          using bufs by (simp only:)
        moreover have "off + t + iov_total_len rest \<le> length ?data"
          using room tot len by simp
        ultimately show ?thesis using sizes d(1) last by blast
      qed
    qed
  qed
qed


text \<open>Cutting a byte string into buffers of given lengths.\<close>

fun chop :: "nat list \<Rightarrow> byte list \<Rightarrow> byte list list" where
  "chop [] bs = []"
| "chop (n # ns) bs = take n bs # chop ns (drop n bs)"

lemma chop_concat: "map length bufs = lens \<Longrightarrow> chop lens (concat bufs) = bufs"
  by (induction bufs arbitrary: lens) auto

lemma chop_take: "chop ns (take (sum_list ns) bs) = chop ns bs"
  by (induction ns arbitrary: bs) (simp_all add: drop_take)

lemma safe_preadv_ok:
  assumes "safe_preadv fd lens off w = ((CCASK_OK, bufs), w')"
  obtains d where "open_fds w fd = Some d" and "0 \<le> fd" and "lens \<noteq> []" and "0 < last lens"
    and "off + sum_list lens \<le> length (inode_data w (fd_inode d))"
    and "map length bufs = lens"
    and "bufs = chop lens (take (sum_list lens) (drop off (inode_data w (fd_inode d))))"
proof -
  let ?iov = "map (\<lambda>n. \<lparr>iov_base = [], iov_len = n\<rparr>) lens"
  have fd: "0 \<le> fd" "lens \<noteq> []" and loop: "safe_preadv_loop fd [] ?iov 0 off w = ((CCASK_OK, bufs), w')"
    using assms by (auto simp: safe_preadv_def split: if_splits)
  have empty: "\<forall>v \<in> set (tl ?iov). iov_base v = []" by (cases lens) auto
  have tot: "iov_total_len ?iov = sum_list lens" by (simp add: iov_total_len_def comp_def)
  have size: "map iov_size ?iov = lens" by (simp add: iov_size_def comp_def)
  have base: "concat (map iov_base ?iov) = []" by simp
  have "\<forall>v \<in> set []. iov_len v = 0" by simp
  note ok = safe_preadv_loop_ok [OF loop this empty, unfolded append_Nil size tot base add_0_right]
  have ne: "?iov \<noteq> []" using fd(2) by simp
  obtain d where d: "open_fds w fd = Some d"
    "off + sum_list lens \<le> length (inode_data w (fd_inode d))"
    "concat bufs = take (sum_list lens) (drop off (inode_data w (fd_inode d)))"
    using conjunct2 [OF conjunct2 [OF ok, THEN mp, OF ne]] by blast
  have "0 < iov_len (last ?iov)" by (rule conjunct1 [OF conjunct2 [OF ok, THEN mp, OF ne]])
  then have last: "0 < last lens" using fd(2) by (simp add: last_map)
  have len: "map length bufs = lens" by (rule conjunct1 [OF ok])
  have "bufs = chop lens (concat bufs)" by (simp only: chop_concat [OF len])
  also have "\<dots> = chop lens (take (sum_list lens) (drop off (inode_data w (fd_inode d))))"
    by (simp only: d(3))
  finally show ?thesis by (rule that [OF d(1) fd last d(2) len])
qed

lemma iov_fill_open_end:
  "iov_fill bs iov = (full, rest) \<Longrightarrow> iov_open_end iov \<Longrightarrow> iov_open_end rest"
proof (induction bs iov arbitrary: full rule: iov_fill.induct)
  case (2 bs v vs)
  then show ?case
    by (cases "vs = []") (auto simp: iov_open_end_def Let_def split: if_splits prod.splits)
qed (simp add: iov_open_end_def)

lemma iov_open_end_total: "iov_open_end iov \<Longrightarrow> iov_total_len iov = 0 \<Longrightarrow> iov = []"
  by (cases iov rule: rev_cases) (auto simp: iov_open_end_def iov_total_len_def)

lemma safe_preadv_no_fault [no_fault_simps]:
  assumes "fault_script w = []" and "open_fds w fd = Some d" and "0 \<le> fd"
    and "lens \<noteq> []" and "0 < last lens"
    and "off + sum_list lens \<le> length (inode_data w (fd_inode d))"
  shows "safe_preadv fd lens off w =
    ((CCASK_OK, chop lens (take (sum_list lens) (drop off (inode_data w (fd_inode d))))), w)"
proof -
  let ?iov = "map (\<lambda>n. \<lparr>iov_base = [], iov_len = n\<rparr>) lens"
  let ?bs = "take (sum_list lens) (drop off (inode_data w (fd_inode d)))"
  have tot: "iov_total_len ?iov = sum_list lens" by (simp add: iov_total_len_def comp_def)
  have oe: "iov_open_end ?iov" using assms(4,5) by (simp add: iov_open_end_def last_map)
  obtain full rest where fill: "iov_fill ?bs ?iov = (full, rest)" by fastforce
  have len: "length ?bs = iov_total_len ?iov" using assms(6) tot by simp
  have "iov_total_len rest = 0" using iov_fill_total [OF fill] len by simp
  then have rest: "rest = []" using iov_fill_open_end [OF fill oe] iov_open_end_total by blast
  have "0 < length ?bs"
    using assms(4,5) len tot member_le_sum_list [of "last lens" lens] by simp
  then have "?bs \<noteq> []" by blast
  then have "safe_preadv fd lens off w = ((CCASK_OK, map iov_base full), w)"
    using assms fill rest tot
    by (simp add: safe_preadv_def safe_preadv_loop.simps [of fd "[]"] safe_preadv_loop.simps [of fd _ "[]"]
        sys_pread_no_fault)
  moreover from this obtain d' where "open_fds w fd = Some d'"
    and "map iov_base full = chop lens (take (sum_list lens) (drop off (inode_data w (fd_inode d'))))"
    by (rule safe_preadv_ok)
  ultimately show ?thesis using assms(2) by simp
qed

lemma safe_pread_loop_frame:
  "safe_pread_loop fd p n pos w = (r, w') \<Longrightarrow>
     io_frame w w' \<and> fst r \<noteq> CCASK_RETRY"
proof (induction fd p n pos w rule: safe_pread_loop.induct)
  case (1 fd p n pos w)
  show ?case
  proof (cases "n = 0")
    case True
    with "1.prems" show ?thesis
      by (auto simp: safe_pread_loop.simps)
  next
    case False
    obtain x u where x: "sys_pread fd n pos w = (x, u)" by fastforce
    then have u: "io_frame w u" by (rule sys_pread_io)
    have se: "io_frame w (set_errno e u)" for e using u io_frame_set_errno by (rule io_frame_trans)
    consider (again) e where "x = Inl e" "retry_errno e"
      | (stop) "(\<exists>e. x = Inl e \<and> \<not> retry_errno e) \<or> x = Inr []"
      | (some) bs where "x = Inr bs" "bs \<noteq> []"
      by (cases x) auto
    then show ?thesis
    proof cases
      case again
      with "1.prems" False x have "safe_pread_loop fd p n pos u = (r, w')"
        by (simp add: safe_pread_loop.simps [of fd p n pos w])
      from "1.IH"(1) [OF False x [symmetric] again(1) again(2) this] io_frame_trans [OF u] show ?thesis by auto
    next
      case stop
      with "1.prems" False x se show ?thesis
        by (fastforce simp: safe_pread_loop.simps [of fd p n pos w])
    next
      case some
      with "1.prems" False x have
        "safe_pread_loop fd (p @ bs) (n - length bs) (pos + length bs) u = (r, w')"
        by (simp add: safe_pread_loop.simps [of fd p n pos w])
      from "1.IH"(2) [OF False x [symmetric] some(1) some(2) this] io_frame_trans [OF u] show ?thesis by auto
    qed
  qed
qed

lemma safe_pread_loop_ok:
  assumes "safe_pread_loop fd p n pos w = ((CCASK_OK, bs), w')" and "0 < n"
  shows "\<exists>d. open_fds w fd = Some d \<and> pos + n \<le> length (inode_data w (fd_inode d))
           \<and> bs = p @ take n (drop pos (inode_data w (fd_inode d)))"
  using assms
proof (induction fd p n pos w rule: safe_pread_loop.induct)
  case (1 fd p n pos w)
  then have n: "n \<noteq> 0" by simp
  obtain x u where x: "sys_pread fd n pos w = (x, u)" by fastforce
  then obtain fs where u: "u = w\<lparr>fault_script := fs\<rparr>" using sys_pread_frame by blast
  consider (again) e where "x = Inl e" "retry_errno e"
    | (stop) "(\<exists>e. x = Inl e \<and> \<not> retry_errno e) \<or> x = Inr []"
    | (some) cs where "x = Inr cs" "cs \<noteq> []"
    by (cases x) auto
  then show ?case
  proof cases
    case again
    with "1.prems" n x have "safe_pread_loop fd p n pos u = ((CCASK_OK, bs), w')"
      by (simp add: safe_pread_loop.simps [of fd p n pos w])
    from "1.IH"(1) [OF n x [symmetric] again(1) again(2) this "1.prems"(2)] u show ?thesis by simp
  next
    case stop
    with "1.prems" n x show ?thesis by (auto simp: safe_pread_loop.simps [of fd p n pos w])
  next
    case some
    obtain d m gs where d: "open_fds w fd = Some d" "m \<le> n"
      "cs = take m (drop pos (inode_data w (fd_inode d)))"
      by (rule sys_pread_result [OF x [unfolded some(1)]])
    let ?data = "inode_data w (fd_inode d)"
    have cs: "cs = take (length cs) (drop pos ?data)" "pos + length cs \<le> length ?data" "length cs \<le> n"
      using d some(2) by (auto simp: min_def)
    from "1.prems" n x some have loop:
      "safe_pread_loop fd (p @ cs) (n - length cs) (pos + length cs) u = ((CCASK_OK, bs), w')"
      by (simp add: safe_pread_loop.simps [of fd p n pos w])
    show ?thesis
    proof (cases "length cs = n")
      case True
      with loop have "bs = p @ cs" by (simp add: safe_pread_loop.simps)
      with d(1) cs True show ?thesis by auto
    next
      case False
      with cs(3) have "0 < n - length cs" by simp
      with "1.IH"(2) [OF n x [symmetric] some(1) some(2) loop] u d(1)
      have "pos + length cs + (n - length cs) \<le> length ?data"
        "bs = (p @ cs) @ take (n - length cs) (drop (pos + length cs) ?data)"
        by auto
      moreover have "cs @ take (n - length cs) (drop (pos + length cs) ?data) = take n (drop pos ?data)"
        using cs take_add [of "length cs" "n - length cs" "drop pos ?data"]
        by (simp add: add.commute)
      ultimately show ?thesis using d(1) cs(3) by auto
    qed
  qed
qed

lemma safe_pread_frame:
  "safe_pread fd n off w = (r, w') \<Longrightarrow>
     io_frame w w' \<and> fst r \<noteq> CCASK_RETRY"
  by (simp add: safe_pread_def safe_pread_loop_frame)

lemma safe_pread_ok:
  assumes "safe_pread fd n off w = ((CCASK_OK, bs), w')" and "0 < n"
  obtains d where "open_fds w fd = Some d" and "off + n \<le> length (inode_data w (fd_inode d))"
    and "bs = take n (drop off (inode_data w (fd_inode d)))"
  using safe_pread_loop_ok [of fd "[]" n off w bs w'] assms by (auto simp: safe_pread_def)

lemma safe_pread_no_fault [no_fault_simps]:
  assumes "fault_script w = []" and "open_fds w fd = Some d" and "0 < n"
    and "off + n \<le> length (inode_data w (fd_inode d))"
  shows "safe_pread fd n off w = ((CCASK_OK, take n (drop off (inode_data w (fd_inode d)))), w)"
  using assms
  by (auto simp: safe_pread_def safe_pread_loop.simps [of fd "[]"] safe_pread_loop.simps [of fd _ 0]
      sys_pread_no_fault)

section \<open>Properties\<close>

text \<open>
  C22: whatever fails or is interrupted, a \<open>safe_writev\<close> that returns has appended a first part of the
  bytes to the file of the descriptor and changed no other file, and CCASK_OK means all of them.
\<close>

theorem safe_writev_appends_prefix:
  assumes "safe_writev fd iov w = Some (st, w')" and "\<forall>v \<in> set iov. wf_iov v" and "open_fds w fd = Some d"
  shows "\<exists>k \<le> length (iov_bytes iov).
    inode_data w' = (inode_data w)(fd_inode d := inode_data w (fd_inode d) @ take k (iov_bytes iov))
    \<and> (st = CCASK_OK \<longrightarrow> k = length (iov_bytes iov)) \<and> st \<noteq> CCASK_RETRY \<and> dir_entries w' = dir_entries w
    \<and> open_fds w' = open_fds w"
proof -
  obtain k where k: "appended fd (iov_bytes iov) k w w'" "st = CCASK_OK \<Longrightarrow> k = length (iov_bytes iov)" "st \<noteq> CCASK_RETRY"
    using safe_writev_result [OF assms(1,2)] by metis
  from k(1) assms(3) have "k \<le> length (iov_bytes iov)
      \<and> inode_data w' = (inode_data w)(fd_inode d := inode_data w (fd_inode d) @ take k (iov_bytes iov))
      \<and> dir_entries w' = dir_entries w \<and> open_fds w' = open_fds w"
    by (auto simp: appended_def)
  with k show ?thesis by blast
qed

definition one_file_posix :: posix where
  "one_file_posix = quiet_posix\<lparr>dir_entries := [(''f'', Regular 0)], next_inode := 1,
     open_fds := [3 \<mapsto> \<lparr>fd_inode = 0, fd_writable = True\<rparr>], next_fd := 4\<rparr>"

definition two_vectors :: "iovec list" where
  "two_vectors = [\<lparr>iov_base = [1, 2], iov_len = 2\<rparr>, \<lparr>iov_base = [3], iov_len = 1\<rparr>]"

lemma two_vectors_write:
  "safe_writev 3 two_vectors (one_file_posix\<lparr>fault_script := [Fault EINTR, Short 0, Fault EIO]\<rparr>)
    = Some (CCASK_FAIL, one_file_posix\<lparr>inode_data := (\<lambda>_. [])(0 := [1]), fd_offsets := (\<lambda>_. 0)(3 := 1),
        ccask_errno := CCASK_ERR_WRITE_FAILED\<rparr>)"
  by (simp add: safe_writev_def safe_writev_loop.simps two_vectors_def one_file_posix_def quiet_posix_def
      sys_append_def next_fault_def max_file_size_def retry_errno_def set_errno_def)

theorem safe_writev_appends_prefix_witness:
  "\<exists>k \<le> length (iov_bytes two_vectors). (\<lambda>_. [])(0 := [1]) = (\<lambda>_. [])(0 := [] @ take k (iov_bytes two_vectors))"
  using safe_writev_appends_prefix [OF two_vectors_write, of "\<lparr>fd_inode = 0, fd_writable = True\<rparr>"]
  by (auto simp: two_vectors_def one_file_posix_def quiet_posix_def wf_iov_def)

text \<open>
  C23: \<open>safe_writev\<close> returns, for every finite sequence of faults, when the last vector is not empty.
\<close>

theorem safe_writev_terminates:
  assumes "iov_open_end iov" and "\<forall>v \<in> set iov. wf_iov v"
  shows "\<exists>st w'. safe_writev fd iov w = Some (st, w')"
  using safe_writev_returns [OF assms] by auto

theorem safe_writev_terminates_witness:
  "\<exists>st w'. safe_writev 3 two_vectors (one_file_posix\<lparr>fault_script := [Fault EINTR, Short 0]\<rparr>) = Some (st, w')"
  by (rule safe_writev_terminates) (simp_all add: two_vectors_def iov_open_end_def wf_iov_def)

text \<open>
  C24: a positioned vector read that succeeds returns exactly the bytes of the file at the offset,
  cut into the lengths of the buffers, and only if the last buffer is not empty and the file is long
  enough.  It changes no file.
\<close>

theorem safe_preadv_exact:
  assumes "safe_preadv fd lens off w = ((CCASK_OK, bufs), w')"
  shows "\<exists>d. open_fds w fd = Some d \<and> 0 < last lens \<and> off + sum_list lens \<le> length (inode_data w (fd_inode d))
    \<and> map length bufs = lens \<and> concat bufs = take (sum_list lens) (drop off (inode_data w (fd_inode d)))
    \<and> inode_data w' = inode_data w"
proof -
  obtain d where d: "open_fds w fd = Some d" "0 < last lens" "lens \<noteq> []"
    "off + sum_list lens \<le> length (inode_data w (fd_inode d))" "map length bufs = lens"
    "bufs = chop lens (take (sum_list lens) (drop off (inode_data w (fd_inode d))))"
    using safe_preadv_ok [OF assms] by metis
  have "concat bufs = take (sum_list lens) (drop off (inode_data w (fd_inode d)))"
  proof -
    have "concat (chop ns xs) = take (sum_list ns) xs" for ns :: "nat list" and xs :: "byte list"
      by (induction ns xs rule: chop.induct) (simp_all add: take_add)
    then show ?thesis using d(6) by simp
  qed
  moreover have "inode_data w' = inode_data w"
    using safe_preadv_frame [OF assms] by (simp add: frame_simps)
  ultimately show ?thesis using d by blast
qed

lemma one_file_read:
  "safe_preadv 3 [1, 2] 1 (one_file_posix\<lparr>inode_data := (\<lambda>_. [])(0 := [9, 8, 7, 6])\<rparr>)
    = ((CCASK_OK, [[8], [7, 6]]), one_file_posix\<lparr>inode_data := (\<lambda>_. [])(0 := [9, 8, 7, 6])\<rparr>)"
  by (subst safe_preadv_no_fault [where d = "\<lparr>fd_inode = 0, fd_writable = True\<rparr>"])
     (simp_all add: one_file_posix_def quiet_posix_def eval_nat_numeral)

theorem safe_preadv_exact_witness:
  "\<exists>d. open_fds one_file_posix 3 = Some d \<and> concat [[8], [7, 6 :: byte]] = take 3 (drop 1 [9, 8, 7, 6])"
  using safe_preadv_exact [OF one_file_read] by (auto simp: one_file_posix_def quiet_posix_def)

end
