(* ===== verification/VectorIO.thy ===== *)
theory VectorIO
  imports SafeIO
begin

text \<open>
  The two helpers of src/utils.c that go beside the ones the store calls: \<open>safe_readv\<close> reads at the
  descriptor's own offset, \<open>safe_pwritev\<close> writes at a given one.  Both are shown equal to their
  counterparts \<open>safe_preadv\<close> and \<open>safe_writev\<close> up to the offset of the descriptor.
\<close>

section \<open>The code\<close>

function safe_readv_loop ::
  "int \<Rightarrow> iovec list \<Rightarrow> iovec list \<Rightarrow> 'a posix_scheme \<Rightarrow> (ccask_status \<times> byte list list) \<times> 'a posix_scheme" where
  "safe_readv_loop fd full rest w =
     (if rest = [] then ((CCASK_OK, map iov_base full), w)
      else case sys_read fd (iov_total_len rest) w of
          (Inl e, w') \<Rightarrow>
            (if retry_errno e then safe_readv_loop fd full rest w'
             else ((CCASK_FAIL, map iov_base (full @ rest)), set_errno CCASK_ERR_READ_FAILED w'))
        | (Inr bs, w') \<Rightarrow>
            (if bs = [] then
               ((CCASK_FAIL, map iov_base (full @ rest)), set_errno CCASK_ERR_UNEXPECTED_EOF w')
             else safe_readv_loop fd (full @ fst (iov_fill bs rest)) (snd (iov_fill bs rest)) w'))"
  by pat_completeness auto

lemma sys_read_pread:
  assumes "sys_read fd n w = (r, w')"
  obtains u where "sys_pread fd n (fd_offsets w fd) w = (r, u)" and "fault_script w' = fault_script u"
  using assms by (auto simp: sys_read_def Let_def split: prod.splits sum.splits)

termination safe_readv_loop
proof (relation "measure (\<lambda>(fd, full, rest, w). length (fault_script w) + iov_total_len rest)", goal_cases)
  case (2 fd full rest w x w' e)
  then obtain u where "sys_pread fd (iov_total_len rest) (fd_offsets w fd) w = (Inl e, u)"
    "fault_script w' = fault_script u" using sys_read_pread by metis
  with 2 show ?case using sys_pread_progress(2) [of fd "iov_total_len rest" _ w x u e] by simp
next
  case (3 fd full rest w x w' bs)
  then obtain u where u: "sys_pread fd (iov_total_len rest) (fd_offsets w fd) w = (Inr bs, u)"
    and s: "fault_script w' = fault_script u" using sys_read_pread by metis
  have "length (fault_script u) \<le> length (fault_script w)" "length bs \<le> iov_total_len rest"
    using sys_pread_progress(1,3) [OF u] by blast+
  moreover have "0 < length bs" using 3 by (cases bs) auto
  moreover have "iov_total_len (snd (iov_fill bs rest)) = iov_total_len rest - length bs"
    using iov_fill_total [of bs rest] calculation(2) by (metis prod.collapse)
  ultimately show ?case using s by (simp del: length_greater_0_conv)
qed simp

declare safe_readv_loop.simps [simp del]

definition safe_readv ::
  "int \<Rightarrow> nat list \<Rightarrow> 'a posix_scheme \<Rightarrow> (ccask_status \<times> byte list list) \<times> 'a posix_scheme" where
  "safe_readv fd lens w =
     (if fd < 0 \<or> lens = [] then ((CCASK_FAIL, map (\<lambda>_. []) lens), w)
      else safe_readv_loop fd [] (map (\<lambda>n. \<lparr>iov_base = [], iov_len = n\<rparr>) lens) w)"

text \<open>
  Every descriptor that can be written is opened with O_APPEND, and Linux then appends the data of
  \<open>pwritev\<close> whatever its offset is (BUGS in pwrite(2)).  The descriptor's own offset stays.
\<close>

definition sys_pwritev ::
  "int \<Rightarrow> byte list \<Rightarrow> nat \<Rightarrow> 'a posix_scheme \<Rightarrow> (errno + nat) \<times> 'a posix_scheme" where
  "sys_pwritev fd bs off w = (case sys_append fd bs w of (r, w') \<Rightarrow> (r, w'\<lparr>fd_offsets := fd_offsets w\<rparr>))"

partial_function (option) safe_pwritev_loop ::
  "int \<Rightarrow> iovec list \<Rightarrow> nat \<Rightarrow> nat \<Rightarrow> 'a posix_scheme \<Rightarrow> (ccask_status \<times> 'a posix_scheme) option" where
  "safe_pwritev_loop fd iov offset total_written w =
     (if iov = [] then Some (CCASK_OK, w)
      else case sys_pwritev fd (iov_bytes iov) (offset + total_written) w of
          (Inl e, w') \<Rightarrow>
            (if retry_errno e then safe_pwritev_loop fd iov offset total_written w'
             else Some (CCASK_FAIL, set_errno CCASK_ERR_WRITE_FAILED w'))
        | (Inr nwritten, w') \<Rightarrow>
            safe_pwritev_loop fd (iov_advance nwritten iov) offset (total_written + nwritten) w')"

definition safe_pwritev ::
  "int \<Rightarrow> iovec list \<Rightarrow> nat \<Rightarrow> 'a posix_scheme \<Rightarrow> (ccask_status \<times> 'a posix_scheme) option" where
  "safe_pwritev fd iov offset w =
     (if fd < 0 \<or> iov = [] then Some (CCASK_FAIL, w) else safe_pwritev_loop fd iov offset 0 w)"


section \<open>Reading at the offset\<close>

definition seek_to :: "int \<Rightarrow> nat \<Rightarrow> 'a posix_scheme \<Rightarrow> 'a posix_scheme" where
  "seek_to fd n w = w\<lparr>fd_offsets := (fd_offsets w)(fd := n)\<rparr>"

lemma seek_to_simps [simp]:
  "fd_offsets (seek_to fd n w) fd = n" "seek_to fd m (seek_to fd n w) = seek_to fd m w"
  "set_errno e (seek_to fd n w) = seek_to fd n (set_errno e w)" "seek_to fd (fd_offsets w fd) w = w"
  "open_fds (seek_to fd n w) = open_fds w" "inode_data (seek_to fd n w) = inode_data w"
  by (simp_all add: seek_to_def set_errno_def)

lemma next_fault_seek: "next_fault (seek_to fd n w) = (case next_fault w of (f, u) \<Rightarrow> (f, seek_to fd n u))"
  by (cases "fault_script w") (simp_all add: next_fault_def seek_to_def)

lemma sys_pread_seek:
  "sys_pread fd m off (seek_to fd n w) = (case sys_pread fd m off w of (r, u) \<Rightarrow> (r, seek_to fd n u))"
proof -
  obtain f u where "next_fault w = (f, u)" by fastforce
  then show ?thesis
    by (cases f; cases "open_fds u fd") (simp_all add: sys_pread_def next_fault_seek)
qed

lemma sys_read_seek:
  "sys_read fd m (seek_to fd n w) = (case sys_pread fd m n w of
      (Inl e, u) \<Rightarrow> (Inl e, seek_to fd n u) | (Inr bs, u) \<Rightarrow> (Inr bs, seek_to fd (n + length bs) u))"
  by (simp add: sys_read_def sys_pread_seek split: prod.splits sum.splits) (simp add: seek_to_def)

definition stored_len :: "iovec list \<Rightarrow> nat" where
  "stored_len iov = length (concat (map iov_base iov))"

lemma stored_len_simps [simp]:
  "stored_len [] = 0" "stored_len (v # vs) = length (iov_base v) + stored_len vs"
  "stored_len (us @ vs) = stored_len us + stored_len vs"
  by (simp_all add: stored_len_def)

lemma iov_fill_stored:
  "iov_fill bs iov = (full, rest) \<Longrightarrow> length bs \<le> iov_total_len iov \<Longrightarrow>
     stored_len full + stored_len rest = stored_len iov + length bs"
  by (induction bs iov arbitrary: full rule: iov_fill.induct)
     (auto simp: iov_total_len_def Let_def split: if_splits prod.splits)

lemma safe_readv_loop_seek:
  "stored_len full + stored_len rest = t \<Longrightarrow>
   safe_readv_loop fd full rest (seek_to fd (off + t) w) = (case safe_preadv_loop fd full rest t off w of
      (r, u) \<Rightarrow> (r, seek_to fd (off + length (concat (snd r))) u))"
proof (induction fd full rest t off w rule: safe_preadv_loop.induct)
  case (1 fd full rest t off w)
  show ?case
  proof (cases "rest = []")
    case True
    with "1.prems" show ?thesis
      by (simp add: safe_readv_loop.simps safe_preadv_loop.simps stored_len_def)
  next
    case False
    obtain x u where x: "sys_pread fd (iov_total_len rest) (off + t) w = (x, u)" by fastforce
    have len: "length (concat (map iov_base (full @ rest))) = t"
      using "1.prems" by (simp add: stored_len_def)
    consider (again) e where "x = Inl e" "retry_errno e" | (err) e where "x = Inl e" "\<not> retry_errno e"
      | (eof) "x = Inr []" | (some) bs where "x = Inr bs" "bs \<noteq> []"
      by (cases x) auto
    then show ?thesis
    proof cases
      case again
      with "1.IH"(1) [OF False x [symmetric] again "1.prems"] False x show ?thesis
        by (simp add: safe_readv_loop.simps [of fd full rest] safe_preadv_loop.simps [of fd full rest] sys_read_seek)
    next
      case err
      with False x len show ?thesis
        by (simp add: safe_readv_loop.simps [of fd full rest] safe_preadv_loop.simps [of fd full rest] sys_read_seek)
    next
      case eof
      with False x len show ?thesis
        by (simp add: safe_readv_loop.simps [of fd full rest] safe_preadv_loop.simps [of fd full rest] sys_read_seek)
    next
      case some
      obtain full' rest' where fill: "iov_fill bs rest = (full', rest')" by fastforce
      have "length bs \<le> iov_total_len rest" using sys_pread_progress(3) [OF x some(1)] .
      then have "stored_len full' + stored_len rest' = stored_len rest + length bs"
        by (rule iov_fill_stored [OF fill])
      then have "stored_len (full @ fst (iov_fill bs rest)) + stored_len (snd (iov_fill bs rest)) = t + length bs"
        using "1.prems" fill by simp
      from "1.IH"(2) [OF False x [symmetric] some this] False x some show ?thesis
        by (simp add: safe_readv_loop.simps [of fd full rest] safe_preadv_loop.simps [of fd full rest] sys_read_seek
            add.assoc)
    qed
  qed
qed

lemma safe_readv_preadv:
  "safe_readv fd lens w = (case safe_preadv fd lens (fd_offsets w fd) w of
      (r, u) \<Rightarrow> (r, seek_to fd (fd_offsets w fd + length (concat (snd r))) u))"
proof (cases "fd < 0 \<or> lens = []")
  case True
  have none: "concat (map (\<lambda>_. []) lens) = ([] :: byte list)" by (induction lens) simp_all
  from True show ?thesis by (simp add: safe_readv_def safe_preadv_def none)
next
  case False
  have "stored_len (map (\<lambda>n. \<lparr>iov_base = [], iov_len = n\<rparr>) lens) = 0" by (induction lens) simp_all
  with False safe_readv_loop_seek [of "[]" _ 0 fd "fd_offsets w fd" w] show ?thesis
    by (simp add: safe_readv_def safe_preadv_def)
qed


section \<open>Writing at an offset\<close>

definition with_offsets :: "(int \<Rightarrow> nat) \<Rightarrow> 'a posix_scheme \<Rightarrow> 'a posix_scheme" where
  "with_offsets offs w = w\<lparr>fd_offsets := offs\<rparr>"

lemma next_fault_offsets: "next_fault (with_offsets offs w) = (case next_fault w of (f, u) \<Rightarrow> (f, with_offsets offs u))"
  by (cases "fault_script w") (simp_all add: next_fault_def with_offsets_def)

lemma sys_pwritev_offsets:
  "sys_pwritev fd bs off (with_offsets offs w) = (case sys_append fd bs w of (r, u) \<Rightarrow> (r, with_offsets offs u))"
proof -
  obtain f u where "next_fault w = (f, u)" by fastforce
  then show ?thesis
    by (cases f; cases "open_fds u fd")
      (simp_all add: sys_pwritev_def sys_append_def next_fault_offsets Let_def, simp_all add: with_offsets_def Let_def)
qed

lemma with_offsets_set_errno: "set_errno e (with_offsets offs w) = with_offsets offs (set_errno e w)"
  by (simp add: with_offsets_def set_errno_def)

text \<open>Each of the two loops follows the other one, so they return for the same states.\<close>

lemma safe_pwritev_loop_from:
  assumes "safe_writev_loop fd iov w = Some r"
  shows "safe_pwritev_loop fd iov off t (with_offsets offs w) = Some (fst r, with_offsets offs (snd r))"
proof -
  have "\<forall>t. safe_pwritev_loop fd iov off t (with_offsets offs w) = Some (fst r, with_offsets offs (snd r))"
  proof (rule safe_writev_loop.raw_induct
      [where P = "\<lambda>fd iov w r. \<forall>t. safe_pwritev_loop fd iov off t (with_offsets offs w)
        = Some (fst r, with_offsets offs (snd r))", OF _ assms], rule allI)
    fix f :: "int \<Rightarrow> iovec list \<Rightarrow> 'a posix_scheme \<Rightarrow> (ccask_status \<times> 'a posix_scheme) option"
      and fd iov w r t
    assume IH: "\<And>fd iov w r. f fd iov w = Some r \<Longrightarrow>
        \<forall>t. safe_pwritev_loop fd iov off t (with_offsets offs w) = Some (fst r, with_offsets offs (snd r))"
      and eq: "(if iov = [] then Some (CCASK_OK, w)
        else case sys_append fd (iov_bytes iov) w of
            (Inl e, w') \<Rightarrow> (if retry_errno e then f fd iov w'
               else Some (CCASK_FAIL, set_errno CCASK_ERR_WRITE_FAILED w'))
          | (Inr n, w') \<Rightarrow> f fd (iov_advance n iov) w') = Some r"
    obtain x u where x: "sys_append fd (iov_bytes iov) w = (x, u)" by fastforce
    show "safe_pwritev_loop fd iov off t (with_offsets offs w) = Some (fst r, with_offsets offs (snd r))"
      using eq x IH by (subst safe_pwritev_loop.simps, cases x)
        (auto simp: sys_pwritev_offsets with_offsets_set_errno split: if_splits)
  qed
  then show ?thesis by blast
qed

lemma safe_writev_loop_from:
  assumes "safe_pwritev_loop fd iov off t (with_offsets offs w) = Some r"
  shows "\<exists>r'. safe_writev_loop fd iov w = Some r'"
proof -
  have "\<forall>w. v = with_offsets offs w \<longrightarrow> (\<exists>r'. safe_writev_loop fd iov w = Some r')"
    if "safe_pwritev_loop fd iov off t v = Some r" for v :: "'a posix_scheme"
  proof (rule safe_pwritev_loop.raw_induct
      [where P = "\<lambda>fd iov off t v r. \<forall>w. v = with_offsets offs w \<longrightarrow> (\<exists>r'. safe_writev_loop fd iov w = Some r')",
       OF _ that], intro allI impI)
    fix f :: "int \<Rightarrow> iovec list \<Rightarrow> nat \<Rightarrow> nat \<Rightarrow> 'a posix_scheme \<Rightarrow> (ccask_status \<times> 'a posix_scheme) option"
      and fd iov off t v r and w :: "'a posix_scheme"
    assume IH: "\<And>fd iov off t v r. f fd iov off t v = Some r \<Longrightarrow>
        \<forall>w. v = with_offsets offs w \<longrightarrow> (\<exists>r'. safe_writev_loop fd iov w = Some r')"
      and eq: "(if iov = [] then Some (CCASK_OK, v)
        else case sys_pwritev fd (iov_bytes iov) (off + t) v of
            (Inl e, w') \<Rightarrow> (if retry_errno e then f fd iov off t w'
               else Some (CCASK_FAIL, set_errno CCASK_ERR_WRITE_FAILED w'))
          | (Inr n, w') \<Rightarrow> f fd (iov_advance n iov) off (t + n) w') = Some r"
      and v: "v = with_offsets offs w"
    obtain x u where x: "sys_append fd (iov_bytes iov) w = (x, u)" by fastforce
    show "\<exists>r'. safe_writev_loop fd iov w = Some r'"
      using eq x IH unfolding v by (subst safe_writev_loop.simps, cases x)
        (auto simp: sys_pwritev_offsets split: if_splits)
  qed
  with assms show ?thesis by blast
qed

lemma safe_pwritev_writev:
  "safe_pwritev fd iov off w = map_option (\<lambda>(st, u). (st, with_offsets (fd_offsets w) u)) (safe_writev fd iov w)"
proof -
  have w: "with_offsets (fd_offsets w) w = w" by (simp add: with_offsets_def)
  have "safe_pwritev_loop fd iov off 0 w
      = map_option (\<lambda>(st, u). (st, with_offsets (fd_offsets w) u)) (safe_writev_loop fd iov w)"
  proof (cases "safe_writev_loop fd iov w")
    case None
    then have "safe_pwritev_loop fd iov off 0 w = None"
      using safe_writev_loop_from [of fd iov off 0 "fd_offsets w" w] unfolding w
      by (cases "safe_pwritev_loop fd iov off 0 w") auto
    with None show ?thesis by simp
  next
    case (Some r)
    from safe_pwritev_loop_from [OF this, of off 0 "fd_offsets w"] Some show ?thesis
      unfolding w by (cases r) simp
  qed
  then show ?thesis by (simp add: safe_pwritev_def safe_writev_def w)
qed


section \<open>Properties\<close>


end
