(* ===== verification/Records.thy ===== *)
theory Records
  imports SafeIO
begin

text \<open>
  src/records.c and src/include/ccask/records.h: datafile and hintfile records as arrays of
  \<open>iovec\<close> (header, key, value), their headers, and the bytes they stand for on disk.  A freshly
  allocated buffer has its length set and holds no initialised bytes yet.
\<close>

section \<open>Datafile records\<close>

definition DATAFILE_RECORD_HEADER_SIZE :: nat where
  "DATAFILE_RECORD_HEADER_SIZE = 16"

definition HINTFILE_RECORD_HEADER_SIZE :: nat where
  "HINTFILE_RECORD_HEADER_SIZE = 20"

record datafile_record_header =
  crc :: u32
  timestamp :: u32
  key_size :: u32
  value_size :: u32

text \<open>\<open>ccask_datafile_record_t\<close> is \<open>struct iovec[3]\<close>.\<close>

record datafile_record =
  rec_header :: iovec
  rec_key :: iovec
  rec_value :: iovec

definition datafile_record_iov :: "datafile_record \<Rightarrow> iovec list" where
  "datafile_record_iov r = [rec_header r, rec_key r, rec_value r]"

definition empty_iov :: "nat \<Rightarrow> iovec" where
  "empty_iov n = \<lparr>iov_base = [], iov_len = n\<rparr>"

definition ccask_allocate_datafile_record ::
  "u32 \<Rightarrow> u32 \<Rightarrow> 'a posix_scheme \<Rightarrow> (ccask_status \<times> datafile_record) \<times> 'a posix_scheme" where
  "ccask_allocate_datafile_record ksize vsize w =
     (let r = \<lparr>rec_header = empty_iov DATAFILE_RECORD_HEADER_SIZE,
               rec_key = empty_iov (unat ksize), rec_value = empty_iov (unat vsize)\<rparr>;
          (ok, w') = sys_mallocs 3 w
      in if ok then ((CCASK_OK, r), w')
         else ((CCASK_FAIL, r), set_errno CCASK_ERR_NO_MEMORY w'))"

text \<open>
  Reading \<open>n\<close> bytes through a pointer: beyond the end of the object, or through NULL when
  \<open>n > 0\<close>, is undefined.  zlib accepts a NULL buffer of any length.
\<close>

definition memcpy_from :: "byte list option \<Rightarrow> nat \<Rightarrow> byte list option" where
  "memcpy_from p n = (case p of
      None \<Rightarrow> if n = 0 then Some [] else None
    | Some bs \<Rightarrow> if n \<le> length bs then Some (take n bs) else None)"

definition crc_readable :: "byte list option \<Rightarrow> nat \<Rightarrow> bool" where
  "crc_readable p n \<longleftrightarrow> (case p of None \<Rightarrow> True | Some bs \<Rightarrow> n \<le> length bs)"

definition datafile_header_bytes :: "u32 \<Rightarrow> u32 \<Rightarrow> u32 \<Rightarrow> u32 \<Rightarrow> byte list" where
  "datafile_header_bytes c ts ks vs = write_be32 c @ write_be32 ts @ write_be32 ks @ write_be32 vs"

text \<open>
  \<open>ccask_create_datafile_record\<close>: the key pointer is not NULL, the value pointer may be.
\<close>

definition ccask_create_datafile_record ::
  "crc_fun \<Rightarrow> u32 \<Rightarrow> byte list \<Rightarrow> u32 \<Rightarrow> byte list option \<Rightarrow> u32 \<Rightarrow> 'a posix_scheme
     \<Rightarrow> ((ccask_status \<times> datafile_record) \<times> 'a posix_scheme) option" where
  "ccask_create_datafile_record crc32 ts key ksize val vsize w =
     (if \<not> (crc_readable (Some key) (unat ksize) \<and> crc_readable val (unat vsize)) then None
      else let c = calculate_crc32 crc32 ts ksize vsize (Some key) val;
               ((res, r), w') = ccask_allocate_datafile_record ksize vsize w
           in if res \<noteq> CCASK_OK then Some ((res, r), w')
              else do { kb \<leftarrow> memcpy_from (Some key) (unat ksize);
                        vb \<leftarrow> memcpy_from val (unat vsize);
                        Some ((CCASK_OK,
                          r\<lparr>rec_header := (rec_header r)\<lparr>iov_base := datafile_header_bytes c ts ksize vsize\<rparr>,
                            rec_key := (rec_key r)\<lparr>iov_base := kb\<rparr>,
                            rec_value := (rec_value r)\<lparr>iov_base := vb\<rparr>\<rparr>), w') })"

definition datafile_header_of :: "byte list \<Rightarrow> datafile_record_header" where
  "datafile_header_of header_buf =
     \<lparr>crc = read_be32 header_buf, timestamp = read_be32 (drop 4 header_buf),
      key_size = read_be32 (drop 8 header_buf), value_size = read_be32 (drop 12 header_buf)\<rparr>"

definition ccask_get_datafile_record_header :: "datafile_record \<Rightarrow> datafile_record_header" where
  "ccask_get_datafile_record_header r = datafile_header_of (iov_base (rec_header r))"

definition ccask_get_datafile_record_key :: "datafile_record \<Rightarrow> byte list" where
  "ccask_get_datafile_record_key r = iov_base (rec_key r)"

definition ccask_get_datafile_record_value :: "datafile_record \<Rightarrow> byte list" where
  "ccask_get_datafile_record_value r = iov_base (rec_value r)"

text \<open>The sum is computed in \<open>size_t\<close>.\<close>

definition ccask_get_datafile_record_total_size :: "datafile_record \<Rightarrow> u64" where
  "ccask_get_datafile_record_total_size r =
     of_nat (iov_len (rec_header r)) + of_nat (iov_len (rec_key r)) + of_nat (iov_len (rec_value r))"


section \<open>Hintfile records\<close>

record hintfile_record_header =
  hint_timestamp :: u32
  hint_key_size :: u32
  hint_value_size :: u32
  hint_record_pos :: u64

text \<open>\<open>ccask_hintfile_record_t\<close> is \<open>struct iovec[2]\<close>.\<close>

record hintfile_record =
  hint_header :: iovec
  hint_key :: iovec

definition hintfile_record_iov :: "hintfile_record \<Rightarrow> iovec list" where
  "hintfile_record_iov r = [hint_header r, hint_key r]"

definition ccask_allocate_hintfile_record ::
  "u32 \<Rightarrow> 'a posix_scheme \<Rightarrow> (ccask_status \<times> hintfile_record) \<times> 'a posix_scheme" where
  "ccask_allocate_hintfile_record ksize w =
     (let r = \<lparr>hint_header = empty_iov HINTFILE_RECORD_HEADER_SIZE, hint_key = empty_iov (unat ksize)\<rparr>;
          (ok, w') = sys_mallocs 2 w
      in if ok then ((CCASK_OK, r), w')
         else ((CCASK_FAIL, r), set_errno CCASK_ERR_NO_MEMORY w'))"

definition hintfile_header_bytes :: "u32 \<Rightarrow> u32 \<Rightarrow> u32 \<Rightarrow> u64 \<Rightarrow> byte list" where
  "hintfile_header_bytes ts ks vs pos = write_be32 ts @ write_be32 ks @ write_be32 vs @ write_be64 pos"

definition ccask_create_hintfile_record ::
  "u32 \<Rightarrow> u32 \<Rightarrow> u32 \<Rightarrow> u64 \<Rightarrow> byte list \<Rightarrow> 'a posix_scheme
     \<Rightarrow> ((ccask_status \<times> hintfile_record) \<times> 'a posix_scheme) option" where
  "ccask_create_hintfile_record ts ksize vsize pos key w =
     (let ((res, r), w') = ccask_allocate_hintfile_record ksize w
      in if res \<noteq> CCASK_OK then Some ((res, r), w')
         else do { kb \<leftarrow> memcpy_from (Some key) (unat ksize);
                   Some ((CCASK_OK,
                     r\<lparr>hint_header := (hint_header r)\<lparr>iov_base := hintfile_header_bytes ts ksize vsize pos\<rparr>,
                       hint_key := (hint_key r)\<lparr>iov_base := kb\<rparr>\<rparr>), w') })"

definition hintfile_header_of :: "byte list \<Rightarrow> hintfile_record_header" where
  "hintfile_header_of header_buf =
     \<lparr>hint_timestamp = read_be32 header_buf, hint_key_size = read_be32 (drop 4 header_buf),
      hint_value_size = read_be32 (drop 8 header_buf), hint_record_pos = read_be64 (drop 12 header_buf)\<rparr>"

definition ccask_get_hintfile_record_header :: "hintfile_record \<Rightarrow> hintfile_record_header" where
  "ccask_get_hintfile_record_header r = hintfile_header_of (iov_base (hint_header r))"

definition ccask_get_hintfile_record_key :: "hintfile_record \<Rightarrow> byte list" where
  "ccask_get_hintfile_record_key r = iov_base (hint_key r)"

definition ccask_get_hintfile_record_total_size :: "hintfile_record \<Rightarrow> u64" where
  "ccask_get_hintfile_record_total_size r = of_nat (iov_len (hint_header r)) + of_nat (iov_len (hint_key r))"


section \<open>The bytes of a record\<close>

text \<open>
  The abstract content of a datafile record: what the store keeps about one key.  Its encoding is
  the layout that every reader of the file relies on.
\<close>

record entry =
  ent_crc :: u32
  ent_timestamp :: u32
  ent_key :: "byte list"
  ent_value :: "byte list"

definition ent_size :: "entry \<Rightarrow> nat" where
  "ent_size e = 16 + length (ent_key e) + length (ent_value e)"

definition encode_entry :: "entry \<Rightarrow> byte list" where
  "encode_entry e =
     datafile_header_bytes (ent_crc e) (ent_timestamp e) (of_nat (length (ent_key e)))
       (of_nat (length (ent_value e))) @ ent_key e @ ent_value e"

definition encode_hint :: "nat \<Rightarrow> entry \<Rightarrow> byte list" where
  "encode_hint pos e =
     hintfile_header_bytes (ent_timestamp e) (of_nat (length (ent_key e)))
       (of_nat (length (ent_value e))) (of_nat pos) @ ent_key e"

text \<open>
  Entries whose total size fits 32 bits: the iterators add up the size of a record in 32 bits.  An
  entry with an empty value is a tombstone.
\<close>

definition ent_ok :: "entry \<Rightarrow> bool" where
  "ent_ok e \<longleftrightarrow> ent_size e < 2 ^ 32 \<and> ent_value e \<noteq> []"

definition ent_header :: "entry \<Rightarrow> datafile_record_header" where
  "ent_header e = \<lparr>crc = ent_crc e, timestamp = ent_timestamp e,
     key_size = of_nat (length (ent_key e)), value_size = of_nat (length (ent_value e))\<rparr>"

definition ent_record :: "entry \<Rightarrow> datafile_record" where
  "ent_record e =
     \<lparr>rec_header = \<lparr>iov_base = datafile_header_bytes (ent_crc e) (ent_timestamp e)
                       (of_nat (length (ent_key e))) (of_nat (length (ent_value e))), iov_len = 16\<rparr>,
      rec_key = \<lparr>iov_base = ent_key e, iov_len = length (ent_key e)\<rparr>,
      rec_value = \<lparr>iov_base = ent_value e, iov_len = length (ent_value e)\<rparr>\<rparr>"

lemma length_header_bytes [simp, codec_simps]:
  "length (datafile_header_bytes c ts ks vs) = 16"
  "length (hintfile_header_bytes ts ks vs pos) = 20"
  by (simp_all add: datafile_header_bytes_def hintfile_header_bytes_def)

lemma length_encode_entry [simp, codec_simps]: "length (encode_entry e) = ent_size e"
  by (simp add: encode_entry_def ent_size_def)

lemma length_encode_hint [simp, codec_simps]:
  "length (encode_hint pos e) = 20 + length (ent_key e)"
  by (simp add: encode_hint_def)

lemma datafile_header_round_trip [simp, codec_simps]:
  "datafile_header_of (datafile_header_bytes c ts ks vs) =
     \<lparr>crc = c, timestamp = ts, key_size = ks, value_size = vs\<rparr>"
  by (simp add: datafile_header_of_def datafile_header_bytes_def)

lemma hintfile_header_round_trip [simp, codec_simps]:
  "hintfile_header_of (hintfile_header_bytes ts ks vs pos) =
     \<lparr>hint_timestamp = ts, hint_key_size = ks, hint_value_size = vs, hint_record_pos = pos\<rparr>"
  by (simp add: hintfile_header_of_def hintfile_header_bytes_def)

lemma unat_of_nat_32: "n < 2 ^ 32 \<Longrightarrow> unat (of_nat n :: u32) = n"
  by (simp add: unat_of_nat)

lemma unat_of_nat_64: "n < 2 ^ 64 \<Longrightarrow> unat (of_nat n :: u64) = n"
  by (simp add: unat_of_nat)

lemma unat_u32_less: "unat (x :: u32) < 2 ^ 32"
  using unsigned_less [of x, where ?'a = nat] by simp

lemma ent_record_iov_bytes [simp]: "iov_bytes (datafile_record_iov (ent_record e)) = encode_entry e"
  by (simp add: datafile_record_iov_def ent_record_def encode_entry_def)

lemma ent_record_wf [simp]: "\<forall>v \<in> set (datafile_record_iov (ent_record e)). wf_iov v"
  by (simp add: datafile_record_iov_def ent_record_def wf_iov_def)

lemma ent_record_header [simp]: "ccask_get_datafile_record_header (ent_record e) = ent_header e"
  by (simp add: ccask_get_datafile_record_header_def ent_record_def ent_header_def)

lemma ent_record_key [simp]: "ccask_get_datafile_record_key (ent_record e) = ent_key e"
  by (simp add: ccask_get_datafile_record_key_def ent_record_def)

lemma ent_record_value [simp]: "ccask_get_datafile_record_value (ent_record e) = ent_value e"
  by (simp add: ccask_get_datafile_record_value_def ent_record_def)

lemma ent_record_total_size:
  "ent_size e < 2 ^ 64 \<Longrightarrow> unat (ccask_get_datafile_record_total_size (ent_record e)) = ent_size e"
proof -
  assume "ent_size e < 2 ^ 64"
  then have "unat (of_nat (ent_size e) :: u64) = ent_size e" by (rule unat_of_nat_64)
  moreover have "ccask_get_datafile_record_total_size (ent_record e) = of_nat (ent_size e)"
    by (simp add: ccask_get_datafile_record_total_size_def ent_record_def ent_size_def)
  ultimately show ?thesis by simp
qed

text \<open>The entry that a call of \<open>ccask_create_datafile_record\<close> asks for.\<close>

definition bytes_of :: "byte list option \<Rightarrow> byte list" where
  "bytes_of p = (case p of None \<Rightarrow> [] | Some bs \<Rightarrow> bs)"

definition new_entry :: "crc_fun \<Rightarrow> u32 \<Rightarrow> byte list \<Rightarrow> u32 \<Rightarrow> byte list option \<Rightarrow> u32 \<Rightarrow> entry" where
  "new_entry crc32 ts key ksize val vsize =
     \<lparr>ent_crc = calculate_crc32 crc32 ts ksize vsize (Some key) val, ent_timestamp = ts,
      ent_key = take (unat ksize) key, ent_value = take (unat vsize) (bytes_of val)\<rparr>"

text \<open>The caller's obligation: the buffers are at least as long as the sizes say.\<close>

definition buffers_ok :: "byte list \<Rightarrow> u32 \<Rightarrow> byte list option \<Rightarrow> u32 \<Rightarrow> bool" where
  "buffers_ok key ksize val vsize \<longleftrightarrow>
     unat ksize \<le> length key \<and> unat vsize \<le> length (bytes_of val)"

lemma ccask_create_datafile_record_result:
  assumes "buffers_ok key ksize val vsize"
  shows "ccask_create_datafile_record crc32 ts key ksize val vsize w =
    (let (ok, w') = sys_mallocs 3 w in
     Some (if ok then ((CCASK_OK, ent_record (new_entry crc32 ts key ksize val vsize)), w')
           else ((CCASK_FAIL, snd (fst (ccask_allocate_datafile_record ksize vsize w))),
                 set_errno CCASK_ERR_NO_MEMORY w')))"
proof -
  have "crc_readable (Some key) (unat ksize)" "crc_readable val (unat vsize)"
    "memcpy_from (Some key) (unat ksize) = Some (take (unat ksize) key)"
    "memcpy_from val (unat vsize) = Some (take (unat vsize) (bytes_of val))"
    using assms
    by (auto simp: buffers_ok_def crc_readable_def memcpy_from_def bytes_of_def split: option.splits)
  moreover have "min (length key) (unat ksize) = unat ksize"
    "min (length (bytes_of val)) (unat vsize) = unat vsize"
    using assms by (auto simp: buffers_ok_def)
  ultimately show ?thesis
    using assms
    by (cases "sys_mallocs 3 w")
       (auto simp: ccask_create_datafile_record_def ccask_allocate_datafile_record_def ent_record_def
         new_entry_def empty_iov_def DATAFILE_RECORD_HEADER_SIZE_def buffers_ok_def Let_def)
qed

definition hint_record :: "nat \<Rightarrow> entry \<Rightarrow> hintfile_record" where
  "hint_record pos e =
     \<lparr>hint_header = \<lparr>iov_base = hintfile_header_bytes (ent_timestamp e) (of_nat (length (ent_key e)))
                      (of_nat (length (ent_value e))) (of_nat pos), iov_len = 20\<rparr>,
      hint_key = \<lparr>iov_base = ent_key e, iov_len = length (ent_key e)\<rparr>\<rparr>"

lemma hint_record_facts [simp]:
  "iov_bytes (hintfile_record_iov (hint_record pos e)) = encode_hint pos e"
  "\<forall>v \<in> set (hintfile_record_iov (hint_record pos e)). wf_iov v"
  "ccask_get_hintfile_record_key (hint_record pos e) = ent_key e"
  "ccask_get_hintfile_record_header (hint_record pos e) =
     \<lparr>hint_timestamp = ent_timestamp e, hint_key_size = of_nat (length (ent_key e)),
      hint_value_size = of_nat (length (ent_value e)), hint_record_pos = of_nat pos\<rparr>"
  by (simp_all add: hintfile_record_iov_def hint_record_def encode_hint_def wf_iov_def
      ccask_get_hintfile_record_key_def ccask_get_hintfile_record_header_def)

lemma ccask_create_hintfile_record_result:
  assumes "length (ent_key e) < 2 ^ 32" and "hdr = ent_header e"
  shows "ccask_create_hintfile_record (timestamp hdr) (key_size hdr) (value_size hdr) (of_nat pos)
      (ent_key e) w =
    (let (ok, w') = sys_mallocs 2 w in
     Some (if ok then ((CCASK_OK, hint_record pos e), w')
           else ((CCASK_FAIL, snd (fst (ccask_allocate_hintfile_record (key_size hdr) w))),
                 set_errno CCASK_ERR_NO_MEMORY w')))"
proof -
  have "unat (of_nat (length (ent_key e)) :: u32) = length (ent_key e)"
    using assms(1) by (rule unat_of_nat_32)
  with assms(2) show ?thesis
    by (cases "sys_mallocs 2 w")
       (auto simp: ccask_create_hintfile_record_def ccask_allocate_hintfile_record_def ent_header_def
         hint_record_def empty_iov_def HINTFILE_RECORD_HEADER_SIZE_def memcpy_from_def Let_def)
qed

text \<open>A log is a list of entries written one after the other; each starts where the last ended.\<close>

definition encode_log :: "entry list \<Rightarrow> byte list" where
  "encode_log es = concat (map encode_entry es)"

definition log_size :: "entry list \<Rightarrow> nat" where
  "log_size es = sum_list (map ent_size es)"

fun log_positions :: "nat \<Rightarrow> entry list \<Rightarrow> (nat \<times> entry) list" where
  "log_positions pos [] = []"
| "log_positions pos (e # es) = (pos, e) # log_positions (pos + ent_size e) es"

definition encode_hints :: "(nat \<times> entry) list \<Rightarrow> byte list" where
  "encode_hints hs = concat (map (\<lambda>(pos, e). encode_hint pos e) hs)"

lemma encode_log_simps [simp, codec_simps]:
  "encode_log [] = []" "encode_log (e # es) = encode_entry e @ encode_log es"
  "encode_log (es @ fs) = encode_log es @ encode_log fs"
  by (simp_all add: encode_log_def)

lemma log_size_simps [simp]:
  "log_size [] = 0" "log_size (e # es) = ent_size e + log_size es"
  "log_size (es @ fs) = log_size es + log_size fs"
  by (simp_all add: log_size_def)

lemma length_encode_log [simp, codec_simps]: "length (encode_log es) = log_size es"
  by (induction es) simp_all

lemma log_positions_append [simp]:
  "log_positions pos (es @ fs) = log_positions pos es @ log_positions (pos + log_size es) fs"
  by (induction es arbitrary: pos) (simp_all add: add.assoc)

lemma encode_hints_simps [simp]:
  "encode_hints [] = []" "encode_hints ((pos, e) # hs) = encode_hint pos e @ encode_hints hs"
  "encode_hints (hs @ gs) = encode_hints hs @ encode_hints gs"
  by (simp_all add: encode_hints_def)

lemma map_snd_log_positions [simp]: "map snd (log_positions pos es) = es"
  by (induction es arbitrary: pos) auto

section \<open>Properties\<close>

text \<open>
  A record that was created reads back as the caller's data: the header has the timestamp, the
  sizes and the checksum, and key and value are the first bytes of the caller's buffers.
\<close>

theorem record_round_trip:
  assumes "buffers_ok key ksize val vsize"
    and "ccask_create_datafile_record crc32 ts key ksize val vsize w = Some ((CCASK_OK, r), w')"
  shows "ccask_get_datafile_record_header r = \<lparr>crc = calculate_crc32 crc32 ts ksize vsize (Some key) val,
      timestamp = ts, key_size = ksize, value_size = vsize\<rparr>
    \<and> ccask_get_datafile_record_key r = take (unat ksize) key
    \<and> ccask_get_datafile_record_value r = take (unat vsize) (bytes_of val)"
proof -
  have r: "r = ent_record (new_entry crc32 ts key ksize val vsize)"
    using assms(2) by (auto simp: ccask_create_datafile_record_result [OF assms(1)] split: prod.splits if_splits)
  have "length (take (unat ksize) key) = unat ksize" "length (take (unat vsize) (bytes_of val)) = unat vsize"
    using assms(1) by (simp_all add: buffers_ok_def)
  then show ?thesis by (simp add: r ent_header_def) (simp add: new_entry_def)
qed

theorem record_round_trip_witness:
  "\<exists>r. ccask_create_datafile_record (\<lambda>c b. c + 1) 5 [1, 2] 2 (Some [3]) 1 quiet_posix = Some ((CCASK_OK, r), quiet_posix)
    \<and> ccask_get_datafile_record_key r = [1, 2] \<and> ccask_get_datafile_record_value r = [3]"
proof -
  have b: "buffers_ok [1, 2] 2 (Some [3]) 1" by (simp add: buffers_ok_def bytes_of_def)
  have c: "ccask_create_datafile_record (\<lambda>c b. c + 1) 5 [1, 2] 2 (Some [3]) 1 quiet_posix
    = Some ((CCASK_OK, ent_record (new_entry (\<lambda>c b. c + 1) 5 [1, 2] 2 (Some [3]) 1)), quiet_posix)"
    by (simp add: ccask_create_datafile_record_result [OF b] numeral_3_eq_3 sys_malloc_no_fault quiet_posix_def)
  from c record_round_trip [OF b c] show ?thesis by (auto simp: bytes_of_def)
qed


definition small_entry :: entry where
  "small_entry = \<lparr>ent_crc = 0, ent_timestamp = 7, ent_key = [1, 2], ent_value = [3]\<rparr>"


lemma safe_writev_tombstone:
  assumes "ent_value e = []" and "open_fds w fd = Some d" and "fd_writable d"
    and "\<forall>f \<in> set (fault_script w). \<forall>err. f = Fault err \<longrightarrow> retry_errno err"
    and "length (inode_data w (fd_inode d)) + ent_size e \<le> max_file_size" and "0 \<le> fd"
  shows "safe_writev fd (datafile_record_iov (ent_record e)) w = None"
proof (cases "safe_writev_loop fd (datafile_record_iov (ent_record e)) w")
  case None
  then show ?thesis using assms(6) by (simp add: safe_writev_def datafile_record_iov_def)
next
  case (Some r)
  have False
    by (rule safe_writev_loop_stuck [OF Some _ _ ent_record_wf assms(4,2,3)])
       (use assms(1,5) in \<open>simp_all add: datafile_record_iov_def ent_record_def encode_entry_def ent_size_def\<close>)
  then show ?thesis ..
qed

text \<open>
  Writing a tombstone, a record with an empty value, never returns unless the system reports a
  permanent error: after everything has been written the empty last vector keeps the loop going.
\<close>

theorem tombstone_write_diverges:
  assumes "ent_value e = []" and "open_fds w fd = Some d" and "fd_writable d"
    and "\<forall>f \<in> set (fault_script w). \<forall>err. f = Fault err \<longrightarrow> retry_errno err"
    and "length (inode_data w (fd_inode d)) + ent_size e \<le> max_file_size" and "0 \<le> fd"
  shows "safe_writev fd (datafile_record_iov (ent_record e)) w = None"
  using assms by (rule safe_writev_tombstone)

theorem tombstone_write_diverges_witness:
  "safe_writev 3 (datafile_record_iov (ent_record (small_entry\<lparr>ent_value := []\<rparr>))) one_file_posix = None"
  by (rule tombstone_write_diverges [where d = "\<lparr>fd_inode = 0, fd_writable = True\<rparr>"])
     (simp_all add: one_file_posix_def quiet_posix_def small_entry_def ent_size_def max_file_size_def)

end
