(* ===== verification/Uthash.thy ===== *)
theory Uthash
  imports Posix
begin

text \<open>
  vendor/uthash/uthash.h, the hash table behind the key directory and the file table.  A table is
  the handle of its first element or NULL; the model keeps the elements in application order (the
  \<open>prev\<close>/\<open>next\<close> list), the bucket array with its chains, and the counters of \<open>UT_hash_table\<close>.  An
  element is identified by its address, the type variable \<open>'e\<close>.  The counters are natural numbers:
  a 32-bit counter would need 2^32 elements to wrap.

  The locale \<open>keyed_table\<close> is the interface that the clients use; it is interpreted on this model.
\<close>

section \<open>The hash function\<close>

definition jen_mix :: "u32 \<times> u32 \<times> u32 \<Rightarrow> u32 \<times> u32 \<times> u32" where
  "jen_mix abc = (case abc of (a, b, c) \<Rightarrow>
     (let a = a - b; a = a - c; a = a XOR drop_bit 13 c;
          b = b - c; b = b - a; b = b XOR push_bit 8 a;
          c = c - a; c = c - b; c = c XOR drop_bit 13 b;
          a = a - b; a = a - c; a = a XOR drop_bit 12 c;
          b = b - c; b = b - a; b = b XOR push_bit 16 a;
          c = c - a; c = c - b; c = c XOR drop_bit 5 b;
          a = a - b; a = a - c; a = a XOR drop_bit 3 c;
          b = b - c; b = b - a; b = b XOR push_bit 10 a;
          c = c - a; c = c - b; c = c XOR drop_bit 15 b
      in (a, b, c)))"

text \<open>Byte \<open>n\<close> of the key shifted left, or nothing when the key is shorter.\<close>

definition key_byte :: "byte list \<Rightarrow> nat \<Rightarrow> nat \<Rightarrow> u32" where
  "key_byte key n sh = (if n < length key then push_bit sh (ucast (key ! n)) else 0)"

definition key_word :: "byte list \<Rightarrow> nat \<Rightarrow> u32" where
  "key_word key n = key_byte key n 0 + key_byte key (n + 1) 8 + key_byte key (n + 2) 16
     + key_byte key (n + 3) 24"

fun jen_loop :: "u32 \<Rightarrow> u32 \<Rightarrow> u32 \<Rightarrow> byte list \<Rightarrow> (u32 \<times> u32 \<times> u32) \<times> byte list" where
  "jen_loop i j hashv key =
     (if 12 \<le> length key
      then case jen_mix (i + key_word key 0, j + key_word key 4, hashv + key_word key 8) of
             (i', j', hashv') \<Rightarrow> jen_loop i' j' hashv' (drop 12 key)
      else ((i, j, hashv), key))"

declare jen_loop.simps [simp del]

text \<open>The \<open>switch\<close> falls through, so a remainder of \<open>k\<close> bytes adds bytes \<open>k - 1\<close> down to 0.\<close>

definition hash_jen :: "byte list \<Rightarrow> u32" where
  "hash_jen key =
     (case jen_loop 0x9e3779b9 0x9e3779b9 0xfeedbeef key of ((i, j, hashv), rest) \<Rightarrow>
        let hashv = hashv + of_nat (length key)
              + key_byte rest 10 24 + key_byte rest 9 16 + key_byte rest 8 8;
            j = j + key_byte rest 7 24 + key_byte rest 6 16 + key_byte rest 5 8 + key_byte rest 4 0;
            i = i + key_byte rest 3 24 + key_byte rest 2 16 + key_byte rest 1 8 + key_byte rest 0 0
        in snd (snd (jen_mix (i, j, hashv))))"


section \<open>Tables\<close>

record 'e hash_handle =
  hh_elem :: 'e
  hh_key :: "byte list"
  hh_hashv :: u32

record 'e hash_bucket =
  bkt_chain :: "'e hash_handle list"
  bkt_count :: nat
  expand_mult :: nat

record 'e hash_table =
  ut_items :: "'e hash_handle list"
  ut_buckets :: "'e hash_bucket list"
  num_buckets :: nat
  log2_num_buckets :: nat
  num_items :: nat
  ideal_chain_maxlen :: nat
  nonideal_items :: nat
  ineff_expands :: nat
  noexpand :: bool

type_synonym 'e uthash = "'e hash_table option"

definition HASH_INITIAL_NUM_BUCKETS :: nat where
  "HASH_INITIAL_NUM_BUCKETS = 32"

definition HASH_INITIAL_NUM_BUCKETS_LOG2 :: nat where
  "HASH_INITIAL_NUM_BUCKETS_LOG2 = 5"

definition HASH_BKT_CAPACITY_THRESH :: nat where
  "HASH_BKT_CAPACITY_THRESH = 10"

definition hash_to_bkt :: "u32 \<Rightarrow> nat \<Rightarrow> nat" where
  "hash_to_bkt hashv num_bkts = unat (hashv AND (of_nat num_bkts - 1))"

definition empty_bucket :: "'e hash_bucket" where
  "empty_bucket = \<lparr>bkt_chain = [], bkt_count = 0, expand_mult = 0\<rparr>"

fun hash_find_in_bkt :: "'e hash_handle list \<Rightarrow> byte list \<Rightarrow> u32 \<Rightarrow> 'e option" where
  "hash_find_in_bkt [] key hashv = None"
| "hash_find_in_bkt (h # hs) key hashv =
     (if hh_hashv h = hashv \<and> length (hh_key h) = length key \<and> hh_key h = key then Some (hh_elem h)
      else hash_find_in_bkt hs key hashv)"

definition hash_find :: "'e uthash \<Rightarrow> byte list \<Rightarrow> 'e option" where
  "hash_find head key = (case head of
      None \<Rightarrow> None
    | Some t \<Rightarrow>
        (let hashv = hash_jen key; bkt = hash_to_bkt hashv (num_buckets t)
         in hash_find_in_bkt (bkt_chain (ut_buckets t ! bkt)) key hashv))"

definition hash_make_table :: "'e hash_handle \<Rightarrow> 'e hash_table" where
  "hash_make_table h =
     \<lparr>ut_items = [h], ut_buckets = replicate HASH_INITIAL_NUM_BUCKETS empty_bucket,
      num_buckets = HASH_INITIAL_NUM_BUCKETS, log2_num_buckets = HASH_INITIAL_NUM_BUCKETS_LOG2,
      num_items = 0, ideal_chain_maxlen = 0, nonideal_items = 0, ineff_expands = 0, noexpand = False\<rparr>"

text \<open>Bucket expansion: one handle moves to the head of its chain in the new bucket array.\<close>

definition hash_move_item ::
  "nat \<Rightarrow> nat \<Rightarrow> 'e hash_handle \<Rightarrow> 'e hash_bucket list \<times> nat \<Rightarrow> 'e hash_bucket list \<times> nat" where
  "hash_move_item ideal n h st = (case st of (bkts, nonideal) \<Rightarrow>
     (let b = hash_to_bkt (hh_hashv h) n;
          nb = bkts ! b;
          count = bkt_count nb + 1;
          nonideal' = (if count > ideal then nonideal + 1 else nonideal);
          mult = (if count > ideal \<and> count > expand_mult nb * ideal
                  then expand_mult nb + 1 else expand_mult nb)
      in (bkts[b := \<lparr>bkt_chain = h # bkt_chain nb, bkt_count = count, expand_mult = mult\<rparr>], nonideal')))"

definition hash_expand_buckets :: "'e hash_table \<Rightarrow> 'e hash_table" where
  "hash_expand_buckets t =
     (let n = num_buckets t * 2;
          ideal = num_items t div 2 ^ (log2_num_buckets t + 1)
                    + (if num_items t mod n \<noteq> 0 then 1 else 0);
          (bkts, nonideal) = fold (hash_move_item ideal n) (concat (map bkt_chain (ut_buckets t)))
                               (replicate n empty_bucket, 0);
          ineff = (if nonideal > num_items t div 2 then ineff_expands t + 1 else 0)
      in t\<lparr>ut_buckets := bkts, num_buckets := n, log2_num_buckets := log2_num_buckets t + 1,
           ideal_chain_maxlen := ideal, nonideal_items := nonideal, ineff_expands := ineff,
           noexpand := (noexpand t \<or> ineff > 1)\<rparr>)"

definition bucket_push :: "'e hash_handle \<Rightarrow> 'e hash_bucket \<Rightarrow> 'e hash_bucket" where
  "bucket_push h b = b\<lparr>bkt_chain := h # bkt_chain b, bkt_count := bkt_count b + 1\<rparr>"

text \<open>Whether adding a handle to its bucket triggers an expansion.\<close>

definition hash_add_expands :: "'e hash_handle \<Rightarrow> 'e hash_table \<Rightarrow> bool" where
  "hash_add_expands h t =
     (let b = ut_buckets t ! hash_to_bkt (hh_hashv h) (num_buckets t)
      in (expand_mult b + 1) * HASH_BKT_CAPACITY_THRESH \<le> bkt_count b + 1 \<and> \<not> noexpand t)"

definition hash_add_to_table :: "'e hash_handle \<Rightarrow> 'e hash_table \<Rightarrow> 'e hash_table" where
  "hash_add_to_table h t =
     (let i = hash_to_bkt (hh_hashv h) (num_buckets t);
          t' = t\<lparr>num_items := num_items t + 1,
                 ut_buckets := (ut_buckets t)[i := bucket_push h (ut_buckets t ! i)]\<rparr>
      in if hash_add_expands h t then hash_expand_buckets t' else t')"

definition new_handle :: "byte list \<Rightarrow> 'e \<Rightarrow> 'e hash_handle" where
  "new_handle key e = \<lparr>hh_elem = e, hh_key = key, hh_hashv = hash_jen key\<rparr>"

definition hash_add :: "byte list \<Rightarrow> 'e \<Rightarrow> 'e uthash \<Rightarrow> 'e uthash" where
  "hash_add key e head =
     (let h = new_handle key e in case head of
        None \<Rightarrow> Some (hash_add_to_table h (hash_make_table h))
      | Some t \<Rightarrow> Some (hash_add_to_table h (t\<lparr>ut_items := ut_items t @ [h]\<rparr>)))"

text \<open>
  The allocations of an addition: the table and its bucket array for the first element, a new bucket
  array when the addition expands.  A failed one ends the process (\<open>uthash_fatal\<close>).
\<close>

definition hash_add_allocs :: "byte list \<Rightarrow> 'e \<Rightarrow> 'e uthash \<Rightarrow> nat" where
  "hash_add_allocs key e head = (case head of
      None \<Rightarrow> 2
    | Some t \<Rightarrow> if hash_add_expands (new_handle key e) t then 1 else 0)"

definition hash_add_keyptr ::
  "byte list \<Rightarrow> 'e \<Rightarrow> 'e uthash \<Rightarrow> 'a posix_scheme \<Rightarrow> ('e uthash \<times> 'a posix_scheme) option" where
  "hash_add_keyptr key e head w =
     (let (ok, w') = sys_mallocs (hash_add_allocs key e head) w
      in if ok then Some (hash_add key e head, w') else None)"

definition bucket_remove :: "'e \<Rightarrow> 'e hash_bucket \<Rightarrow> 'e hash_bucket" where
  "bucket_remove e b =
     b\<lparr>bkt_chain := filter (\<lambda>h. hh_elem h \<noteq> e) (bkt_chain b), bkt_count := bkt_count b - 1\<rparr>"

text \<open>\<open>HASH_DEL\<close> of an element of the table.\<close>

definition hash_del :: "'e \<Rightarrow> 'e uthash \<Rightarrow> 'e uthash" where
  "hash_del e head = (case head of
      None \<Rightarrow> None
    | Some t \<Rightarrow> (case filter (\<lambda>h. hh_elem h = e) (ut_items t) of
        [] \<Rightarrow> Some t
      | h # _ \<Rightarrow>
          (if length (ut_items t) = 1 then None
           else let i = hash_to_bkt (hh_hashv h) (num_buckets t)
                in Some (t\<lparr>ut_items := filter (\<lambda>h. hh_elem h \<noteq> e) (ut_items t),
                           ut_buckets := (ut_buckets t)[i := bucket_remove e (ut_buckets t ! i)],
                           num_items := num_items t - 1\<rparr>))))"

text \<open>The elements in application order, as \<open>HASH_ITER\<close> and \<open>hh.next\<close> see them.\<close>

definition hash_elems :: "'e uthash \<Rightarrow> (byte list \<times> 'e) list" where
  "hash_elems head = (case head of
      None \<Rightarrow> []
    | Some t \<Rightarrow> map (\<lambda>h. (hh_key h, hh_elem h)) (ut_items t))"

fun next_in :: "'e \<Rightarrow> 'e list \<Rightarrow> 'e option" where
  "next_in e [] = None"
| "next_in e (x # xs) = (if x = e then (case xs of [] \<Rightarrow> None | y # _ \<Rightarrow> Some y) else next_in e xs)"

definition hash_first :: "'e uthash \<Rightarrow> 'e option" where
  "hash_first head = (case map snd (hash_elems head) of [] \<Rightarrow> None | e # _ \<Rightarrow> Some e)"

definition hash_next :: "'e \<Rightarrow> 'e uthash \<Rightarrow> 'e option" where
  "hash_next e head = next_in e (map snd (hash_elems head))"


section \<open>Invariant\<close>

text \<open>
  What \<open>HASH_FSCK\<close> checks, and what lookups rely on: every element is in the chain of its hash
  value's bucket and nowhere else, the counts are the lengths, keys and elements are distinct.
\<close>

definition in_bucket :: "'e hash_table \<Rightarrow> nat \<Rightarrow> 'e hash_handle set" where
  "in_bucket t i = {h \<in> set (ut_items t). hash_to_bkt (hh_hashv h) (num_buckets t) = i}"

definition buckets_hold :: "nat \<Rightarrow> 'e hash_handle set \<Rightarrow> 'e hash_bucket list \<Rightarrow> bool" where
  "buckets_hold n S bkts \<longleftrightarrow> length bkts = n \<and>
     (\<forall>i < n. set (bkt_chain (bkts ! i)) = {h \<in> S. hash_to_bkt (hh_hashv h) n = i}
            \<and> distinct (bkt_chain (bkts ! i))
            \<and> bkt_count (bkts ! i) = length (bkt_chain (bkts ! i)))"

definition table_inv :: "'e hash_table \<Rightarrow> bool" where
  "table_inv t \<longleftrightarrow>
     num_buckets t = 2 ^ log2_num_buckets t
     \<and> ut_items t \<noteq> []
     \<and> num_items t = length (ut_items t)
     \<and> distinct (map hh_key (ut_items t)) \<and> distinct (map hh_elem (ut_items t))
     \<and> (\<forall>h \<in> set (ut_items t). hh_hashv h = hash_jen (hh_key h))
     \<and> buckets_hold (num_buckets t) (set (ut_items t)) (ut_buckets t)"

definition uthash_inv :: "'e uthash \<Rightarrow> bool" where
  "uthash_inv head \<longleftrightarrow> (case head of None \<Rightarrow> True | Some t \<Rightarrow> table_inv t)"

lemma uthash_inv_None [simp]: "uthash_inv None"
  by (simp add: uthash_inv_def)

lemma hash_to_bkt_less: "hash_to_bkt hashv (2 ^ l) < 2 ^ l"
proof -
  have "(of_nat (2 ^ l) - 1 :: u32) = mask l" by (simp add: mask_eq_exp_minus_1)
  then have "hash_to_bkt hashv (2 ^ l) = unat (take_bit l hashv)"
    by (simp add: hash_to_bkt_def take_bit_eq_mask)
  also have "\<dots> = take_bit l (unat hashv)" by (simp add: unsigned_take_bit_eq)
  also have "\<dots> < 2 ^ l" by simp
  finally show ?thesis .
qed

lemma hash_move_item_hold:
  assumes "buckets_hold n S bkts" and "h \<notin> S" and "n = 2 ^ l"
    and "hash_move_item ideal n h (bkts, k) = (bkts', k')"
  shows "buckets_hold n (insert h S) bkts'"
proof -
  have b: "hash_to_bkt (hh_hashv h) n < n" using assms(3) hash_to_bkt_less by simp
  let ?b = "hash_to_bkt (hh_hashv h) n"
  have h: "h \<notin> set (bkt_chain (bkts ! ?b))" using assms(1,2) b by (auto simp: buckets_hold_def)
  obtain m where "bkts' = bkts[?b := \<lparr>bkt_chain = h # bkt_chain (bkts ! ?b),
      bkt_count = bkt_count (bkts ! ?b) + 1, expand_mult = m\<rparr>]"
    using assms(4) by (auto simp: hash_move_item_def Let_def)
  with assms(1) b h show ?thesis
    by (auto simp: buckets_hold_def nth_list_update)
qed

lemma fold_hash_move_item_hold:
  assumes "buckets_hold n S (fst st)" and "n = 2 ^ l"
    and "distinct hs" and "set hs \<inter> S = {}"
  shows "buckets_hold n (S \<union> set hs) (fst (fold (hash_move_item ideal n) hs st))"
  using assms
proof (induction hs arbitrary: S st)
  case (Cons h hs)
  obtain bkts k where st: "st = (bkts, k)" by fastforce
  have "buckets_hold n (insert h S) (fst (hash_move_item ideal n h st))"
    using hash_move_item_hold [of n S bkts h l ideal k] Cons.prems st
    by (metis disjoint_iff fst_conv list.set_intros(1) prod.collapse)
  then have "buckets_hold n (insert h S \<union> set hs)
      (fst (fold (hash_move_item ideal n) hs (hash_move_item ideal n h st)))"
    using Cons by (intro Cons.IH) auto
  then show ?case by simp
qed simp

lemma distinct_concat_nth:
  assumes "\<And>i. i < length xss \<Longrightarrow> distinct (xss ! i)"
    and "\<And>i j. i < length xss \<Longrightarrow> j < length xss \<Longrightarrow> i \<noteq> j \<Longrightarrow> set (xss ! i) \<inter> set (xss ! j) = {}"
  shows "distinct (concat xss)"
  using assms
proof (induction xss)
  case (Cons xs xss)
  have "distinct (concat xss)"
  proof (rule Cons.IH)
    show "distinct (xss ! i)" if "i < length xss" for i
      using Cons.prems(1) [of "Suc i"] that by simp
    show "set (xss ! i) \<inter> set (xss ! j) = {}" if "i < length xss" "j < length xss" "i \<noteq> j" for i j
      using Cons.prems(2) [of "Suc i" "Suc j"] that by simp
  qed
  moreover have "set xs \<inter> set (concat xss) = {}"
  proof -
    have "set xs \<inter> set ys = {}" if ys: "ys \<in> set xss" for ys
    proof -
      from ys obtain j where "j < length xss" "ys = xss ! j" by (auto simp: in_set_conv_nth)
      then show ?thesis using Cons.prems(2) [of 0 "Suc j"] by simp
    qed
    then show ?thesis by auto
  qed
  ultimately show ?case using Cons.prems(1) [of 0] by simp
qed simp

lemma buckets_hold_concat:
  assumes "buckets_hold n S bkts" and "n = 2 ^ l"
  shows "distinct (concat (map bkt_chain bkts))" and "set (concat (map bkt_chain bkts)) = S"
proof -
  show "distinct (concat (map bkt_chain bkts))"
    using assms(1) by (intro distinct_concat_nth) (auto simp: buckets_hold_def)
  show "set (concat (map bkt_chain bkts)) = S"
  proof
    show "set (concat (map bkt_chain bkts)) \<subseteq> S"
      using assms(1) by (auto simp: buckets_hold_def in_set_conv_nth [of _ bkts])
    show "S \<subseteq> set (concat (map bkt_chain bkts))"
    proof
      fix h assume h: "h \<in> S"
      let ?i = "hash_to_bkt (hh_hashv h) n"
      have "?i < n" using assms(2) hash_to_bkt_less by simp
      with h assms(1) have "h \<in> set (bkt_chain (bkts ! ?i))" "?i < length bkts"
        by (auto simp: buckets_hold_def)
      then show "h \<in> set (concat (map bkt_chain bkts))" by (auto intro: nth_mem)
    qed
  qed
qed

lemma buckets_hold_empty: "buckets_hold n {} (replicate n empty_bucket)"
  by (simp add: buckets_hold_def empty_bucket_def)

lemma hash_expand_buckets_hold:
  assumes "buckets_hold (num_buckets t) S (ut_buckets t)"
    and "num_buckets t = 2 ^ log2_num_buckets t"
  shows "buckets_hold (num_buckets (hash_expand_buckets t)) S (ut_buckets (hash_expand_buckets t))"
    and "num_buckets (hash_expand_buckets t) = 2 ^ log2_num_buckets (hash_expand_buckets t)"
    and "ut_items (hash_expand_buckets t) = ut_items t"
    and "num_items (hash_expand_buckets t) = num_items t"
proof -
  let ?n = "num_buckets t * 2"
  let ?ideal = "num_items t div 2 ^ (log2_num_buckets t + 1) + (if num_items t mod ?n \<noteq> 0 then 1 else 0)"
  let ?st = "fold (hash_move_item ?ideal ?n) (concat (map bkt_chain (ut_buckets t)))
    (replicate ?n empty_bucket, 0)"
  have n: "?n = 2 ^ (log2_num_buckets t + 1)" using assms(2) by simp
  note chains = buckets_hold_concat [OF assms]
  have "buckets_hold ?n ({} \<union> set (concat (map bkt_chain (ut_buckets t)))) (fst ?st)"
    using chains(1) by (intro fold_hash_move_item_hold [OF _ n]) (simp_all add: buckets_hold_empty)
  then have "buckets_hold ?n S (fst ?st)" using chains(2) by simp
  moreover obtain bkts k where st: "?st = (bkts, k)" by fastforce
  moreover have "ut_buckets (hash_expand_buckets t) = bkts" "num_buckets (hash_expand_buckets t) = ?n"
    "log2_num_buckets (hash_expand_buckets t) = log2_num_buckets t + 1"
    "ut_items (hash_expand_buckets t) = ut_items t" "num_items (hash_expand_buckets t) = num_items t"
    unfolding hash_expand_buckets_def Let_def st prod.case by simp_all
  ultimately show "buckets_hold (num_buckets (hash_expand_buckets t)) S (ut_buckets (hash_expand_buckets t))"
    and "num_buckets (hash_expand_buckets t) = 2 ^ log2_num_buckets (hash_expand_buckets t)"
    and "ut_items (hash_expand_buckets t) = ut_items t"
    and "num_items (hash_expand_buckets t) = num_items t"
    using n by (simp_all only: fst_conv)
qed

text \<open>Adding a handle that the items already list: the buckets catch up with the items.\<close>

lemma hash_add_to_table_inv:
  assumes "num_buckets t = 2 ^ log2_num_buckets t" and "ut_items t = hs @ [h]"
    and "num_items t = length hs"
    and "distinct (map hh_key (ut_items t))" and "distinct (map hh_elem (ut_items t))"
    and "\<forall>h \<in> set (ut_items t). hh_hashv h = hash_jen (hh_key h)"
    and "buckets_hold (num_buckets t) (set hs) (ut_buckets t)"
  shows "table_inv (hash_add_to_table h t)" and "ut_items (hash_add_to_table h t) = ut_items t"
proof -
  let ?i = "hash_to_bkt (hh_hashv h) (num_buckets t)"
  let ?t = "t\<lparr>num_items := num_items t + 1,
              ut_buckets := (ut_buckets t)[?i := bucket_push h (ut_buckets t ! ?i)]\<rparr>"
  have i: "?i < num_buckets t" using assms(1) hash_to_bkt_less by simp
  have h: "h \<notin> set hs" using assms(2,4) by (auto simp: distinct_map)
  then have "h \<notin> set (bkt_chain (ut_buckets t ! ?i))"
    using assms(7) i by (auto simp: buckets_hold_def)
  with assms(7) i have "buckets_hold (num_buckets t) (insert h (set hs)) (ut_buckets ?t)"
    by (auto simp: buckets_hold_def bucket_push_def nth_list_update)
  then have hold: "buckets_hold (num_buckets ?t) (set (ut_items ?t)) (ut_buckets ?t)"
    using assms(2) by simp
  have pow: "num_buckets ?t = 2 ^ log2_num_buckets ?t" using assms(1) by simp
  note ex = hash_expand_buckets_hold [OF hold pow]
  have tab: "hash_add_to_table h t = (if hash_add_expands h t then hash_expand_buckets ?t else ?t)"
    by (simp add: hash_add_to_table_def Let_def)
  show "ut_items (hash_add_to_table h t) = ut_items t" using tab ex(3) by simp
  show "table_inv (hash_add_to_table h t)"
  proof (cases "hash_add_expands h t")
    case True
    with tab ex assms(2-6) show ?thesis by (simp add: table_inv_def)
  next
    case False
    with tab hold pow assms(2-6) show ?thesis by (simp add: table_inv_def)
  qed
qed

lemma hash_elems_simps [simp]:
  "hash_elems None = []"
  "hash_elems (Some t) = map (\<lambda>h. (hh_key h, hh_elem h)) (ut_items t)"
  by (simp_all add: hash_elems_def)

lemma hash_add_inv:
  assumes "uthash_inv head" and "k \<notin> fst ` set (hash_elems head)" and "e \<notin> snd ` set (hash_elems head)"
  shows "uthash_inv (hash_add k e head)" and "hash_elems (hash_add k e head) = hash_elems head @ [(k, e)]"
proof -
  let ?h = "new_handle k e"
  have h [simp]: "hh_key ?h = k" "hh_elem ?h = e" "hh_hashv ?h = hash_jen k"
    by (simp_all add: new_handle_def)
  have "uthash_inv (hash_add k e head) \<and> hash_elems (hash_add k e head) = hash_elems head @ [(k, e)]"
  proof (cases head)
    case None
    let ?t = "hash_make_table ?h"
    have "table_inv (hash_add_to_table ?h ?t)" "ut_items (hash_add_to_table ?h ?t) = ut_items ?t"
      by (intro hash_add_to_table_inv [of ?t "[]"];
          simp add: hash_make_table_def HASH_INITIAL_NUM_BUCKETS_def HASH_INITIAL_NUM_BUCKETS_LOG2_def
            buckets_hold_empty)+
    with None show ?thesis
      by (simp add: hash_add_def uthash_inv_def hash_make_table_def Let_def)
  next
    case (Some t)
    let ?t = "t\<lparr>ut_items := ut_items t @ [?h]\<rparr>"
    have inv: "table_inv t" using assms(1) Some by (simp add: uthash_inv_def)
    have fresh: "k \<notin> hh_key ` set (ut_items t)" "e \<notin> hh_elem ` set (ut_items t)"
      using assms(2,3) Some by force+
    have "table_inv (hash_add_to_table ?h ?t)" "ut_items (hash_add_to_table ?h ?t) = ut_items ?t"
      using inv fresh
      by (intro hash_add_to_table_inv [of ?t "ut_items t"]; auto simp: table_inv_def)+
    with Some show ?thesis by (simp add: hash_add_def uthash_inv_def Let_def)
  qed
  then show "uthash_inv (hash_add k e head)" and "hash_elems (hash_add k e head) = hash_elems head @ [(k, e)]"
    by simp_all
qed

lemma hash_find_in_bkt_spec:
  assumes "distinct (map hh_key hs)" and "\<forall>h \<in> set hs. hh_hashv h = hash_jen (hh_key h)"
  shows "hash_find_in_bkt hs key (hash_jen key) = map_of (map (\<lambda>h. (hh_key h, hh_elem h)) hs) key"
  using assms by (induction hs) auto

lemma hash_find_elems:
  assumes "uthash_inv head"
  shows "hash_find head key = map_of (hash_elems head) key"
proof (cases head)
  case (Some t)
  have inv: "table_inv t" using assms Some by (simp add: uthash_inv_def)
  let ?f = "\<lambda>h. (hh_key h, hh_elem h)"
  let ?i = "hash_to_bkt (hash_jen key) (num_buckets t)"
  let ?c = "bkt_chain (ut_buckets t ! ?i)"
  have "?i < num_buckets t" using inv hash_to_bkt_less by (simp add: table_inv_def)
  then have c: "set ?c = {h \<in> set (ut_items t). hash_to_bkt (hh_hashv h) (num_buckets t) = ?i}"
    "distinct ?c"
    using inv by (simp_all add: table_inv_def buckets_hold_def)
  have keys: "distinct (map hh_key (ut_items t))" and hv: "\<forall>h \<in> set (ut_items t). hh_hashv h = hash_jen (hh_key h)"
    using inv by (simp_all add: table_inv_def)
  have dc: "distinct (map hh_key ?c)"
    using c keys by (auto simp: distinct_map inj_on_def)
  have "map_of (map ?f ?c) key = map_of (map ?f (ut_items t)) key"
  proof (cases "map_of (map ?f (ut_items t)) key")
    case None
    then have "key \<notin> hh_key ` set (ut_items t)" by (force simp: map_of_eq_None_iff)
    with c(1) have "map_of (map ?f ?c) key = None" by (auto simp: map_of_eq_None_iff)
    then show ?thesis by (simp only: None)
  next
    case (Some e)
    then obtain h where h: "h \<in> set (ut_items t)" "hh_key h = key" "hh_elem h = e"
      by (auto dest!: map_of_SomeD)
    with hv c(1) have "h \<in> set ?c" by auto
    with h have "(key, e) \<in> set (map ?f ?c)" by force
    moreover have "distinct (map fst (map ?f ?c))" using dc by (simp add: comp_def)
    ultimately show ?thesis using Some by simp
  qed
  moreover have "\<forall>h \<in> set ?c. hh_hashv h = hash_jen (hh_key h)" using c(1) hv by auto
  ultimately show ?thesis
    using Some dc by (simp add: hash_find_def Let_def hash_find_in_bkt_spec)
qed (simp add: hash_find_def)

lemma buckets_hold_remove:
  assumes "buckets_hold n S bkts" and "h \<in> S" and "i = hash_to_bkt (hh_hashv h) n" and "i < n"
    and "hh_elem h = e" and uniq: "\<And>x. x \<in> S \<Longrightarrow> hh_elem x = e \<Longrightarrow> x = h"
  shows "buckets_hold n (S - {h}) (bkts[i := bucket_remove e (bkts ! i)])"
proof -
  let ?c = "bkt_chain (bkts ! i)"
  have c: "set ?c = {x \<in> S. hash_to_bkt (hh_hashv x) n = i}" "distinct ?c" "h \<in> set ?c"
    using assms(1-4) by (simp_all add: buckets_hold_def)
  have rem: "filter (\<lambda>x. hh_elem x \<noteq> e) ?c = remove1 h ?c"
  proof -
    have "filter (\<lambda>x. hh_elem x \<noteq> e) ?c = filter (\<lambda>x. h \<noteq> x) ?c"
      by (rule filter_cong [OF refl]) (use c(1) uniq assms(5) in blast)
    also have "\<dots> = removeAll h ?c" by (simp only: removeAll_filter_not_eq)
    also have "\<dots> = remove1 h ?c" using c(2) by (simp only: distinct_remove1_removeAll)
    finally show ?thesis .
  qed
  have "bkt_chain (bucket_remove e (bkts ! i)) = remove1 h ?c"
    "bkt_count (bucket_remove e (bkts ! i)) = bkt_count (bkts ! i) - 1"
    by (simp_all add: bucket_remove_def rem)
  moreover have "length (remove1 h ?c) = length ?c - 1" using c(3) by (simp add: length_remove1)
  ultimately show ?thesis
    using assms(1,3,4) c(2) by (auto simp: buckets_hold_def nth_list_update)
qed

lemma hash_del_inv:
  assumes "uthash_inv head" and "e \<in> snd ` set (hash_elems head)"
  shows "uthash_inv (hash_del e head)"
    and "hash_elems (hash_del e head) = filter (\<lambda>(k, x). x \<noteq> e) (hash_elems head)"
proof -
  obtain t where t: "head = Some t" using assms(2) by (cases head) auto
  have inv: "table_inv t" using assms(1) t by (simp add: uthash_inv_def)
  obtain h where h: "h \<in> set (ut_items t)" "hh_elem h = e" using assms(2) t by force
  have one: "filter (\<lambda>x. hh_elem x = e) (ut_items t) = [h]"
  proof -
    have d: "distinct (map hh_elem (ut_items t))" using inv by (simp add: table_inv_def)
    from h obtain ys zs where yz: "ut_items t = ys @ h # zs" by (auto simp: in_set_conv_decomp)
    with d h have "e \<notin> hh_elem ` set ys" "e \<notin> hh_elem ` set zs" by auto
    then have "filter (\<lambda>x. hh_elem x = e) ys = []" "filter (\<lambda>x. hh_elem x = e) zs = []"
      by (force simp: filter_empty_conv)+
    with yz h show ?thesis by simp
  qed
  have uniq: "x = h" if "x \<in> set (ut_items t)" "hh_elem x = e" for x
  proof -
    from that have "x \<in> set (filter (\<lambda>x. hh_elem x = e) (ut_items t))" by simp
    with one show ?thesis by simp
  qed
  have filt: "hash_elems (Some t') = filter (\<lambda>(k, x). x \<noteq> e) (hash_elems (Some t))"
    if "ut_items t' = filter (\<lambda>h. hh_elem h \<noteq> e) (ut_items t)" for t' :: "'a hash_table"
    using that by (simp add: filter_map comp_def)
  have "uthash_inv (hash_del e head)
    \<and> hash_elems (hash_del e head) = filter (\<lambda>(k, x). x \<noteq> e) (hash_elems head)"
  proof (cases "length (ut_items t) = 1")
    case True
    then have "ut_items t = [h]" using h by (cases "ut_items t") auto
    with True t one h show ?thesis by (simp add: hash_del_def uthash_inv_def)
  next
    case False
    let ?i = "hash_to_bkt (hh_hashv h) (num_buckets t)"
    let ?items = "filter (\<lambda>h. hh_elem h \<noteq> e) (ut_items t)"
    let ?t = "t\<lparr>ut_items := ?items,
      ut_buckets := (ut_buckets t)[?i := bucket_remove e (ut_buckets t ! ?i)],
      num_items := num_items t - 1\<rparr>"
    have del: "hash_del e head = Some ?t" using t one False by (simp add: hash_del_def Let_def)
    have len: "length ?items = length (ut_items t) - 1"
    proof -
      have "length (filter (\<lambda>x. hh_elem x = e) (ut_items t)) + length ?items = length (ut_items t)"
        by (rule sum_length_filter_compl)
      then show ?thesis by (simp only: one) simp
    qed
    have items: "set ?items = set (ut_items t) - {h}" unfolding set_filter using uniq h by blast
    have b0: "buckets_hold (num_buckets t) (set (ut_items t)) (ut_buckets t)"
      using inv unfolding table_inv_def by blast
    have pow: "num_buckets t = 2 ^ log2_num_buckets t" using inv unfolding table_inv_def by blast
    then have "?i < num_buckets t" using hash_to_bkt_less by metis
    with b0 have hold: "buckets_hold (num_buckets t) (set ?items) (ut_buckets ?t)"
      using buckets_hold_remove [OF _ h(1) refl _ h(2) uniq] items by simp
    have "0 < length (ut_items t)" using h(1) by (rule length_pos_if_in_set)
    with len False have "0 < length ?items" by linarith
    then have ne: "?items \<noteq> []" by auto
    have dist: "distinct (map hh_key ?items)" "distinct (map hh_elem ?items)"
      using inv by (simp_all only: table_inv_def distinct_map_filter)
    have hv: "\<forall>x \<in> set ?items. hh_hashv x = hash_jen (hh_key x)"
      using inv by (simp only: table_inv_def set_filter) blast
    have num: "num_items t - 1 = length ?items" using inv len by (simp only: table_inv_def)
    have "table_inv ?t"
      using ne dist hv num pow hold
      unfolding table_inv_def by simp
    with del t show ?thesis using filt [of ?t] by (simp add: uthash_inv_def)
  qed
  then show "uthash_inv (hash_del e head)"
    and "hash_elems (hash_del e head) = filter (\<lambda>(k, x). x \<noteq> e) (hash_elems head)"
    by simp_all
qed


section \<open>The interface of the clients\<close>

text \<open>
  What the key directory and the file table rely on.  A table is seen through the list of its
  (key, element) pairs in application order.
\<close>

locale keyed_table =
  fixes lookup :: "'t \<Rightarrow> 'k \<Rightarrow> 'e option"
    and insert :: "'k \<Rightarrow> 'e \<Rightarrow> 't \<Rightarrow> 't"
    and remove :: "'e \<Rightarrow> 't \<Rightarrow> 't"
    and elems :: "'t \<Rightarrow> ('k \<times> 'e) list"
    and inv :: "'t \<Rightarrow> bool"
    and empty :: 't
  assumes inv_empty: "inv empty" and elems_empty: "elems empty = []"
    and lookup_elems: "inv t \<Longrightarrow> lookup t k = map_of (elems t) k"
    and keys_distinct: "inv t \<Longrightarrow> distinct (map fst (elems t))"
    and elems_distinct: "inv t \<Longrightarrow> distinct (map snd (elems t))"
    and inv_insert: "inv t \<Longrightarrow> k \<notin> fst ` set (elems t) \<Longrightarrow> e \<notin> snd ` set (elems t) \<Longrightarrow> inv (insert k e t)"
    and elems_insert: "inv t \<Longrightarrow> k \<notin> fst ` set (elems t) \<Longrightarrow> e \<notin> snd ` set (elems t) \<Longrightarrow>
      elems (insert k e t) = elems t @ [(k, e)]"
    and inv_remove: "inv t \<Longrightarrow> e \<in> snd ` set (elems t) \<Longrightarrow> inv (remove e t)"
    and elems_remove: "inv t \<Longrightarrow> e \<in> snd ` set (elems t) \<Longrightarrow>
      elems (remove e t) = filter (\<lambda>(k, x). x \<noteq> e) (elems t)"
begin

lemma lookup_empty: "lookup empty k = None"
  by (simp add: lookup_elems inv_empty elems_empty)

lemma lookup_Some_iff: "inv t \<Longrightarrow> lookup t k = Some e \<longleftrightarrow> (k, e) \<in> set (elems t)"
  by (simp add: lookup_elems keys_distinct)

lemma lookup_None_iff: "inv t \<Longrightarrow> lookup t k = None \<longleftrightarrow> k \<notin> fst ` set (elems t)"
  by (simp add: lookup_elems map_of_eq_None_iff)

text \<open>Distinct keys never share an element.\<close>

lemma lookup_inj:
  assumes "inv t" and "lookup t k = Some e" and "lookup t k' = Some e"
  shows "k = k'"
proof (rule eq_key_imp_eq_value)
  show "distinct (map fst (map prod.swap (elems t)))"
    using elems_distinct [OF assms(1)] by (simp add: comp_def)
  show "(e, k) \<in> set (map prod.swap (elems t))" "(e, k') \<in> set (map prod.swap (elems t))"
    using assms by (force simp: lookup_Some_iff)+
qed

lemma lookup_insert:
  assumes "inv t" and "lookup t k = None" and "e \<notin> snd ` set (elems t)"
  shows "inv (insert k e t)" and "lookup (insert k e t) = (lookup t)(k \<mapsto> e)"
proof -
  have k: "k \<notin> fst ` set (elems t)" using assms(1,2) lookup_None_iff by blast
  show i: "inv (insert k e t)" using assms(1,3) k inv_insert by blast
  show "lookup (insert k e t) = (lookup t)(k \<mapsto> e)"
  proof
    fix x
    have "map_of (elems t) k = None" using assms(1,2) lookup_elems by metis
    then show "lookup (insert k e t) x = ((lookup t)(k \<mapsto> e)) x"
      using i assms(1,3) k by (simp add: lookup_elems elems_insert map_of_snoc del: map_of_append)
  qed
qed

lemma lookup_remove:
  assumes "inv t" and "lookup t k = Some e"
  shows "inv (remove e t)" and "lookup (remove e t) = (lookup t)(k := None)"
proof -
  have ke: "(k, e) \<in> set (elems t)" using assms lookup_Some_iff by blast
  then have e: "e \<in> snd ` set (elems t)" by force
  show i: "inv (remove e t)" using assms(1) e inv_remove by blast
  have "filter (\<lambda>(q, x). x \<noteq> e) (elems t) = filter (\<lambda>(q, x). q \<noteq> k) (elems t)"
  proof (rule filter_cong [OF refl])
    fix p assume p: "p \<in> set (elems t)"
    obtain q x where qx: "p = (q, x)" by fastforce
    have "x = e \<longleftrightarrow> q = k"
      using p qx ke assms lookup_inj lookup_Some_iff by (metis option.inject)
    then show "(case p of (q, x) \<Rightarrow> x \<noteq> e) = (case p of (q, x) \<Rightarrow> q \<noteq> k)" using qx by simp
  qed
  then have "map_of (elems (remove e t)) = (map_of (elems t))(k := None)"
    using assms(1) e by (simp add: elems_remove map_of_filter_key)
  then show "lookup (remove e t) = (lookup t)(k := None)"
    by (intro ext) (simp add: i assms(1) lookup_elems)
qed

end

interpretation ut: keyed_table hash_find hash_add hash_del hash_elems uthash_inv None
proof
  fix t :: "'a uthash" and k e
  show "uthash_inv t \<Longrightarrow> hash_find t k = map_of (hash_elems t) k" by (rule hash_find_elems)
  show "uthash_inv t \<Longrightarrow> distinct (map fst (hash_elems t))"
    by (cases t) (auto simp: uthash_inv_def table_inv_def comp_def)
  show "uthash_inv t \<Longrightarrow> distinct (map snd (hash_elems t))"
    by (cases t) (auto simp: uthash_inv_def table_inv_def comp_def)
qed (simp_all add: hash_add_inv hash_del_inv)

lemma hash_find_None [simp]: "hash_find None k = None"
  by (simp add: hash_find_def)

lemma hash_add_keyptr_cases:
  assumes "hash_add_keyptr k e head w = Some (head', w')"
  obtains fs where "head' = hash_add k e head" and "w' = w\<lparr>fault_script := fs\<rparr>"
    and "length fs \<le> length (fault_script w)"
  using assms sys_mallocs_frame
  by (fastforce simp: hash_add_keyptr_def Let_def split: prod.splits if_splits)

lemma hash_add_keyptr_no_fault [no_fault_simps]:
  "fault_script w = [] \<Longrightarrow> hash_add_keyptr k e head w = Some (hash_add k e head, w)"
  by (simp add: hash_add_keyptr_def sys_mallocs_no_fault)

section \<open>Properties\<close>

text \<open>
  C30: adding an element under a new key keeps the table well-formed, also when the buckets are
  expanded, and afterwards finds it under that key and everything else as before.
\<close>

theorem hash_add_then_find:
  assumes "uthash_inv head" and "hash_find head k = None" and "e \<notin> snd ` set (hash_elems head)"
  shows "uthash_inv (hash_add k e head) \<and> hash_find (hash_add k e head) = (hash_find head)(k \<mapsto> e)
    \<and> hash_elems (hash_add k e head) = hash_elems head @ [(k, e)]"
proof -
  have "k \<notin> fst ` set (hash_elems head)" using assms(1,2) ut.lookup_None_iff by blast
  then show ?thesis using ut.lookup_insert [OF assms] ut.elems_insert [OF assms(1) _ assms(3)] by blast
qed

theorem hash_add_then_find_witness:
  "hash_find (hash_add [1, 2] (5 :: nat) None) [1, 2] = Some 5"
proof -
  have "uthash_inv (hash_add [1, 2] (5 :: nat) None)
    \<and> hash_find (hash_add [1, 2] (5 :: nat) None) = (hash_find None)([1, 2] \<mapsto> 5)
    \<and> hash_elems (hash_add [1, 2] (5 :: nat) None) = hash_elems None @ [([1, 2], 5)]"
    by (rule hash_add_then_find) simp_all
  then show ?thesis by simp
qed

text \<open>
  C31: deleting an element keeps the table well-formed and removes exactly its key.
\<close>

theorem hash_del_then_find:
  assumes "uthash_inv head" and "hash_find head k = Some e"
  shows "uthash_inv (hash_del e head) \<and> hash_find (hash_del e head) = (hash_find head)(k := None)"
  using ut.lookup_remove [OF assms] by blast

theorem hash_del_then_find_witness:
  "hash_find (hash_del (5 :: nat) (hash_add [1, 2] 5 None)) [1, 2] = None"
proof -
  have a: "uthash_inv (hash_add [1, 2] (5 :: nat) None)" "hash_find (hash_add [1, 2] (5 :: nat) None) [1, 2] = Some 5"
    using ut.lookup_insert [of None "[1, 2]" "5 :: nat"] by simp_all
  from hash_del_then_find [OF a] show ?thesis by simp
qed

end
