(* ===== verification/FileList.thy ===== *)
theory FileList
  imports Encoding Uthash
begin

text \<open>
  The in-memory file table of src/files.c: the \<open>ccask_file_t\<close> nodes on an explicit heap, the doubly
  linked list from the newest to the oldest file, and the hash table from file identifiers to nodes.
  The list operations are translated pointer by pointer; their abstraction is the list of node
  addresses, strictly descending in the identifiers.
\<close>

section \<open>State\<close>

text \<open>A node of the heap.  The per-file rwlock is always released by the call that takes it.\<close>

record ccask_file =
  cf_id :: u64
  cf_fd :: int
  cf_last_accessed :: nat
  cf_has_hint :: bool
  cf_is_active :: bool
  cf_is_fd_invalidator_running :: bool
  cf_next :: "nat option"
  cf_previous :: "nat option"

type_synonym file_store = "nat \<Rightarrow> ccask_file option"

text \<open>
  \<open>files_state\<close> of src/files.c with the global \<open>MAX_ACTIVE_FILE_SIZE\<close>, the heap the nodes live on,
  the thread list of src/hint.c, and the threads that were started and have not finished.
\<close>

record files_state = posix +
  max_active_file_size :: u64
  data_dir :: string
  file_table :: "nat uthash"
  files_head :: "nat option"
  files_tail :: "nat option"
  file_heap :: file_store
  next_file_ptr :: nat
  hint_threads :: "nat list"
  hint_pending :: "nat list"
  fd_invalidators :: "nat list"

text \<open>Access through a pointer: \<open>None\<close> when it is dangling.\<close>

definition write_file ::
  "nat \<Rightarrow> (ccask_file \<Rightarrow> ccask_file) \<Rightarrow> 'a files_state_scheme \<Rightarrow> 'a files_state_scheme option" where
  "write_file p g w = (case file_heap w p of
      None \<Rightarrow> None
    | Some f \<Rightarrow> Some (w\<lparr>file_heap := (file_heap w)(p \<mapsto> g f)\<rparr>))"


section \<open>The linked list\<close>

text \<open>The search loop: the first node, from \<open>cur\<close> on, that is not newer than \<open>i\<close>.\<close>

partial_function (option) skip_newer :: "file_store \<Rightarrow> u64 \<Rightarrow> nat option \<Rightarrow> nat option option" where
  "skip_newer h i cur = (case cur of
      None \<Rightarrow> Some None
    | Some p \<Rightarrow> do { c \<leftarrow> h p;
        if i < cf_id c then skip_newer h i (cf_next c) else Some (Some p) })"

definition add_file_to_linked_list ::
  "nat \<Rightarrow> 'a files_state_scheme \<Rightarrow> 'a files_state_scheme option" where
  "add_file_to_linked_list file w = (case files_head w of
      None \<Rightarrow> write_file file (\<lambda>f. f\<lparr>cf_next := None, cf_previous := None\<rparr>)
                (w\<lparr>files_head := Some file, files_tail := Some file\<rparr>)
    | Some head \<Rightarrow> do {
        f \<leftarrow> file_heap w file;
        h \<leftarrow> file_heap w head;
        if cf_id h < cf_id f
        then do { w1 \<leftarrow> write_file file (\<lambda>f. f\<lparr>cf_next := Some head, cf_previous := None\<rparr>) w;
                  w2 \<leftarrow> write_file head (\<lambda>f. f\<lparr>cf_previous := Some file\<rparr>) w1;
                  Some (w2\<lparr>files_head := Some file\<rparr>) }
        else do {
          cur \<leftarrow> skip_newer (file_heap w) (cf_id f) (Some head);
          case cur of
            None \<Rightarrow> do {
              tail \<leftarrow> files_tail w;
              w1 \<leftarrow> write_file tail (\<lambda>f. f\<lparr>cf_next := Some file\<rparr>) w;
              w2 \<leftarrow> write_file file (\<lambda>f. f\<lparr>cf_previous := Some tail, cf_next := None\<rparr>) w1;
              Some (w2\<lparr>files_tail := Some file\<rparr>) }
          | Some c \<Rightarrow> do {
              cn \<leftarrow> file_heap w c;
              w1 \<leftarrow> write_file file (\<lambda>f. f\<lparr>cf_next := Some c, cf_previous := cf_previous cn\<rparr>) w;
              w2 \<leftarrow> (case cf_previous cn of
                      None \<Rightarrow> Some w1
                    | Some p \<Rightarrow> write_file p (\<lambda>f. f\<lparr>cf_next := Some file\<rparr>) w1);
              write_file c (\<lambda>f. f\<lparr>cf_previous := Some file\<rparr>) w2 } } })"

definition add_file :: "nat \<Rightarrow> 'a files_state_scheme \<Rightarrow> 'a files_state_scheme option" where
  "add_file file w = do {
     w1 \<leftarrow> add_file_to_linked_list file w;
     f \<leftarrow> file_heap w1 file;
     (table, w2) \<leftarrow> hash_add_keyptr (host64 (cf_id f)) file (file_table w1) w1;
     Some (w2\<lparr>file_table := table\<rparr>) }"

definition ccask_files_get_active_file :: "'a files_state_scheme \<Rightarrow> nat option" where
  "ccask_files_get_active_file w = files_head w"

definition ccask_files_get_oldest_file :: "'a files_state_scheme \<Rightarrow> nat option" where
  "ccask_files_get_oldest_file w = files_tail w"

definition ccask_files_get_file :: "u64 \<Rightarrow> 'a files_state_scheme \<Rightarrow> nat option" where
  "ccask_files_get_file file_id w = hash_find (file_table w) (host64 file_id)"


section \<open>List segments\<close>

text \<open>
  \<open>dll h prv ps nxt\<close>: the nodes \<open>ps\<close> are chained in both directions; the first one's \<open>previous\<close> is
  \<open>prv\<close> and the last one's \<open>next\<close> is \<open>nxt\<close>.
\<close>

fun first_of :: "nat list \<Rightarrow> nat option \<Rightarrow> nat option" where
  "first_of [] x = x"
| "first_of (p # ps) x = Some p"

fun last_of :: "nat list \<Rightarrow> nat option \<Rightarrow> nat option" where
  "last_of [] x = x"
| "last_of (p # ps) x = last_of ps (Some p)"

fun dll :: "file_store \<Rightarrow> nat option \<Rightarrow> nat list \<Rightarrow> nat option \<Rightarrow> bool" where
  "dll h prv [] nxt = True"
| "dll h prv (p # ps) nxt = (case h p of
      None \<Rightarrow> False
    | Some f \<Rightarrow> cf_previous f = prv \<and> cf_next f = first_of ps nxt \<and> dll h (Some p) ps nxt)"

lemma first_of_append [simp]: "first_of (xs @ ys) x = first_of xs (first_of ys x)"
  by (cases xs) auto

lemma last_of_append [simp]: "last_of (xs @ ys) x = last_of ys (last_of xs x)"
  by (induction xs arbitrary: x) auto

lemma dll_append [simp]:
  "dll h prv (xs @ ys) nxt \<longleftrightarrow> dll h prv xs (first_of ys nxt) \<and> dll h (last_of xs prv) ys nxt"
  by (induction xs arbitrary: prv) (auto split: option.splits)

lemma dll_cong: "(\<And>p. p \<in> set ps \<Longrightarrow> h p = h' p) \<Longrightarrow> dll h prv ps nxt = dll h' prv ps nxt"
  by (induction ps arbitrary: prv) (auto split: option.splits)

lemma dll_upd [simp]: "p \<notin> set ps \<Longrightarrow> dll (h(p := x)) prv ps nxt = dll h prv ps nxt"
  by (rule dll_cong) auto

lemma dll_allocated: "dll h prv ps nxt \<Longrightarrow> p \<in> set ps \<Longrightarrow> \<exists>f. h p = Some f"
  by (induction ps arbitrary: prv) (auto split: option.splits)

text \<open>Changing where a segment ends changes its last node only.\<close>

lemma dll_last_next:
  "dll h prv (xs @ [p]) nxt \<Longrightarrow> h p = Some f \<Longrightarrow> p \<notin> set xs \<Longrightarrow>
     dll (h(p \<mapsto> f\<lparr>cf_next := nxt'\<rparr>)) prv (xs @ [p]) nxt'"
  by auto

definition id_of :: "file_store \<Rightarrow> nat \<Rightarrow> u64" where
  "id_of h p = (case h p of None \<Rightarrow> 0 | Some f \<Rightarrow> cf_id f)"

lemma id_of_simps [simp]:
  "id_of (h(p \<mapsto> f)) q = (if q = p then cf_id f else id_of h q)"
  "h p = Some f \<Longrightarrow> id_of h p = cf_id f"
  by (simp_all add: id_of_def)

definition files_list :: "'a files_state_scheme \<Rightarrow> nat list \<Rightarrow> bool" where
  "files_list w ps \<longleftrightarrow> distinct ps \<and> dll (file_heap w) None ps None
     \<and> files_head w = first_of ps None \<and> files_tail w = last_of ps None
     \<and> sorted_wrt (\<lambda>p q. id_of (file_heap w) q < id_of (file_heap w) p) ps"

lemma skip_newer_list:
  "dll h prv ps None \<Longrightarrow>
     skip_newer h i (first_of ps None) = Some (first_of (dropWhile (\<lambda>p. i < id_of h p) ps) None)"
proof (induction ps arbitrary: prv)
  case Nil
  then show ?case by (simp add: skip_newer.simps)
next
  case (Cons p ps)
  then show ?case by (subst skip_newer.simps) (auto split: option.splits)
qed


section \<open>Insertion\<close>

text \<open>The abstract operation: insertion into a list that is strictly descending in the identifiers.\<close>

definition insert_newer :: "('p \<Rightarrow> u64) \<Rightarrow> 'p \<Rightarrow> 'p list \<Rightarrow> 'p list" where
  "insert_newer f p ps =
     takeWhile (\<lambda>q. f p < f q) ps @ p # dropWhile (\<lambda>q. f p < f q) ps"

lemma set_insert_newer [simp]: "set (insert_newer f p ps) = insert p (set ps)"
proof -
  have "set ps = set (takeWhile (\<lambda>q. f p < f q) ps @ dropWhile (\<lambda>q. f p < f q) ps)"
    by (simp only: takeWhile_dropWhile_id)
  then show ?thesis by (auto simp: insert_newer_def simp del: takeWhile_dropWhile_id)
qed

lemma distinct_insert_newer: "distinct ps \<Longrightarrow> p \<notin> set ps \<Longrightarrow> distinct (insert_newer f p ps)"
proof -
  assume "distinct ps" and p: "p \<notin> set ps"
  then have "distinct (takeWhile (\<lambda>q. f p < f q) ps @ dropWhile (\<lambda>q. f p < f q) ps)" by simp
  with p show ?thesis
    by (auto simp: insert_newer_def simp del: takeWhile_dropWhile_id dest: set_takeWhileD set_dropWhileD)
qed

lemma sorted_insert_newer:
  assumes "sorted_wrt (\<lambda>p q. f q < f p) ps" and "f p \<notin> f ` set ps"
  shows "sorted_wrt (\<lambda>p q. f q < f p) (insert_newer f p ps)"
  using assms
proof (induction ps)
  case Nil
  then show ?case by (simp add: insert_newer_def)
next
  case (Cons q ps)
  show ?case
  proof (cases "f p < f q")
    case True
    then have "insert_newer f p (q # ps) = q # insert_newer f p ps" by (simp add: insert_newer_def)
    with Cons True show ?thesis by auto
  next
    case False
    with Cons.prems have "f q < f p" by auto
    with Cons.prems False show ?thesis by (auto simp: insert_newer_def)
  qed
qed

text \<open>Two heaps with the same nodes up to their links.\<close>

definition unlinked :: "ccask_file \<Rightarrow> ccask_file" where
  "unlinked f = f\<lparr>cf_next := None, cf_previous := None\<rparr>"

definition same_but_links :: "file_store \<Rightarrow> file_store \<Rightarrow> bool" where
  "same_but_links h h' \<longleftrightarrow> (\<forall>p. map_option unlinked (h' p) = map_option unlinked (h p))"

lemma same_but_links_refl [simp]: "same_but_links h h"
  by (simp add: same_but_links_def)

lemma unlinked_links [simp]:
  "unlinked (f\<lparr>cf_next := x\<rparr>) = unlinked f" "unlinked (f\<lparr>cf_previous := x\<rparr>) = unlinked f"
  "unlinked (f\<lparr>cf_previous := x, cf_next := y\<rparr>) = unlinked f"
  by (simp_all add: unlinked_def)

lemma unlinked_eqD:
  assumes "unlinked f = unlinked g"
  shows "cf_id f = cf_id g" "cf_fd f = cf_fd g" "cf_last_accessed f = cf_last_accessed g"
    "cf_has_hint f = cf_has_hint g" "cf_is_active f = cf_is_active g"
    "cf_is_fd_invalidator_running f = cf_is_fd_invalidator_running g"
  using assms by (cases f; cases g; simp add: unlinked_def)+

lemma same_but_links_id: "same_but_links h h' \<Longrightarrow> id_of h' = id_of h"
proof
  fix p assume "same_but_links h h'"
  then have "map_option unlinked (h' p) = map_option unlinked (h p)" by (simp add: same_but_links_def)
  then show "id_of h' p = id_of h p"
    by (cases "h p"; cases "h' p") (auto simp: id_of_def dest: unlinked_eqD)
qed

lemma same_but_links_write:
  "write_file p g w = Some w' \<Longrightarrow> (\<And>f. unlinked (g f) = unlinked f) \<Longrightarrow>
     same_but_links (file_heap w) (file_heap w')"
  by (auto simp: write_file_def same_but_links_def split: option.splits)

lemma same_but_links_trans: "same_but_links h h' \<Longrightarrow> same_but_links h' h'' \<Longrightarrow> same_but_links h h''"
  by (simp add: same_but_links_def)

lemma write_file_Some:
  "file_heap w p = Some f \<Longrightarrow> write_file p g w = Some (w\<lparr>file_heap := (file_heap w)(p \<mapsto> g f)\<rparr>)"
  by (simp add: write_file_def)

text \<open>The heap after linking a new node between two neighbours.\<close>

lemma dll_insert:
  assumes "dll h None (xs @ ys) None" and "distinct (xs @ ys)" and "p \<notin> set (xs @ ys)"
    and "h' p = Some f" and "cf_next f = first_of ys None" and "cf_previous f = last_of xs None"
    and "\<And>q. q \<in> set xs \<Longrightarrow> Some q \<noteq> last_of xs None \<Longrightarrow> h' q = h q"
    and "\<And>q g. last_of xs None = Some q \<Longrightarrow> h q = Some g \<Longrightarrow> h' q = Some (g\<lparr>cf_next := Some p\<rparr>)"
    and "\<And>q. q \<in> set ys \<Longrightarrow> Some q \<noteq> first_of ys None \<Longrightarrow> h' q = h q"
    and "\<And>q g. first_of ys None = Some q \<Longrightarrow> h q = Some g \<Longrightarrow> h' q = Some (g\<lparr>cf_previous := Some p\<rparr>)"
  shows "dll h' None (xs @ p # ys) None"
proof -
  have left: "dll h' None xs (Some p)"
  proof (cases xs rule: rev_cases)
    case (snoc zs q)
    have "dll h None xs (first_of ys None)" using assms(1) by simp
    then have "dll h None zs (Some q)" "dll h (last_of zs None) [q] (first_of ys None)"
      using snoc by simp_all
    moreover have "dll h' None zs (Some q) = dll h None zs (Some q)"
      using snoc assms(2,7) by (intro dll_cong) auto
    ultimately show ?thesis using snoc assms(8) [of q] by (auto split: option.splits)
  qed simp
  have right: "dll h' (Some p) ys None"
  proof (cases ys)
    case (Cons q zs)
    then have "dll h (Some q) zs None" "dll h (last_of xs None) [q] (first_of zs None)"
      using assms(1) by (auto split: option.splits)
    moreover have "dll h' (Some q) zs None = dll h (Some q) zs None"
      using Cons assms(2,9) by (intro dll_cong) auto
    ultimately show ?thesis using Cons assms(10) [of q] by (auto split: option.splits)
  qed simp
  from left right assms(4-6) show ?thesis by simp
qed

text \<open>
  The pointer code implements the insertion: whatever the list holds, a node with a new identifier
  ends up at its place, the links of its neighbours are the only other change to the heap, and head
  and tail are those of the new list.
\<close>

definition list_frame :: "'a files_state_scheme \<Rightarrow> 'a files_state_scheme \<Rightarrow> bool" where
  "list_frame w w' \<longleftrightarrow> same_but_links (file_heap w) (file_heap w')
     \<and> (\<exists>h t hp. w' = w\<lparr>files_head := h, files_tail := t, file_heap := hp\<rparr>)"

lemma add_file_to_linked_list_spec:
  assumes list: "files_list w ps" and p: "file_heap w p = Some f" "p \<notin> set ps"
    and new: "cf_id f \<notin> id_of (file_heap w) ` set ps"
  obtains w' where "add_file_to_linked_list p w = Some w'" and "list_frame w w'"
    and "files_list w' (insert_newer (id_of (file_heap w)) p ps)"
proof -
  note result = that
  let ?h = "file_heap w" and ?id = "id_of (file_heap w)"
  let ?xs = "takeWhile (\<lambda>q. ?id p < ?id q) ps" and ?ys = "dropWhile (\<lambda>q. ?id p < ?id q) ps"
  have dist: "distinct ps" and dll: "dll ?h None ps None" and hd: "files_head w = first_of ps None"
    and tl: "files_tail w = last_of ps None"
    and sorted: "sorted_wrt (\<lambda>p q. ?id q < ?id p) ps"
    using list by (simp_all add: files_list_def)
  have idp: "?id p = cf_id f" using p by simp
  have xy: "?xs @ ?ys = ps" by (rule takeWhile_dropWhile_id)
  have finish: thesis
    if "add_file_to_linked_list p w = Some w'" and "list_frame w w'"
      and "dll (file_heap w') None (?xs @ p # ?ys) None"
      and "files_head w' = first_of (?xs @ p # ?ys) None"
      and "files_tail w' = last_of (?xs @ p # ?ys) None" for w'
  proof -
    have id: "id_of (file_heap w') = ?id"
      using that(2) same_but_links_id by (auto simp: list_frame_def)
    have "files_list w' (insert_newer ?id p ps)"
      unfolding files_list_def
    proof (intro conjI)
      show "distinct (insert_newer ?id p ps)" using dist p(2) by (rule distinct_insert_newer)
      show "sorted_wrt (\<lambda>p q. id_of (file_heap w') q < id_of (file_heap w') p) (insert_newer ?id p ps)"
        unfolding id using sorted new idp by (intro sorted_insert_newer) auto
    qed (use that(3-5) in \<open>simp_all only: insert_newer_def\<close>)
    with that(1,2) show thesis by (rule result)
  qed
  show thesis
  proof (cases ps)
    case Nil
    let ?w' = "w\<lparr>files_head := Some p, files_tail := Some p,
      file_heap := ?h(p \<mapsto> f\<lparr>cf_next := None, cf_previous := None\<rparr>)\<rparr>"
    have "add_file_to_linked_list p w = Some ?w'"
      using Nil hd p by (simp add: add_file_to_linked_list_def write_file_def)
    moreover have "list_frame w ?w'"
      using p by (auto simp: list_frame_def same_but_links_def unlinked_def)
    moreover have "dll (file_heap ?w') None ([] @ [p]) None" by simp
    moreover have "files_head ?w' = Some p" "files_tail ?w' = Some p" by simp_all
    ultimately show thesis using Nil finish [of ?w'] by simp
  next
    case (Cons hp ps')
    then obtain hf where hf: "?h hp = Some hf" using dll by (auto split: option.splits)
    have "hp \<noteq> p" using Cons p by auto
    have ne: "cf_id f \<noteq> cf_id hf" using new Cons hf by auto
    show thesis
    proof (cases "cf_id hf < cf_id f")
      case True
      then have xs: "?xs = []" and ys: "?ys = ps" using Cons idp hf by auto
      let ?h' = "?h(p \<mapsto> f\<lparr>cf_next := Some hp, cf_previous := None\<rparr>, hp \<mapsto> hf\<lparr>cf_previous := Some p\<rparr>)"
      let ?w' = "w\<lparr>file_heap := ?h', files_head := Some p\<rparr>"
      have "add_file_to_linked_list p w = Some ?w'"
        using Cons hd hf p True \<open>hp \<noteq> p\<close>
        by (simp add: add_file_to_linked_list_def write_file_def)
      moreover have "list_frame w ?w'"
        using p hf \<open>hp \<noteq> p\<close>
        by (cases w) (auto simp: list_frame_def same_but_links_def unlinked_def)
      moreover have "dll (file_heap ?w') None (p # ps) None"
      proof -
        have "dll ?h' None ([] @ p # ps) None"
          by (rule dll_insert [of ?h]) (use dll dist p(2) Cons hf \<open>hp \<noteq> p\<close> in auto)
        then show ?thesis by simp
      qed
      moreover have "files_head ?w' = first_of (p # ps) None" "files_tail ?w' = last_of (p # ps) None"
        using tl Cons by simp_all
      ultimately show thesis by (rule finish [of ?w', unfolded xs ys append_Nil])
    next
      case False
      then have less: "cf_id f < cf_id hf" using ne by simp
      then obtain zs q where xs: "?xs = zs @ [q]"
        using Cons idp hf by (cases ?xs rule: rev_cases) auto
      have skip: "skip_newer ?h (cf_id f) (Some hp) = Some (first_of ?ys None)"
        using skip_newer_list [OF dll, of "cf_id f"] Cons idp by simp
      have q: "q \<in> set ps" using xs xy by (metis in_set_conv_decomp set_takeWhileD)
      then obtain qf where qf: "?h q = Some qf" using dll dll_allocated by blast
      have "q \<noteq> p" using q p by auto
      have dxy: "distinct (?xs @ ?ys)" using dist xy by simp
      have dllxy: "dll ?h None (?xs @ ?ys) None" using dll xy by simp
      have pxy: "p \<notin> set (?xs @ ?ys)" using p(2) xy by simp
      have hdx: "files_head w = first_of (?xs @ p # ?ys) None"
        using hd xy xs by (metis append_assoc append_Cons append_Nil first_of_append first_of.simps(2) neq_Nil_conv)
      show thesis
      proof (cases ?ys)
        case Nil
        have ps: "ps = zs @ [q]" using xy xs Nil by simp
        let ?h' = "?h(q \<mapsto> qf\<lparr>cf_next := Some p\<rparr>, p \<mapsto> f\<lparr>cf_previous := Some q, cf_next := None\<rparr>)"
        let ?w' = "w\<lparr>file_heap := ?h', files_tail := Some p\<rparr>"
        have tq: "files_tail w = Some q" using tl ps by simp
        have "add_file_to_linked_list p w = Some ?w'"
          using Cons hd hf p False skip Nil tq qf \<open>q \<noteq> p\<close>
          by (simp add: add_file_to_linked_list_def write_file_def)
        moreover have "list_frame w ?w'"
          using p qf \<open>q \<noteq> p\<close>
          by (cases w) (auto simp: list_frame_def same_but_links_def unlinked_def)
        moreover have "dll (file_heap ?w') None (?xs @ p # ?ys) None"
        proof -
          have "dll ?h' None ((zs @ [q]) @ p # []) None"
            by (rule dll_insert [of ?h]) (use dll dist p(2) ps qf \<open>q \<noteq> p\<close> in auto)
          then show ?thesis unfolding xs Nil by simp
        qed
        moreover have "files_head ?w' = first_of (?xs @ p # ?ys) None" using hdx by simp
        moreover have "files_tail ?w' = last_of (?xs @ p # ?ys) None" unfolding Nil by simp
        ultimately show thesis by (rule finish)
      next
        case ys: (Cons c cs)
        have "c \<in> set ps" using ys xy by (metis in_set_conv_decomp set_dropWhileD)
        then obtain cf where cf: "?h c = Some cf" using dll dll_allocated by blast
        have "c \<noteq> p" using \<open>c \<in> set ps\<close> p by auto
        have "c \<noteq> q" using dxy xs ys by auto
        have prev: "cf_previous cf = Some q" using dllxy xs ys cf by (auto split: option.splits)
        let ?h' = "?h(p \<mapsto> f\<lparr>cf_next := Some c, cf_previous := Some q\<rparr>,
          q \<mapsto> qf\<lparr>cf_next := Some p\<rparr>, c \<mapsto> cf\<lparr>cf_previous := Some p\<rparr>)"
        let ?w' = "w\<lparr>file_heap := ?h'\<rparr>"
        have "add_file_to_linked_list p w = Some ?w'"
          using Cons hd hf p False skip ys cf qf prev \<open>q \<noteq> p\<close> \<open>c \<noteq> p\<close> \<open>c \<noteq> q\<close>
          by (simp add: add_file_to_linked_list_def write_file_def)
        moreover have "list_frame w ?w'"
          using p qf cf \<open>q \<noteq> p\<close> \<open>c \<noteq> p\<close> \<open>c \<noteq> q\<close>
          by (cases w) (auto simp: list_frame_def same_but_links_def unlinked_def)
        moreover have "dll (file_heap ?w') None (?xs @ p # ?ys) None"
        proof -
          have "dll ?h' None (?xs @ p # ?ys) None" using dllxy dxy pxy
            by (rule dll_insert) (use xs ys qf cf \<open>q \<noteq> p\<close> \<open>c \<noteq> p\<close> \<open>c \<noteq> q\<close> dxy pxy in auto)
          then show ?thesis by simp
        qed
        moreover have "files_head ?w' = first_of (?xs @ p # ?ys) None" using hdx by simp
        moreover have "files_tail ?w' = last_of (?xs @ p # ?ys) None"
        proof -
          have "last_of ps None = last_of (?xs @ ?ys) None" by (simp only: xy)
          then show ?thesis using tl ys by simp
        qed
        ultimately show thesis by (rule finish)
      qed
    qed
  qed
qed


section \<open>The file table\<close>

text \<open>The list, the hash table and the heap agree on the files \<open>ps\<close>, newest first.\<close>

definition files_rep :: "'a files_state_scheme \<Rightarrow> nat list \<Rightarrow> bool" where
  "files_rep w ps \<longleftrightarrow> files_list w ps \<and> uthash_inv (file_table w)
     \<and> set (hash_elems (file_table w)) = (\<lambda>p. (host64 (id_of (file_heap w) p), p)) ` set ps
     \<and> (\<forall>p. file_heap w p \<noteq> None \<longrightarrow> p < next_file_ptr w)"

lemma files_rep_distinct: "files_rep w ps \<Longrightarrow> distinct ps"
  by (simp add: files_rep_def files_list_def)

lemma files_rep_allocated: "files_rep w ps \<Longrightarrow> p \<in> set ps \<Longrightarrow> \<exists>f. file_heap w p = Some f"
  using dll_allocated by (auto simp: files_rep_def files_list_def)

lemma files_rep_id_inj:
  assumes "files_rep w ps" and "p \<in> set ps" and "q \<in> set ps"
    and "id_of (file_heap w) p = id_of (file_heap w) q"
  shows "p = q"
proof -
  have "inj_on (id_of (file_heap w)) (set ps)"
  proof -
    have "sorted_wrt (\<lambda>p q. id_of (file_heap w) q < id_of (file_heap w) p) ps"
      using assms(1) by (simp add: files_rep_def files_list_def)
    then have "sorted_wrt (>) (map (id_of (file_heap w)) ps)" by (simp add: sorted_wrt_map)
    then have "distinct (map (id_of (file_heap w)) ps)"
      by (induction ps) auto
    then show ?thesis by (simp add: distinct_map)
  qed
  with assms show ?thesis by (auto dest: inj_onD)
qed

text \<open>Lookups find exactly the files of the list.\<close>

lemma ccask_files_get_file_iff:
  assumes "files_rep w ps"
  shows "ccask_files_get_file i w = Some p \<longleftrightarrow> p \<in> set ps \<and> id_of (file_heap w) p = i"
proof -
  have "uthash_inv (file_table w)" using assms by (simp add: files_rep_def)
  then have "ccask_files_get_file i w = Some p \<longleftrightarrow> (host64 i, p) \<in> set (hash_elems (file_table w))"
    by (simp add: ccask_files_get_file_def ut.lookup_Some_iff)
  also have "\<dots> \<longleftrightarrow> p \<in> set ps \<and> id_of (file_heap w) p = i"
    using assms by (auto simp: files_rep_def image_iff)
  finally show ?thesis .
qed

lemma add_file_rep:
  assumes rep: "files_rep w ps" and p: "file_heap w p = Some f" "p \<notin> set ps" "p < next_file_ptr w"
    and new: "cf_id f \<notin> id_of (file_heap w) ` set ps" and add: "add_file p w = Some w'"
  shows "files_rep w' (insert_newer (id_of (file_heap w)) p ps)"
    and "same_but_links (file_heap w) (file_heap w')"
    and "\<exists>h t hp tab fs. w' = w\<lparr>files_head := h, files_tail := t, file_heap := hp,
           file_table := tab, fault_script := fs\<rparr> \<and> length fs \<le> length (fault_script w)"
proof -
  have list: "files_list w ps" using rep by (simp add: files_rep_def)
  obtain u where u: "add_file_to_linked_list p w = Some u" "list_frame w u"
    "files_list u (insert_newer (id_of (file_heap w)) p ps)"
    using add_file_to_linked_list_spec [OF list p(1,2) new] by blast
  have links: "same_but_links (file_heap w) (file_heap u)"
    and uw: "\<exists>h t hp. u = w\<lparr>files_head := h, files_tail := t, file_heap := hp\<rparr>"
    using u(2) by (simp_all add: list_frame_def)
  have id: "id_of (file_heap u) = id_of (file_heap w)" using links by (rule same_but_links_id)
  have "map_option unlinked (file_heap u p) = Some (unlinked f)"
    using links p(1) by (simp add: same_but_links_def)
  then obtain g where g: "file_heap u p = Some g" and "unlinked g = unlinked f" by auto
  then have gid: "cf_id g = cf_id f" by (auto dest: unlinked_eqD)
  have tab: "file_table u = file_table w" "next_file_ptr u = next_file_ptr w" using uw by auto
  obtain table v where v: "hash_add_keyptr (host64 (cf_id g)) p (file_table u) u = Some (table, v)"
    "w' = v\<lparr>file_table := table\<rparr>"
    using add u(1) g by (auto simp: add_file_def bind_eq_Some_conv)
  then obtain fs where table: "table = hash_add (host64 (cf_id f)) p (file_table w)"
    and vfs: "v = u\<lparr>fault_script := fs\<rparr>" and len: "length fs \<le> length (fault_script u)"
    using hash_add_keyptr_cases tab(1) gid by metis
  have inv: "uthash_inv (file_table w)"
    and elems: "set (hash_elems (file_table w)) = (\<lambda>p. (host64 (id_of (file_heap w) p), p)) ` set ps"
    and alloc: "\<And>q. file_heap w q \<noteq> None \<Longrightarrow> q < next_file_ptr w"
    using rep by (simp_all add: files_rep_def)
  have fresh: "host64 (cf_id f) \<notin> fst ` set (hash_elems (file_table w))"
    "p \<notin> snd ` set (hash_elems (file_table w))"
    using elems new p(2) by (auto simp: image_iff)
  note added = hash_add_inv [OF inv fresh]
  have heap: "file_heap w' = file_heap u" "next_file_ptr w' = next_file_ptr w"
    using v(2) vfs tab by simp_all
  show "same_but_links (file_heap w) (file_heap w')" using links heap by simp
  show "\<exists>h t hp tab fs. w' = w\<lparr>files_head := h, files_tail := t, file_heap := hp,
           file_table := tab, fault_script := fs\<rparr> \<and> length fs \<le> length (fault_script w)"
  proof -
    from uw obtain h t hp where "u = w\<lparr>files_head := h, files_tail := t, file_heap := hp\<rparr>" by blast
    then have "w' = w\<lparr>files_head := h, files_tail := t, file_heap := hp,
        file_table := table, fault_script := fs\<rparr>"
      using v(2) vfs by (cases w) simp
    moreover have "length fs \<le> length (fault_script w)" using len uw by auto
    ultimately show ?thesis by blast
  qed
  have "files_list w' (insert_newer (id_of (file_heap w)) p ps)"
    using u(3) v(2) vfs by (simp add: files_list_def)
  moreover have "set (hash_elems (file_table w')) =
      (\<lambda>q. (host64 (id_of (file_heap w') q), q)) ` set (insert_newer (id_of (file_heap w)) p ps)"
    using v(2) table added(2) elems heap id p(1) by auto
  moreover have "q < next_file_ptr w'" if "file_heap w' q \<noteq> None" for q
  proof -
    have "file_heap w q \<noteq> None"
      using that links heap by (metis map_option_is_None same_but_links_def)
    with alloc heap show ?thesis by simp
  qed
  moreover have "uthash_inv (file_table w')" using v(2) table added(1) by simp
  ultimately show "files_rep w' (insert_newer (id_of (file_heap w)) p ps)"
    by (simp add: files_rep_def)
qed


text \<open>Changing other fields of the nodes than the identifier and the links keeps the list.\<close>

lemma dll_same_links:
  assumes "dll h prv ps nxt"
    and "\<And>p f. p \<in> set ps \<Longrightarrow> h p = Some f \<Longrightarrow>
      \<exists>g. h' p = Some g \<and> cf_next g = cf_next f \<and> cf_previous g = cf_previous f"
  shows "dll h' prv ps nxt"
  using assms
proof (induction ps arbitrary: prv)
  case (Cons p ps)
  obtain f where f: "h p = Some f" using Cons.prems(1) by (cases "h p") auto
  then obtain g where "h' p = Some g" "cf_next g = cf_next f" "cf_previous g = cf_previous f"
    using Cons.prems(2) by fastforce
  moreover have "dll h' (Some p) ps nxt" using Cons f by auto
  ultimately show ?case using Cons.prems(1) f by simp
qed simp

lemma files_rep_cong:
  assumes rep: "files_rep w ps"
    and same: "files_head w' = files_head w" "files_tail w' = files_tail w" "file_table w' = file_table w"
    and nodes: "\<And>p f. p \<in> set ps \<Longrightarrow> file_heap w p = Some f \<Longrightarrow>
      \<exists>g. file_heap w' p = Some g \<and> cf_id g = cf_id f \<and> cf_next g = cf_next f \<and> cf_previous g = cf_previous f"
    and alloc: "\<And>p. file_heap w' p \<noteq> None \<Longrightarrow> p < next_file_ptr w'"
  shows "files_rep w' ps" and "\<And>p. p \<in> set ps \<Longrightarrow> id_of (file_heap w') p = id_of (file_heap w) p"
proof -
  show id: "id_of (file_heap w') p = id_of (file_heap w) p" if p: "p \<in> set ps" for p
  proof -
    obtain f where f: "file_heap w p = Some f" using files_rep_allocated [OF rep p] by blast
    obtain g where "file_heap w' p = Some g" "cf_id g = cf_id f" using nodes [OF p f] by blast
    with f show ?thesis by (simp add: id_of_def)
  qed
  have list: "files_list w ps" using rep by (simp add: files_rep_def)
  then have "sorted_wrt (\<lambda>p q. id_of (file_heap w) q < id_of (file_heap w) p) ps"
    by (simp add: files_list_def)
  then have "sorted_wrt (\<lambda>p q. id_of (file_heap w') q < id_of (file_heap w') p) ps"
    by (rule sorted_wrt_mono_rel [rotated]) (simp add: id)
  moreover have "dll (file_heap w') None ps None"
  proof (rule dll_same_links)
    show "dll (file_heap w) None ps None" using list by (simp add: files_list_def)
    show "\<exists>g. file_heap w' p = Some g \<and> cf_next g = cf_next f \<and> cf_previous g = cf_previous f"
      if "p \<in> set ps" "file_heap w p = Some f" for p f
      using nodes [OF that] by blast
  qed
  ultimately have "files_list w' ps" using list same by (simp add: files_list_def)
  moreover have "(\<lambda>p. (host64 (id_of (file_heap w') p), p)) ` set ps
      = (\<lambda>p. (host64 (id_of (file_heap w) p), p)) ` set ps"
    by (rule image_cong [OF refl]) (simp add: id)
  ultimately show "files_rep w' ps" using rep same alloc by (simp add: files_rep_def)
qed


text \<open>The nodes that claim a hintfile.\<close>

definition has_hint_of :: "file_store \<Rightarrow> nat \<Rightarrow> bool" where
  "has_hint_of h p \<longleftrightarrow> (case h p of None \<Rightarrow> False | Some f \<Rightarrow> cf_has_hint f)"

lemma has_hint_of_upd [simp]:
  "has_hint_of (h(p \<mapsto> f)) q = (if q = p then cf_has_hint f else has_hint_of h q)"
  by (simp add: has_hint_of_def)

lemma has_hint_of_same: "h p = Some f \<Longrightarrow> cf_has_hint g = cf_has_hint f \<Longrightarrow> has_hint_of (h(p \<mapsto> g)) = has_hint_of h"
  by (auto simp: has_hint_of_def fun_eq_iff)

lemma same_but_links_has_hint: "same_but_links h h' \<Longrightarrow> has_hint_of h' = has_hint_of h"
proof
  fix p assume "same_but_links h h'"
  then have u: "map_option unlinked (h' p) = map_option unlinked (h p)" by (simp add: same_but_links_def)
  have s: "cf_has_hint (unlinked f) = cf_has_hint f" for f by (simp add: unlinked_def)
  show "has_hint_of h' p = has_hint_of h p"
    using u by (cases "h p"; cases "h' p") (auto simp: has_hint_of_def dest: arg_cong [where f = cf_has_hint] simp: s)
qed

text \<open>Operations that leave the file table alone.\<close>

definition same_files :: "'a files_state_scheme \<Rightarrow> 'b files_state_scheme \<Rightarrow> bool" where
  "same_files w w' \<longleftrightarrow> max_active_file_size w' = max_active_file_size w \<and> data_dir w' = data_dir w
     \<and> file_table w' = file_table w \<and> files_head w' = files_head w \<and> files_tail w' = files_tail w
     \<and> file_heap w' = file_heap w \<and> next_file_ptr w' = next_file_ptr w
     \<and> hint_threads w' = hint_threads w \<and> hint_pending w' = hint_pending w
     \<and> fd_invalidators w' = fd_invalidators w"

lemma same_files_refl [simp]: "same_files w w"
  by (simp add: same_files_def)

lemma same_files_trans: "same_files w w' \<Longrightarrow> same_files w' w'' \<Longrightarrow> same_files w w''"
  by (simp add: same_files_def)

lemma same_files_more: "posix.more w' = posix.more w \<Longrightarrow> same_files w w'"
  by (cases w; cases w') (simp add: same_files_def)

lemma same_files_rep: "same_files w w' \<Longrightarrow> files_rep w' ps = files_rep w ps"
  by (simp add: same_files_def files_rep_def files_list_def)

end
