(* ===== verification/Files.thy ===== *)
theory Files
  imports FileList
begin

text \<open>
  src/files.c: opening the datafiles, hintfiles and temporary files, the scan of the data directory
  at start, rotation of the active datafile, deletion and renaming; with it the function of
  src/hint.c that starts a hintfile generator thread, which rotation calls.
\<close>

section \<open>File descriptors\<close>

text \<open>
  The functions return an \<open>int\<close>: a descriptor, or the value of CCASK_FAIL or CCASK_RETRY, which the
  callers recognise as negative.
\<close>

fun status_code :: "ccask_status \<Rightarrow> int" where
  "status_code CCASK_OK = 0"
| "status_code CCASK_FAIL = -1"
| "status_code CCASK_RETRY = -2"

definition open_datafile ::
  "file_ext \<Rightarrow> open_flags \<Rightarrow> errno set \<Rightarrow> u64 \<Rightarrow> 'a files_state_scheme
     \<Rightarrow> int \<times> 'a files_state_scheme" where
  "open_datafile ext flags permanent file_id w =
     (let (fpath, w1) = build_filepath (data_dir w) file_id ext w;
          (r, w2) = sys_open fpath flags w1
      in case r of
           Inr fd \<Rightarrow> (fd, w2)
         | Inl e \<Rightarrow> (if e \<in> permanent
                     then (status_code CCASK_FAIL, set_errno CCASK_ERR_GET_FD_FAILED w2)
                     else (status_code CCASK_RETRY, w2)))"

definition ccask_files_get_active_datafile_fd ::
  "u64 \<Rightarrow> 'a files_state_scheme \<Rightarrow> int \<times> 'a files_state_scheme" where
  "ccask_files_get_active_datafile_fd =
     open_datafile FILE_DATA CREAT_RDWR_APPEND {EACCES, EPERM, EISDIR, ENAMETOOLONG}"

definition ccask_files_get_datafile_fd ::
  "u64 \<Rightarrow> 'a files_state_scheme \<Rightarrow> int \<times> 'a files_state_scheme" where
  "ccask_files_get_datafile_fd =
     open_datafile FILE_DATA RDONLY {EACCES, EPERM, EISDIR, ENAMETOOLONG, ENOENT}"

definition ccask_files_get_hintfile_fd ::
  "u64 \<Rightarrow> 'a files_state_scheme \<Rightarrow> int \<times> 'a files_state_scheme" where
  "ccask_files_get_hintfile_fd =
     open_datafile FILE_HINT CREAT_RDWR_APPEND {EACCES, EPERM, EISDIR, ENAMETOOLONG, ENOENT}"

definition ccask_files_get_temp_datafile_fd ::
  "u64 \<Rightarrow> 'a files_state_scheme \<Rightarrow> int \<times> 'a files_state_scheme" where
  "ccask_files_get_temp_datafile_fd =
     open_datafile FILE_TEMP_DATA CREAT_RDWR_APPEND {EACCES, EPERM, EISDIR, ENAMETOOLONG, ENOENT}"

text \<open>\<open>CCASK_ATTEMPT(5, fd, ...)\<close>.\<close>

definition attempt_fd ::
  "('a files_state_scheme \<Rightarrow> int \<times> 'a files_state_scheme) \<Rightarrow> 'a files_state_scheme
     \<Rightarrow> int \<times> 'a files_state_scheme" where
  "attempt_fd = ccask_attempt 5 (status_code CCASK_RETRY)"


section \<open>Nodes\<close>

text \<open>\<open>malloc(sizeof(ccask_file_t))\<close>: a new address, whose fields the caller sets.\<close>

definition alloc_file :: "'a files_state_scheme \<Rightarrow> nat option \<times> 'a files_state_scheme" where
  "alloc_file w =
     (let (ok, w') = sys_malloc w
      in if ok then (Some (next_file_ptr w'), w'\<lparr>next_file_ptr := Suc (next_file_ptr w')\<rparr>)
         else (None, w'))"

definition create_new_active_datafile ::
  "u64 \<Rightarrow> nat \<Rightarrow> 'a files_state_scheme \<Rightarrow> ccask_status \<times> 'a files_state_scheme" where
  "create_new_active_datafile file_id file w =
     (let (fd, w1) = attempt_fd (ccask_files_get_active_datafile_fd file_id) w
      in if fd < 0 then (CCASK_FAIL, w1)
         else (CCASK_OK, w1\<lparr>file_heap := (file_heap w1)(file \<mapsto>
                \<lparr>cf_id = file_id, cf_fd = fd, cf_last_accessed = clock w1, cf_has_hint = False,
                 cf_is_active = True, cf_is_fd_invalidator_running = False,
                 cf_next = None, cf_previous = None\<rparr>)\<rparr>))"

definition allocate_datafile_node ::
  "u64 \<Rightarrow> bool \<Rightarrow> 'a files_state_scheme \<Rightarrow> nat option \<times> 'a files_state_scheme" where
  "allocate_datafile_node file_id has_hint w = (case alloc_file w of
      (None, w1) \<Rightarrow> (None, set_errno CCASK_ERR_NO_MEMORY w1)
    | (Some file, w1) \<Rightarrow>
        (Some file, w1\<lparr>file_heap := (file_heap w1)(file \<mapsto>
           \<lparr>cf_id = file_id, cf_fd = -1, cf_last_accessed = clock w1, cf_has_hint = has_hint,
            cf_is_active = False, cf_is_fd_invalidator_running = False,
            cf_next = None, cf_previous = None\<rparr>)\<rparr>))"


section \<open>Start and shutdown\<close>

text \<open>
  The \<open>readdir\<close> loop of \<open>ccask_files_init\<close>.  A failing \<open>readdir\<close> ends it like the end of the
  directory.  \<open>dup_ok\<close> tells whether the \<open>strdup\<close> of the directory name succeeded: if it did not, the
  first path that is built dereferences NULL.  So does adding a node that could not be allocated.
\<close>

fun files_scan ::
  "string \<Rightarrow> bool \<Rightarrow> string list \<Rightarrow> 'a files_state_scheme \<Rightarrow> 'a files_state_scheme option" where
  "files_scan dir dup_ok [] w = Some (snd (next_fault w))"
| "files_scan dir dup_ok (name # names) w = (case next_fault w of
      (Fault e, w1) \<Rightarrow> Some w1
    | (_, w1) \<Rightarrow>
        (if name = ''.'' \<or> name = ''..'' then files_scan dir dup_ok names w1
         else case sys_stat (dir_prefix dir @ name) w1 of
             (Some (Regular i), w2) \<Rightarrow> do {
               ((ext, file_id), w3) \<leftarrow> parse_filename name w2;
               if ext \<noteq> FILE_DATA then files_scan dir dup_ok names w3
               else if \<not> dup_ok then None
               else let (hint_path, w4) = build_filepath dir file_id FILE_HINT w3;
                        (has_hint, w5) = sys_access hint_path w4;
                        (file, w6) = allocate_datafile_node file_id has_hint w5
                    in do { p \<leftarrow> file;
                            w7 \<leftarrow> add_file p w6;
                            files_scan dir dup_ok names w7 } }
           | (_, w2) \<Rightarrow> files_scan dir dup_ok names w2))"

text \<open>The active file of a fresh start: a new one, unless the newest file has no hintfile yet.\<close>

definition files_add_active ::
  "u64 \<Rightarrow> bool \<Rightarrow> 'a files_state_scheme \<Rightarrow> (ccask_status \<times> 'a files_state_scheme) option" where
  "files_add_active file_id dup_ok w = (case alloc_file w of
      (None, w1) \<Rightarrow> Some (CCASK_FAIL, set_errno CCASK_ERR_NO_MEMORY w1)
    | (Some file, w1) \<Rightarrow>
        (if \<not> dup_ok then None
         else case create_new_active_datafile file_id file w1 of
             (CCASK_OK, w2) \<Rightarrow> do { w3 \<leftarrow> add_file file w2; Some (CCASK_OK, w3) }
           | (_, w2) \<Rightarrow> Some (CCASK_FAIL, w2)))"

definition ccask_files_init ::
  "string \<Rightarrow> u64 \<Rightarrow> 'a files_state_scheme \<Rightarrow> (ccask_status \<times> 'a files_state_scheme) option" where
  "ccask_files_init dir active_file_max_size w0 =
     (let w = w0\<lparr>max_active_file_size := active_file_max_size\<rparr> in
      case sys_opendir dir w of
        (Inl e, w1) \<Rightarrow> Some (if e = EACCES \<or> e = ENOTDIR then CCASK_FAIL else CCASK_RETRY, w1)
      | (Inr _, w1) \<Rightarrow>
          (let (ok, w2) = sys_malloc w1 in
           if \<not> ok then Some (CCASK_RETRY, set_errno CCASK_ERR_NO_MEMORY w2)
           else
             let (dup_ok, w3) = sys_malloc w2;
                 w4 = w3\<lparr>data_dir := dir, files_head := None, files_tail := None, file_table := None\<rparr>
             in do {
               w5 \<leftarrow> files_scan dir dup_ok (dir_names w4 (dir_prefix dir)) w4;
               case files_head w5 of
                 None \<Rightarrow> files_add_active 0 dup_ok w5
               | Some head \<Rightarrow> do {
                   h \<leftarrow> file_heap w5 head;
                   if cf_has_hint h then files_add_active (cf_id h + 1) dup_ok w5
                   else let (fd, w6) = attempt_fd (ccask_files_get_active_datafile_fd (cf_id h)) w5
                        in if fd < 0 then Some (CCASK_FAIL, w6)
                           else do { w7 \<leftarrow> write_file head
                                       (\<lambda>f. f\<lparr>cf_is_active := True, cf_fd := fd\<rparr>) w6;
                                     Some (CCASK_OK, w7) } } }))"

text \<open>\<open>ccask_files_shutdown\<close>: the body of the \<open>HASH_ITER\<close> loop, and the loop.\<close>

definition files_release :: "nat \<Rightarrow> 'a files_state_scheme \<Rightarrow> 'a files_state_scheme option" where
  "files_release cur w = do {
     f \<leftarrow> file_heap w cur;
     let w1 = (if 0 \<le> cf_fd f then sys_close (cf_fd f) w else w);
     w2 \<leftarrow> (case cf_previous f of
             Some p \<Rightarrow> write_file p (\<lambda>g. g\<lparr>cf_next := cf_next f\<rparr>) w1
           | None \<Rightarrow> Some (w1\<lparr>files_head := cf_next f\<rparr>));
     w3 \<leftarrow> (case cf_next f of
             Some n \<Rightarrow> write_file n (\<lambda>g. g\<lparr>cf_previous := cf_previous f\<rparr>) w2
           | None \<Rightarrow> Some (w2\<lparr>files_tail := cf_previous f\<rparr>));
     Some (w3\<lparr>file_table := hash_del cur (file_table w3), file_heap := (file_heap w3)(cur := None)\<rparr>) }"

fun files_release_all :: "nat list \<Rightarrow> 'a files_state_scheme \<Rightarrow> 'a files_state_scheme option" where
  "files_release_all [] w = Some w"
| "files_release_all (cur # rest) w = do { w' \<leftarrow> files_release cur w; files_release_all rest w' }"

definition ccask_files_shutdown :: "'a files_state_scheme \<Rightarrow> 'a files_state_scheme option" where
  "ccask_files_shutdown w = files_release_all (map snd (hash_elems (file_table w))) w"


section \<open>Removing and renaming files\<close>

definition permanent_unlink_errors :: "errno set" where
  "permanent_unlink_errors = {EACCES, EISDIR, EFAULT, ENAMETOOLONG, ENOENT, EPERM, EROFS}"

definition ccask_files_delete ::
  "u64 \<Rightarrow> file_ext \<Rightarrow> 'a files_state_scheme \<Rightarrow> ccask_status \<times> 'a files_state_scheme" where
  "ccask_files_delete file_id ext w =
     (let (fpath, w1) = build_filepath (data_dir w) file_id ext w
      in case sys_unlink fpath w1 of
           (Inr _, w2) \<Rightarrow> (CCASK_OK, w2)
         | (Inl e, w2) \<Rightarrow> (if e \<in> permanent_unlink_errors then CCASK_FAIL else CCASK_RETRY, w2))"

definition ccask_files_change_ext ::
  "u64 \<Rightarrow> file_ext \<Rightarrow> file_ext \<Rightarrow> 'a files_state_scheme \<Rightarrow> ccask_status \<times> 'a files_state_scheme" where
  "ccask_files_change_ext file_id from_ext to_ext w =
     (let (from_fpath, w1) = build_filepath (data_dir w) file_id from_ext w;
          (to_fpath, w2) = build_filepath (data_dir w) file_id to_ext w1
      in case sys_rename from_fpath to_fpath w2 of
           (Inr _, w3) \<Rightarrow> (CCASK_OK, w3)
         | (Inl e, w3) \<Rightarrow> (if e \<in> permanent_unlink_errors then CCASK_FAIL else CCASK_RETRY, w3))"


section \<open>Rotation\<close>

text \<open>
  \<open>ccask_hintfile_generate\<close> of src/hint.c starts a thread for a file and remembers its handle.
  \<open>pthread_create\<close> returns 0 or an error number, never the retry code.
\<close>

definition attempt_pthread_create ::
  "'a files_state_scheme \<Rightarrow> int \<times> 'a files_state_scheme" where
  "attempt_pthread_create =
     ccask_attempt 5 (status_code CCASK_RETRY)
       (\<lambda>w. let (ok, w') = sys_pthread_create w in (if ok then 0 else 11, w'))"

definition ccask_hintfile_generate ::
  "nat \<Rightarrow> 'a files_state_scheme \<Rightarrow> ccask_status \<times> 'a files_state_scheme" where
  "ccask_hintfile_generate file w =
     (let (ok, w1) = sys_malloc w in
      if \<not> ok then (CCASK_RETRY, set_errno CCASK_ERR_NO_MEMORY w1)
      else let (res, w2) = attempt_pthread_create w1 in
           if res \<noteq> 0 then (CCASK_FAIL, set_errno CCASK_ERR_COULDNT_START_THREAD w2)
           else (CCASK_OK, w2\<lparr>hint_threads := file # hint_threads w2,
                              hint_pending := file # hint_pending w2\<rparr>))"

definition ccask_files_rotate ::
  "'a files_state_scheme \<Rightarrow> (ccask_status \<times> 'a files_state_scheme) option" where
  "ccask_files_rotate w = (case alloc_file w of
      (None, w1) \<Rightarrow> Some (CCASK_FAIL, set_errno CCASK_ERR_NO_MEMORY w1)
    | (Some file, w1) \<Rightarrow> do {
        head \<leftarrow> files_head w1;
        h \<leftarrow> file_heap w1 head;
        case create_new_active_datafile (cf_id h + 1) file w1 of
          (CCASK_OK, w2) \<Rightarrow> do {
            let w3 = sys_close (cf_fd h) w2;
            w4 \<leftarrow> write_file head (\<lambda>f. f\<lparr>cf_fd := -1, cf_is_active := False\<rparr>) w3;
            w5 \<leftarrow> add_file file w4;
            head' \<leftarrow> files_head w5;
            h' \<leftarrow> file_heap w5 head';
            older \<leftarrow> cf_next h';
            let (res, w6) = ccask_attempt 5 CCASK_RETRY (ccask_hintfile_generate older) w5;
            Some (CCASK_OK, w6) }
        | (_, w2) \<Rightarrow> Some (CCASK_FAIL, w2) })"


section \<open>What opening a file does\<close>

lemma same_files_fields:
  assumes "posix.more w' = posix.more w"
  shows "max_active_file_size w' = max_active_file_size w" "data_dir w' = data_dir w"
    "file_table w' = file_table w" "files_head w' = files_head w" "files_tail w' = files_tail w"
    "file_heap w' = file_heap w" "next_file_ptr w' = next_file_ptr w"
    "hint_threads w' = hint_threads w" "hint_pending w' = hint_pending w"
    "fd_invalidators w' = fd_invalidators w" "files_state.more w' = files_state.more w"
  using assms by (cases w; cases w'; simp)+

lemma sys_open_more: "sys_open path flags w = (r, w') \<Longrightarrow> posix.more w' = posix.more w"
  by (cases rule: sys_open_cases) auto

lemma posix_inv_build_filepath:
  "build_filepath dir i ext w = (p, w') \<Longrightarrow> posix_inv w' = posix_inv w"
  by (auto dest!: build_filepath_frame)

text \<open>A file can only be the regular file of its path, so a successful open leads to that file.\<close>

definition opened_at :: "string \<Rightarrow> bool \<Rightarrow> int \<Rightarrow> 'a posix_scheme \<Rightarrow> 'b posix_scheme \<Rightarrow> bool" where
  "opened_at path writable fd w w' \<longleftrightarrow> next_fd w \<le> fd \<and> fd < next_fd w'
     \<and> (\<exists>i. lookup_inode w' path = Some i
            \<and> open_fds w' fd = Some \<lparr>fd_inode = i, fd_writable = writable\<rparr>)"

definition creates :: "open_flags \<Rightarrow> string \<Rightarrow> string set" where
  "creates flags path = (if flags = CREAT_RDWR_APPEND then {path} else {})"

definition ext_path :: "string \<Rightarrow> u64 \<Rightarrow> file_ext \<Rightarrow> string" where
  "ext_path dir i ext = filepath_text dir i (the (ext_chars ext))"

lemma ext_path_inj:
  "x \<noteq> FILE_UNKNOWN \<Longrightarrow> y \<noteq> FILE_UNKNOWN \<Longrightarrow> ext_path dir i x = ext_path dir j y \<longleftrightarrow> i = j \<and> x = y"
  using filepath_text_inj [of dir i "the (ext_chars x)" j "the (ext_chars y)" x y]
  by (cases x; cases y) (auto simp: ext_path_def ext_chars_def)

lemma open_datafile_result:
  assumes "open_datafile ext flags perm i w = (fd, w')" and "posix_inv w" and "ext \<noteq> FILE_UNKNOWN"
  shows "grows (creates flags (ext_path (data_dir w) i ext)) {} w w'" and "posix_inv w'"
    and "posix.more w' = posix.more w"
    and "0 \<le> fd \<Longrightarrow> opened_at (ext_path (data_dir w) i ext) (flags = CREAT_RDWR_APPEND) fd w w'"
    and "fd < 0 \<Longrightarrow> grows {} {} w w'"
proof -
  let ?p = "ext_path (data_dir w) i ext"
  let ?C = "creates flags ?p"
  obtain path u where u: "build_filepath (data_dir w) i ext w = (path, u)" by fastforce
  obtain fs where fs: "u = w\<lparr>fault_script := fs\<rparr>" "length fs \<le> length (fault_script w)"
    using build_filepath_frame [OF u] by blast
  have path: "q = ?p" if "path = Some q" for q
    using build_filepath_frame [OF u] that by (auto simp: ext_path_def)
  have gu: "grows P {} w u" for P using fs by (intro grows_same) simp_all
  obtain r v where v: "sys_open path flags u = (r, v)" by fastforce
  have iu: "posix_inv u" using assms(2) fs by simp
  have "(if flags = CREAT_RDWR_APPEND then set_option path else {}) \<subseteq> ?C"
    using path by (cases path) (auto simp: creates_def)
  then have gv: "grows ?C {} u v" "posix_inv v" "posix.more v = posix.more u"
    using grows_mono [OF grows_open [OF v iu]] sys_open_inv [OF v iu] sys_open_more [OF v] by auto
  have gwv: "grows ?C {} w v" using gu gv(1) grows_trans_same by blast
  have "grows ?C {} w w' \<and> posix_inv w' \<and> posix.more w' = posix.more w
    \<and> (0 \<le> fd \<longrightarrow> opened_at ?p (flags = CREAT_RDWR_APPEND) fd w w') \<and> (fd < 0 \<longrightarrow> grows {} {} w w')"
  proof (cases r)
    case (Inl e)
    obtain gs where "v = u\<lparr>fault_script := gs\<rparr>" "length gs \<le> length (fault_script u)"
      using v unfolding Inl by (cases rule: sys_open_cases) auto
    then have "grows {} {} u v" by (intro grows_same) simp_all
    then have g0: "grows {} {} w v" using gu grows_trans_same by blast
    have w': "w' = v \<or> w' = set_errno CCASK_ERR_GET_FD_FAILED v" "fd = -1 \<or> fd = -2"
      using assms(1) u v Inl by (auto simp: open_datafile_def split: if_splits)
    have se: "grows P {} v (set_errno CCASK_ERR_GET_FD_FAILED v)" for P
      by (intro grows_same) (simp_all add: set_errno_def)
    have "grows ?C {} w w'" "grows {} {} w w'"
      using w'(1) gwv g0 grows_trans_same [OF gwv se] grows_trans_same [OF g0 se] by auto
    with w' gv fs show ?thesis by (auto simp: set_errno_def)
  next
    case (Inr fd')
    then have w': "w' = v" "fd' = fd" using assms(1) u v by (auto simp: open_datafile_def)
    with Inr v obtain p j where pj: "path = Some p" "fd = next_fd u" "lookup_inode v p = Some j"
      "open_fds v fd = Some \<lparr>fd_inode = j, fd_writable = (flags = CREAT_RDWR_APPEND)\<rparr>"
      "next_fd v = next_fd u + 1"
      using sys_open_ok by metis
    then have "opened_at ?p (flags = CREAT_RDWR_APPEND) fd w w'"
      using path fs w' by (auto simp: opened_at_def)
    moreover have "0 \<le> fd" using pj(2) fs assms(2) by (simp add: posix_inv_def)
    ultimately show ?thesis using gwv gv fs w' by simp
  qed
  then show "grows ?C {} w w'" and "posix_inv w'" and "posix.more w' = posix.more w"
    and "0 \<le> fd \<Longrightarrow> opened_at ?p (flags = CREAT_RDWR_APPEND) fd w w'"
    and "fd < 0 \<Longrightarrow> grows {} {} w w'"
    by blast+
qed

lemma attempt_open_result:
  assumes "attempt_fd (open_datafile ext flags perm i) w = (fd, w')" and "posix_inv w"
    and "ext \<noteq> FILE_UNKNOWN"
  shows "grows (creates flags (ext_path (data_dir w) i ext)) {} w w'" and "posix_inv w'"
    and "posix.more w' = posix.more w"
    and "0 \<le> fd \<Longrightarrow> opened_at (ext_path (data_dir w) i ext) (flags = CREAT_RDWR_APPEND) fd w w'"
    and "fd < 0 \<Longrightarrow> grows {} {} w w'"
proof -
  let ?p = "ext_path (data_dir w) i ext"
  let ?C = "creates flags ?p"
  let ?P = "\<lambda>u. grows ?C {} w u \<and> posix_inv u \<and> posix.more u = posix.more w"
  have start: "?P w" using assms(2) by (simp add: grows_same)
  have step: "?P u'" if "?P u" "open_datafile ext flags perm i u = (s, u')" for u s u'
  proof -
    have "data_dir u = data_dir w" using that(1) same_files_fields by blast
    with open_datafile_result [OF that(2) _ assms(3)] that(1) show ?thesis
      by (auto intro: grows_trans_same)
  qed
  have "?P w'"
    by (rule ccask_attempt_inv [where P = ?P, OF assms(1) [unfolded attempt_fd_def] start step])
  then show "grows ?C {} w w'" and "posix_inv w'" and "posix.more w' = posix.more w" by simp_all
  show "opened_at ?p (flags = CREAT_RDWR_APPEND) fd w w'" if "0 \<le> fd"
  proof -
    have "fd \<noteq> status_code CCASK_RETRY" using that by simp
    from assms(1) [unfolded attempt_fd_def] this start step
    obtain u where u: "?P u" "open_datafile ext flags perm i u = (fd, w')"
      by (rule ccask_attempt_result [where P = ?P])
    have "data_dir u = data_dir w" using u(1) same_files_fields by blast
    with open_datafile_result(4) [OF u(2) _ assms(3) that] u(1)
    have "opened_at ?p (flags = CREAT_RDWR_APPEND) fd u w'" by simp
    moreover have "next_fd w \<le> next_fd u" using u(1) by (simp add: grows_def)
    ultimately show ?thesis by (auto simp: opened_at_def)
  qed
  show "grows {} {} w w'" if "fd < 0"
  proof -
    let ?Q = "\<lambda>u. grows {} {} w u \<and> posix_inv u"
    have startQ: "?Q w" using assms(2) by (simp add: grows_same)
    have stepQ: "?Q u'" if "?Q u" "open_datafile ext flags perm i u = (status_code CCASK_RETRY, u')" for u u'
    proof -
      have neg: "status_code CCASK_RETRY < 0" by simp
      have "posix_inv u" using that(1) by blast
      from open_datafile_result(2,5) [OF that(2) this assms(3)] neg have "posix_inv u'" "grows {} {} u u'"
        by blast+
      with that(1) grows_trans_same show ?thesis by blast
    qed
    have f: "fd < 0" by (rule that)
    consider (last) u where "?Q u" "open_datafile ext flags perm i u = (fd, w')" | (none) "?Q w'"
      by (rule ccask_attempt_last [where P = ?Q, OF assms(1) [unfolded attempt_fd_def] startQ stepQ])
    then show ?thesis
    proof cases
      case last
      then have "grows {} {} u w'" using open_datafile_result(5) [OF last(2) _ assms(3) f] by blast
      with last(1) grows_trans_same show ?thesis by blast
    qed simp
  qed
qed


section \<open>Invariant\<close>

lemma u64_less_inc: "(x :: u64) + 1 \<noteq> 0 \<Longrightarrow> x < x + 1"
  by (metis add.commute unatSuc lessI word_less_nat_alt)

text \<open>
  The nodes of the file list without their links, newest first, and what holds of them: every file
  of the list is on disk; a descriptor held in a node is open on that file and on no other node;
  exactly the newest is active, with a writable descriptor; no datafile on disk is newer.
\<close>

definition data_path :: "string \<Rightarrow> u64 \<Rightarrow> string" where
  "data_path dir i = ext_path dir i FILE_DATA"

lemma data_path_inj [simp]: "data_path dir i = data_path dir j \<longleftrightarrow> i = j"
  by (simp add: data_path_def ext_path_inj)

definition data_bytes :: "'a files_state_scheme \<Rightarrow> u64 \<Rightarrow> byte list" where
  "data_bytes w i = bytes_at w (data_path (data_dir w) i)"

definition file_nodes :: "file_store \<Rightarrow> nat list \<Rightarrow> ccask_file list" where
  "file_nodes h ps = map (\<lambda>p. unlinked (the (h p))) ps"

definition node_ok :: "string \<Rightarrow> 'a posix_scheme \<Rightarrow> ccask_file \<Rightarrow> bool" where
  "node_ok dir w f \<longleftrightarrow> (\<exists>i. lookup_inode w (data_path dir (cf_id f)) = Some i
     \<and> (0 \<le> cf_fd f \<longrightarrow> (\<exists>d. open_fds w (cf_fd f) = Some d \<and> fd_inode d = i)))"

definition held_fds :: "ccask_file list \<Rightarrow> int list" where
  "held_fds fs = filter (\<lambda>fd. 0 \<le> fd) (map cf_fd fs)"

definition nodes_ok :: "string \<Rightarrow> 'a posix_scheme \<Rightarrow> ccask_file list \<Rightarrow> bool" where
  "nodes_ok dir w fs \<longleftrightarrow> (case fs of
      [] \<Rightarrow> False
    | f # gs \<Rightarrow> (\<forall>g \<in> set fs. node_ok dir w g)
        \<and> distinct (held_fds fs)
        \<and> cf_is_active f \<and> 0 \<le> cf_fd f \<and> (\<exists>d. open_fds w (cf_fd f) = Some d \<and> fd_writable d)
        \<and> (\<forall>g \<in> set gs. \<not> cf_is_active g)
        \<and> (\<forall>i. cf_id f < i \<longrightarrow> map_of (dir_entries w) (data_path dir i) = None))"

definition files_ok :: "'a files_state_scheme \<Rightarrow> nat list \<Rightarrow> bool" where
  "files_ok w ps \<longleftrightarrow> posix_inv w \<and> files_rep w ps
     \<and> nodes_ok (data_dir w) w (file_nodes (file_heap w) ps)
     \<and> set (hint_pending w) \<union> set (fd_invalidators w) \<subseteq> set ps"

lemma files_ok_ne: "files_ok w ps \<Longrightarrow> ps \<noteq> []"
  by (auto simp: files_ok_def nodes_ok_def file_nodes_def)

lemma node_ok_grows:
  "node_ok dir w f \<Longrightarrow> grows P F w w' \<Longrightarrow> posix_inv w \<Longrightarrow> cf_fd f \<notin> F \<Longrightarrow> node_ok dir w' f"
  using grows_lookup [of P F w w'] grows_fds [of P F w w' "cf_fd f"]
  by (fastforce simp: node_ok_def)

lemma data_bytes_grows:
  "grows P F w w' \<Longrightarrow> data_dir w' = data_dir w \<Longrightarrow> data_bytes w' i = data_bytes w i"
  by (simp add: data_bytes_def grows_bytes)

text \<open>Opening further descriptors, or creating paths that no newer datafile has, keeps the nodes.\<close>

lemma nodes_ok_grows:
  assumes "nodes_ok dir w (f # gs)" and "grows P {} w w'" and "posix_inv w"
    and "\<And>i. cf_id f < i \<Longrightarrow> data_path dir i \<notin> P"
  shows "nodes_ok dir w' (f # gs)"
proof -
  have "node_ok dir w' g" if "g \<in> set (f # gs)" for g
    using assms(1,2,3) that node_ok_grows by (fastforce simp: nodes_ok_def)
  moreover have "\<exists>d. open_fds w' (cf_fd f) = Some d \<and> fd_writable d"
    using assms(1) grows_fds [OF assms(2,3)] by (auto simp: nodes_ok_def)
  moreover have "map_of (dir_entries w') (data_path dir i) = None" if "cf_id f < i" for i
    using assms(1,2) assms(4) [OF that] that by (simp add: nodes_ok_def grows_def)
  ultimately show ?thesis using assms(1) by (simp add: nodes_ok_def)
qed

lemma files_ok_grows_same:
  assumes "files_ok w ps" and "grows P {} w w'" and "posix_inv w'"
    and "same_files w w'"
    and "\<And>i. id_of (file_heap w) (hd ps) < i \<Longrightarrow> data_path (data_dir w) i \<notin> P"
  shows "files_ok w' ps"
proof -
  note same = assms(4) [unfolded same_files_def]
  obtain p qs where ps: "ps = p # qs" using files_ok_ne [OF assms(1)] by (cases ps) auto
  obtain f where f: "file_heap w p = Some f"
    using assms(1) ps files_rep_allocated by (force simp: files_ok_def)
  have nodes: "file_nodes (file_heap w) ps = unlinked f # file_nodes (file_heap w) qs"
    using ps f by (simp add: file_nodes_def)
  have "nodes_ok (data_dir w) w' (unlinked f # file_nodes (file_heap w) qs)"
  proof (rule nodes_ok_grows [OF _ assms(2)])
    show "nodes_ok (data_dir w) w (unlinked f # file_nodes (file_heap w) qs)" "posix_inv w"
      using assms(1) nodes by (simp_all add: files_ok_def)
    show "data_path (data_dir w) i \<notin> P" if "cf_id (unlinked f) < i" for i
      using assms(5) that ps f by (simp add: unlinked_def)
  qed
  then have "nodes_ok (data_dir w') w' (file_nodes (file_heap w') ps)"
    using same ps f by (simp add: file_nodes_def)
  moreover have "files_rep w' ps"
    using assms(1) same by (simp add: files_ok_def files_rep_def files_list_def)
  ultimately show ?thesis using assms(1,3) same by (simp add: files_ok_def)
qed

lemma files_ok_grows:
  assumes "files_ok w ps" and "grows P {} w w'" and "posix_inv w'"
    and "posix.more w' = posix.more w"
    and "\<And>i. id_of (file_heap w) (hd ps) < i \<Longrightarrow> data_path (data_dir w) i \<notin> P"
  shows "files_ok w' ps"
  by (rule files_ok_grows_same [OF assms(1-3) same_files_more [OF assms(4)] assms(5)])

lemma file_nodes_links:
  assumes "same_but_links h h'" and "\<And>p. p \<in> set ps \<Longrightarrow> h p \<noteq> None"
  shows "file_nodes h' ps = file_nodes h ps"
proof -
  have "unlinked (the (h' p)) = unlinked (the (h p))" if "p \<in> set ps" for p
  proof -
    obtain f where "h p = Some f" using assms(2) [OF \<open>p \<in> set ps\<close>] by blast
    moreover have "map_option unlinked (h' p) = map_option unlinked (h p)"
      using assms(1) by (simp add: same_but_links_def)
    ultimately show ?thesis by auto
  qed
  then show ?thesis by (simp add: file_nodes_def)
qed

lemma file_nodes_Cons [simp]:
  "file_nodes h (p # ps) = unlinked (the (h p)) # file_nodes h ps"
  by (simp add: file_nodes_def)

lemma file_nodes_upd [simp]: "p \<notin> set ps \<Longrightarrow> file_nodes (h(p := x)) ps = file_nodes h ps"
  by (auto simp: file_nodes_def)

lemma unlinked_sel [simp]:
  "cf_id (unlinked f) = cf_id f" "cf_fd (unlinked f) = cf_fd f"
  "cf_is_active (unlinked f) = cf_is_active f" "cf_has_hint (unlinked f) = cf_has_hint f"
  by (simp_all add: unlinked_def)

text \<open>Closing the old active file and putting a new one in front of it.\<close>

lemma nodes_ok_rotate:
  assumes ok: "nodes_ok dir w (f # gs)" and inv: "posix_inv w"
    and gr: "grows {data_path dir (cf_id f + 1)} {cf_fd f} w w'"
    and new: "cf_id n = cf_id f + 1" "cf_is_active n" "opened_at (data_path dir (cf_id n)) True (cf_fd n) w w'"
    and old: "cf_id f' = cf_id f" "cf_fd f' = -1" "\<not> cf_is_active f'"
    and room: "cf_id f + 1 \<noteq> 0"
  shows "nodes_ok dir w' (n # f' # gs)"
proof -
  have nn: "0 \<le> next_fd w" using inv by (simp add: posix_inv_def)
  have dist: "distinct (held_fds (f # gs))" and f0: "0 \<le> cf_fd f"
    using ok by (simp_all add: nodes_ok_def)
  have gs: "node_ok dir w g" if "g \<in> set (f # gs)" for g
    using ok that by (auto simp: nodes_ok_def)
  have fdg: "cf_fd g < next_fd w" if "g \<in> set gs" for g
    using gs [of g] that inv nn by (force simp: node_ok_def posix_inv_def not_le)
  have gs': "node_ok dir w' g" if "g \<in> set gs" for g
  proof -
    have "cf_fd g \<noteq> cf_fd f"
    proof
      assume "cf_fd g = cf_fd f"
      moreover have "cf_fd g \<in> cf_fd ` set gs" using that by (rule imageI)
      ultimately have "cf_fd f \<in> set (held_fds gs)" using f0 by (simp add: held_fds_def)
      with dist f0 show False by (simp add: held_fds_def)
    qed
    with node_ok_grows [OF gs gr inv] that show ?thesis by simp
  qed
  have nfd: "next_fd w \<le> cf_fd n" using new(3) by (simp add: opened_at_def)
  have "node_ok dir w' n" using new(3) by (auto simp: node_ok_def opened_at_def)
  moreover have "node_ok dir w' f'"
    using gs [of f] old grows_lookup [OF gr] by (auto simp: node_ok_def)
  moreover have "distinct (held_fds (n # f' # gs))"
  proof -
    have "cf_fd n \<notin> cf_fd ` set gs" using nfd fdg by fastforce
    then show ?thesis using dist f0 old(2) by (auto simp: held_fds_def)
  qed
  moreover have "\<exists>d. open_fds w' (cf_fd n) = Some d \<and> fd_writable d"
    using new(3) by (auto simp: opened_at_def)
  moreover have "map_of (dir_entries w') (data_path dir i) = None" if "cf_id n < i" for i
  proof -
    have "cf_id f < cf_id f + 1" using room by (rule u64_less_inc)
    then have "cf_id f < i" "i \<noteq> cf_id f + 1" using that new(1) by auto
    then have "map_of (dir_entries w) (data_path dir i) = None" using ok by (simp add: nodes_ok_def)
    moreover have "map_of (dir_entries w') (data_path dir i) = map_of (dir_entries w) (data_path dir i)"
      using gr \<open>i \<noteq> cf_id f + 1\<close> by (simp add: grows_def)
    ultimately show ?thesis by simp
  qed
  ultimately show ?thesis
    using gs' new(2) nfd nn old(3) ok by (auto simp: nodes_ok_def)
qed


lemma alloc_file_cases:
  assumes "alloc_file w = (r, w')"
  obtains (failed) fs where "r = None" and "w' = w\<lparr>fault_script := fs\<rparr>"
      and "length fs \<le> length (fault_script w)"
  | (ok) fs where "r = Some (next_file_ptr w)"
      and "w' = w\<lparr>fault_script := fs, next_file_ptr := Suc (next_file_ptr w)\<rparr>"
      and "length fs \<le> length (fault_script w)"
proof -
  obtain b u where u: "sys_malloc w = (b, u)" by fastforce
  then obtain fs where "u = w\<lparr>fault_script := fs\<rparr>" "length fs \<le> length (fault_script w)"
    using sys_malloc_frame by blast
  note fs = this
  show ?thesis
  proof (cases b)
    case True
    have "r = Some (next_file_ptr w)" "w' = w\<lparr>fault_script := fs, next_file_ptr := Suc (next_file_ptr w)\<rparr>"
      using assms u True fs(1) by (simp_all add: alloc_file_def)
    then show ?thesis using ok fs(2) by blast
  next
    case False
    have "r = None" "w' = w\<lparr>fault_script := fs\<rparr>"
      using assms u False fs(1) by (simp_all add: alloc_file_def)
    then show ?thesis using failed fs(2) by blast
  qed
qed

lemma attempt_pthread_create_frame:
  "attempt_pthread_create w = (r, w') \<Longrightarrow>
     \<exists>fs. w' = w\<lparr>fault_script := fs\<rparr> \<and> length fs \<le> length (fault_script w)"
proof -
  let ?P = "\<lambda>u. \<exists>fs. u = w\<lparr>fault_script := fs\<rparr> \<and> length fs \<le> length (fault_script w)"
  assume a: "attempt_pthread_create w = (r, w')"
  have "?P w" by (intro exI [of _ "fault_script w"]) simp
  moreover have "?P u'"
    if "?P u" and s: "(let (ok, w') = sys_pthread_create u in (if ok then 0 else 11 :: int, w')) = (s, u')"
    for u s u'
  proof -
    obtain ok where "sys_pthread_create u = (ok, u')" using s by (auto split: prod.splits)
    then obtain gs where "u' = u\<lparr>fault_script := gs\<rparr>" "length gs \<le> length (fault_script u)"
      using sys_pthread_create_frame by blast
    with that(1) show ?thesis by auto
  qed
  ultimately show "?P w'"
    by (rule ccask_attempt_inv [where P = ?P, OF a [unfolded attempt_pthread_create_def]])
qed

text \<open>Starting a generator thread touches nothing but the thread list.\<close>

definition hint_frame :: "nat list \<Rightarrow> 'a files_state_scheme \<Rightarrow> 'a files_state_scheme \<Rightarrow> bool" where
  "hint_frame xs w w' \<longleftrightarrow> (\<exists>fs e. w' = w\<lparr>fault_script := fs, ccask_errno := e,
       hint_threads := xs @ hint_threads w, hint_pending := xs @ hint_pending w\<rparr>
       \<and> length fs \<le> length (fault_script w))"

lemma hint_frame_faults:
  "w' = w\<lparr>fault_script := fs\<rparr> \<Longrightarrow> length fs \<le> length (fault_script w) \<Longrightarrow> hint_frame [] w (set_errno e w')"
  "w' = w\<lparr>fault_script := fs\<rparr> \<Longrightarrow> length fs \<le> length (fault_script w)
     \<Longrightarrow> hint_frame xs w (w'\<lparr>hint_threads := xs @ hint_threads w', hint_pending := xs @ hint_pending w'\<rparr>)"
proof -
  assume w': "w' = w\<lparr>fault_script := fs\<rparr>" "length fs \<le> length (fault_script w)"
  show "hint_frame [] w (set_errno e w')"
    unfolding hint_frame_def by (rule exI [of _ fs], rule exI [of _ e]) (simp add: w' set_errno_def)
  show "hint_frame xs w (w'\<lparr>hint_threads := xs @ hint_threads w', hint_pending := xs @ hint_pending w'\<rparr>)"
    unfolding hint_frame_def by (rule exI [of _ fs], rule exI [of _ "ccask_errno w"]) (simp add: w')
qed

lemma ccask_hintfile_generate_frame:
  assumes "ccask_hintfile_generate p w = (r, w')"
  shows "hint_frame (if r = CCASK_OK then [p] else []) w w'"
proof -
  obtain ok w1 where w1: "sys_malloc w = (ok, w1)" by fastforce
  then obtain fs where fs: "w1 = w\<lparr>fault_script := fs\<rparr>" "length fs \<le> length (fault_script w)"
    using sys_malloc_frame by blast
  obtain res w2 where w2: "attempt_pthread_create w1 = (res, w2)" by fastforce
  then obtain gs where "w2 = w1\<lparr>fault_script := gs\<rparr>" "length gs \<le> length (fault_script w1)"
    using attempt_pthread_create_frame by blast
  with fs have gs: "w2 = w\<lparr>fault_script := gs\<rparr>" "length gs \<le> length (fault_script w)" by simp_all
  show ?thesis
    using assms w1 w2 hint_frame_faults(1) [OF fs] hint_frame_faults(1) [OF gs] hint_frame_faults(2) [OF gs, of "[p]"]
    by (auto simp: ccask_hintfile_generate_def split: if_splits)
qed

lemma hint_frame_refl: "hint_frame [] w w"
  unfolding hint_frame_def by (rule exI [of _ "fault_script w"], rule exI [of _ "ccask_errno w"]) simp

lemma hint_frame_trans:
  assumes "hint_frame [] w w'" and "hint_frame xs w' w''"
  shows "hint_frame xs w w''"
proof -
  obtain fs e where a: "w' = w\<lparr>fault_script := fs, ccask_errno := e, hint_threads := hint_threads w,
      hint_pending := hint_pending w\<rparr>" "length fs \<le> length (fault_script w)"
    using assms(1) by (auto simp: hint_frame_def)
  obtain gs e' where b: "w'' = w'\<lparr>fault_script := gs, ccask_errno := e', hint_threads := xs @ hint_threads w',
      hint_pending := xs @ hint_pending w'\<rparr>" "length gs \<le> length (fault_script w')"
    using assms(2) by (auto simp: hint_frame_def)
  have "w'' = w\<lparr>fault_script := gs, ccask_errno := e', hint_threads := xs @ hint_threads w,
      hint_pending := xs @ hint_pending w\<rparr>" "length gs \<le> length (fault_script w)"
    using a b by simp_all
  then show ?thesis unfolding hint_frame_def by blast
qed

lemma attempt_generate_frame:
  assumes "ccask_attempt 5 CCASK_RETRY (ccask_hintfile_generate p) w = (r, w')"
  obtains xs where "hint_frame xs w w'" and "xs = [] \<or> xs = [p]"
proof -
  have keep: "hint_frame [] w u'" if "hint_frame [] w u" "ccask_hintfile_generate p u = (CCASK_RETRY, u')" for u u'
    using hint_frame_trans [OF that(1) ccask_hintfile_generate_frame [OF that(2)]] by simp
  have start: "hint_frame [] w w" by (rule hint_frame_refl)
  consider (last) u where "hint_frame [] w u" "ccask_hintfile_generate p u = (r, w')" | (none) "hint_frame [] w w'"
    by (rule ccask_attempt_last [where P = "hint_frame [] w", OF assms start]) (use keep in blast)+
  then show thesis
  proof cases
    case (last u)
    have "hint_frame (if r = CCASK_OK then [p] else []) w w'"
      using last(1) ccask_hintfile_generate_frame [OF last(2)] by (rule hint_frame_trans)
    then show thesis by (rule that) simp
  next
    case none
    then show thesis by (rule that) simp
  qed
qed

lemma create_new_active_datafile_result:
  assumes "create_new_active_datafile i p w = (st, w')" and "posix_inv w"
  obtains (failed) "st = CCASK_FAIL" and "posix.more w' = posix.more w"
      and "grows {} {} w w'" and "posix_inv w'"
  | (ok) u n where "st = CCASK_OK" and "posix.more u = posix.more w"
      and "grows {data_path (data_dir w) i} {} w u" and "posix_inv u"
      and "w' = u\<lparr>file_heap := (file_heap w)(p \<mapsto> n)\<rparr>"
      and "cf_id n = i" and "cf_is_active n" and "\<not> cf_has_hint n"
      and "opened_at (data_path (data_dir w) i) True (cf_fd n) w u"
proof -
  obtain fd u where u: "attempt_fd (ccask_files_get_active_datafile_fd i) w = (fd, u)" by fastforce
  note r = attempt_open_result [OF u [unfolded ccask_files_get_active_datafile_fd_def] assms(2),
      unfolded creates_def, simplified, folded data_path_def]
  have heap: "file_heap u = file_heap w" using r(3) same_files_fields by blast
  show ?thesis
  proof (cases "fd < 0")
    case True
    with assms(1) u have "st = CCASK_FAIL" "w' = u" by (auto simp: create_new_active_datafile_def)
    with r True show ?thesis by (intro failed) simp_all
  next
    case False
    let ?n = "\<lparr>cf_id = i, cf_fd = fd, cf_last_accessed = clock u, cf_has_hint = False,
      cf_is_active = True, cf_is_fd_invalidator_running = False, cf_next = None, cf_previous = None\<rparr>"
    have "st = CCASK_OK" "w' = u\<lparr>file_heap := (file_heap w)(p \<mapsto> ?n)\<rparr>"
      using assms(1) u False heap by (auto simp: create_new_active_datafile_def)
    with r False show ?thesis by (intro ok [of u ?n]) simp_all
  qed
qed


text \<open>
  Rotation either fails and changes nothing that matters, or puts one new empty active file in front
  of the list.  No datafile's contents change either way.
\<close>

lemma hint_frame_fields:
  assumes "hint_frame xs w w'"
  shows "max_active_file_size w' = max_active_file_size w" "data_dir w' = data_dir w"
    "file_table w' = file_table w" "files_head w' = files_head w" "files_tail w' = files_tail w"
    "file_heap w' = file_heap w" "next_file_ptr w' = next_file_ptr w"
    "files_state.more w' = files_state.more w" "posix_inv w' = posix_inv w"
    "grows P F w w'" "fd_invalidators w' = fd_invalidators w"
    "hint_pending w' = xs @ hint_pending w" "hint_threads w' = xs @ hint_threads w"
  using assms by (auto simp: hint_frame_def posix_inv_def intro!: grows_same)

lemma files_list_head: "files_list w (p # ps) \<Longrightarrow> files_head w = Some p"
  by (simp add: files_list_def)

lemma files_list_next:
  "files_list w (p # q # ps) \<Longrightarrow> file_heap w p = Some f \<Longrightarrow> cf_next f = Some q"
  by (simp add: files_list_def)

lemma insert_newer_first: "(\<And>q. q \<in> set ps \<Longrightarrow> f q < f p) \<Longrightarrow> insert_newer f p ps = p # ps"
proof (cases ps)
  case (Cons q qs)
  assume "\<And>q. q \<in> set ps \<Longrightarrow> f q < f p"
  with Cons have "f q < f p" by simp
  then have "\<not> f p < f q" by simp
  with Cons show ?thesis by (simp add: insert_newer_def)
qed (simp add: insert_newer_def)

text \<open>The file table when the new node exists and the old head is closed: the new node goes in front.\<close>

lemma rotate_add_ready:
  assumes rep: "files_rep w (p # ps)" and f: "file_heap w p = Some f" and idf: "cf_id f + 1 \<noteq> 0"
    and idn: "cf_id n = cf_id f + 1" and q: "q = next_file_ptr w"
    and same: "files_head w4 = files_head w" "files_tail w4 = files_tail w"
      "file_table w4 = file_table w" "next_file_ptr w4 = Suc q"
    and heap4: "file_heap w4 = (file_heap w)(q \<mapsto> n, p \<mapsto> f\<lparr>cf_fd := -1, cf_is_active := False\<rparr>)"
  shows "files_rep w4 (p # ps)" and "file_heap w4 q = Some n" and "q \<notin> set (p # ps)"
    and "cf_id n \<notin> id_of (file_heap w4) ` set (p # ps)"
    and "insert_newer (id_of (file_heap w4)) q (p # ps) = q # p # ps"
    and "\<And>r. r \<in> set (p # ps) \<Longrightarrow> id_of (file_heap w4) r = id_of (file_heap w) r"
proof -
  have fresh: "r < q" if "file_heap w r \<noteq> None" for r
    using rep that q by (auto simp: files_rep_def)
  have list: "files_list w (p # ps)" using rep by (simp add: files_rep_def)
  show qps: "q \<notin> set (p # ps)"
    using files_rep_allocated [OF rep] fresh by (metis less_irrefl option.distinct(1))
  then have pq: "p \<noteq> q" by simp
  then show n4: "file_heap w4 q = Some n" using heap4 by simp
  have links4: "\<exists>g. file_heap w4 r = Some g \<and> cf_id g = cf_id h \<and> cf_next g = cf_next h
      \<and> cf_previous g = cf_previous h" if "r \<in> set (p # ps)" "file_heap w r = Some h" for r h
    using that qps f heap4 by auto
  have alloc4: "r < next_file_ptr w4" if "file_heap w4 r \<noteq> None" for r
    using that fresh [of r] f same(4) heap4 by (cases "r = q") (auto split: if_splits)
  show rep4: "files_rep w4 (p # ps)" and id4: "\<And>r. r \<in> set (p # ps) \<Longrightarrow>
      id_of (file_heap w4) r = id_of (file_heap w) r"
    using files_rep_cong [OF rep same(1-3) links4 alloc4] by blast+
  have older: "id_of (file_heap w4) r < cf_id n" if "r \<in> set (p # ps)" for r
  proof -
    have "id_of (file_heap w) r \<le> cf_id f"
      using list that f by (auto simp: files_list_def intro: less_imp_le)
    then show ?thesis using id4 [OF that] u64_less_inc [OF idf] idn by simp
  qed
  then show "cf_id n \<notin> id_of (file_heap w4) ` set (p # ps)" by force
  have "id_of (file_heap w4) q = cf_id n" using n4 by simp
  with older show "insert_newer (id_of (file_heap w4)) q (p # ps) = q # p # ps"
    by (intro insert_newer_first) simp
qed

lemma ccask_files_rotate_result:
  assumes ok: "files_ok w (p # ps)" and rot: "ccask_files_rotate w = Some (st, w')"
    and room: "id_of (file_heap w) p + 1 \<noteq> 0"
  obtains (failed) "st = CCASK_FAIL" and "files_ok w' (p # ps)" and "grows {} {} w w'"
      and "file_heap w' = file_heap w" and "data_dir w' = data_dir w"
      and "max_active_file_size w' = max_active_file_size w"
      and "files_state.more w' = files_state.more w"
      and "files_head w' = files_head w" and "hint_pending w' = hint_pending w"
  | (rotated) q f where "st = CCASK_OK" and "files_ok w' (q # p # ps)"
      and "file_heap w p = Some f"
      and "grows {data_path (data_dir w) (cf_id f + 1)} {cf_fd f} w w'"
      and "id_of (file_heap w') q = cf_id f + 1" and "q \<notin> set (p # ps)"
      and "\<And>r. r \<in> set (p # ps) \<Longrightarrow> id_of (file_heap w') r = id_of (file_heap w) r"
      and "data_dir w' = data_dir w" and "max_active_file_size w' = max_active_file_size w"
      and "files_state.more w' = files_state.more w"
      and "hint_pending w' = hint_pending w \<or> hint_pending w' = p # hint_pending w"
      and "has_hint_of (file_heap w') = has_hint_of (file_heap w)" and "file_heap w q = None"
proof -
  have inv: "posix_inv w" and rep: "files_rep w (p # ps)"
    and nodes: "nodes_ok (data_dir w) w (file_nodes (file_heap w) (p # ps))"
    and threads: "set (hint_pending w) \<union> set (fd_invalidators w) \<subseteq> set (p # ps)"
    using ok by (simp_all add: files_ok_def)
  have list: "files_list w (p # ps)" and fresh: "\<And>q. file_heap w q \<noteq> None \<Longrightarrow> q < next_file_ptr w"
    using rep by (auto simp: files_rep_def)
  obtain f where f: "file_heap w p = Some f" using files_rep_allocated [OF rep] by auto
  have idf: "cf_id f + 1 \<noteq> 0" using room f by simp
  obtain nf w1 where w1: "alloc_file w = (nf, w1)" by fastforce
  then show thesis
  proof (cases rule: alloc_file_cases)
    case (failed fs)
    then have w': "w' = set_errno CCASK_ERR_NO_MEMORY w1" "st = CCASK_FAIL"
      using rot w1 by (auto simp: ccask_files_rotate_def)
    then have more: "posix.more w' = posix.more w" and g: "grows {} {} w w'" and "posix_inv w'"
      using failed inv by (auto simp: set_errno_def intro!: grows_same)
    then have "files_ok w' (p # ps)" using ok by (intro files_ok_grows [OF ok g]) simp_all
    with w' g same_files_fields [OF more] show thesis by (intro that(1)) simp_all
  next
    case (ok fs)
    let ?q = "next_file_ptr w"
    have q: "file_heap w ?q = None" using fresh [of ?q] by (cases "file_heap w ?q") auto
    have hd1: "files_head w1 = Some p" and hp1: "file_heap w1 p = Some f" and dd1: "data_dir w1 = data_dir w"
      using ok files_list_head [OF list] f by simp_all
    have inv1: "posix_inv w1" using ok inv by (simp add: posix_inv_def)
    have g1: "grows P F w w1" for P F using ok by (intro grows_same) simp_all
    obtain st2 w2 where w2: "create_new_active_datafile (cf_id f + 1) ?q w1 = (st2, w2)" by fastforce
    from w2 inv1 show thesis
    proof (cases rule: create_new_active_datafile_result)
      case failed
      have w': "w' = w2" "st = CCASK_FAIL"
        using rot w1 ok hd1 hp1 w2 failed(1) by (auto simp: ccask_files_rotate_def)
      have g: "grows {} {} w w'" using grows_trans_same [OF g1 failed(3)] w' by simp
      note same = same_files_fields [OF failed(2)]
      have heap: "file_heap w' = file_heap w" using same ok w' by simp
      have "files_rep w' (p # ps)"
        by (rule files_rep_cong(1) [OF rep])
           (use same ok w' heap fresh in \<open>auto simp: less_Suc_eq\<close>)
      moreover have "nodes_ok (data_dir w) w' (file_nodes (file_heap w') (p # ps))"
        using nodes_ok_grows [OF _ g inv] nodes heap by simp
      ultimately have "files_ok w' (p # ps)"
        using failed(4) w' same ok threads by (simp add: files_ok_def)
      then show thesis using w' g heap same ok by (intro that(1)) simp_all
    next
      case created: (ok u n)
      note su = same_files_fields [OF created(2)]
      let ?f' = "f\<lparr>cf_fd := -1, cf_is_active := False\<rparr>"
      let ?w4 = "(sys_close (cf_fd f) w2)\<lparr>file_heap := (file_heap w)(?q \<mapsto> n, p \<mapsto> ?f')\<rparr>"
      have pq: "p \<noteq> ?q" using f q by auto
      have heap2: "file_heap w2 = (file_heap w)(?q \<mapsto> n)" using created(5) ok by simp
      have hp3: "file_heap (sys_close (cf_fd f) w2) = (file_heap w)(?q \<mapsto> n)"
        using heap2 by (simp add: sys_close_def)
      obtain w5 where w5: "add_file ?q ?w4 = Some w5"
        and tail: "do { head' \<leftarrow> files_head w5; h' \<leftarrow> file_heap w5 head'; older \<leftarrow> cf_next h';
            let (res, w6) = ccask_attempt 5 CCASK_RETRY (ccask_hintfile_generate older) w5;
            Some (CCASK_OK, w6) } = Some (st, w')"
        using rot w1 ok hd1 hp1 w2 created(1) hp3 f pq
        by (auto simp: ccask_files_rotate_def bind_eq_Some_conv write_file_def)
      have fields4: "files_head ?w4 = files_head w" "files_tail ?w4 = files_tail w"
        "file_table ?w4 = file_table w" "next_file_ptr ?w4 = Suc (next_file_ptr w)"
        "data_dir ?w4 = data_dir w" "max_active_file_size ?w4 = max_active_file_size w"
        "files_state.more ?w4 = files_state.more w"
        using created(5) su ok by (simp_all add: sys_close_def)
      have dist: "distinct (p # ps)" using rep by (rule files_rep_distinct)
      have heap4: "file_heap ?w4 = (file_heap w)(?q \<mapsto> n, p \<mapsto> ?f')" by simp
      note ready = rotate_add_ready [OF rep f idf created(6) refl fields4(1-4) heap4]
      note rep4 = ready(1) and n4 = ready(2) and qps = ready(3) and newid = ready(4) and id4 = ready(6)
      have lt4: "?q < next_file_ptr ?w4" using fields4(4) by simp
      from add_file_rep [OF rep4 n4 qps lt4 newid w5] ready(5)
      have rep5: "files_rep w5 (?q # p # ps)" and links5: "same_but_links (file_heap ?w4) (file_heap w5)"
        and upd5: "\<exists>h t hp tab fs. w5 = ?w4\<lparr>files_head := h, files_tail := t, file_heap := hp,
           file_table := tab, fault_script := fs\<rparr> \<and> length fs \<le> length (fault_script ?w4)"
        by simp_all
      have fields5: "data_dir w5 = data_dir w" "max_active_file_size w5 = max_active_file_size w"
        "files_state.more w5 = files_state.more w"
        using upd5 fields4 by auto
      have id5: "id_of (file_heap w5) = id_of (file_heap ?w4)" using links5 by (rule same_but_links_id)
      have inv5: "posix_inv w5"
      proof -
        have "posix_inv (sys_close (cf_fd f) w2)"
          using created(4,5) by (intro posix_inv_close) (simp add: posix_inv_def)
        then have "posix_inv ?w4" by (simp add: posix_inv_def)
        with upd5 show ?thesis by (auto simp: posix_inv_def)
      qed
      have g5: "grows {data_path (data_dir w) (cf_id f + 1)} {cf_fd f} w w5"
      proof -
        let ?P = "{data_path (data_dir w) (cf_id f + 1)}" and ?F = "{cf_fd f}"
        have "grows ?P {} w u" using grows_trans_same [OF g1 created(3)] dd1 by simp
        then have "grows ?P ?F w u" by (rule grows_mono) simp_all
        moreover have "grows ?P ?F u w2" using created(5) by (intro grows_same) simp_all
        moreover have "grows ?P ?F w2 (sys_close (cf_fd f) w2)" by (rule grows_mono [OF grows_close]) simp_all
        moreover have "grows ?P ?F (sys_close (cf_fd f) w2) w5"
          using upd5 by (auto intro!: grows_same)
        ultimately show ?thesis by (meson grows_trans_same)
      qed
      have nodef: "node_ok (data_dir w) w (unlinked f)" and "0 \<le> cf_fd f"
        using nodes f by (simp_all add: nodes_ok_def)
      then obtain d where "open_fds w (cf_fd f) = Some d" by (auto simp: node_ok_def)
      then have "cf_fd f < next_fd w" using inv by (simp add: posix_inv_def)
      have opened: "opened_at (data_path (data_dir w) (cf_id n)) True (cf_fd n) w w5"
      proof -
        have o: "opened_at (data_path (data_dir w) (cf_id n)) True (cf_fd n) w u"
          using created(6,9) dd1 ok by (simp add: opened_at_def)
        have "cf_fd n \<noteq> cf_fd f" using o \<open>cf_fd f < next_fd w\<close> by (simp add: opened_at_def)
        moreover have "lookup_inode w5 x = lookup_inode u x" for x
          using upd5 created(5) by (intro lookup_inode_cong) (auto simp: sys_close_def)
        moreover have "next_fd w5 = next_fd u" "open_fds w5 = (open_fds u)(cf_fd f := None)"
          using upd5 created(5) by (auto simp: sys_close_def)
        ultimately show ?thesis using o by (simp add: opened_at_def)
      qed
      have nodes5: "file_nodes (file_heap w5) (?q # p # ps)
          = unlinked n # unlinked ?f' # file_nodes (file_heap w) ps"
      proof -
        have "file_nodes (file_heap w5) (?q # p # ps) = file_nodes (file_heap ?w4) (?q # p # ps)"
          using links5 n4 rep4 files_rep_allocated by (intro file_nodes_links) fastforce+
        also have "\<dots> = unlinked n # unlinked ?f' # file_nodes (file_heap w) ps"
          using qps dist pq by simp
        finally show ?thesis .
      qed
      have nodes5_ok: "nodes_ok (data_dir w) w5 (unlinked n # unlinked ?f' # file_nodes (file_heap w) ps)"
        by (rule nodes_ok_rotate [of _ w "unlinked f"])
           (use nodes f inv g5 created(6,7) opened idf in simp_all)
      have threads5: "hint_pending w5 = hint_pending w" "fd_invalidators w5 = fd_invalidators w"
        using upd5 su created(5) ok by (auto simp: sys_close_def)
      have "files_head w5 = Some ?q" using rep5 files_list_head [of w5 ?q "p # ps"] by (simp add: files_rep_def)
      moreover have "cf_next h = Some p" if "file_heap w5 ?q = Some h" for h
        using rep5 that files_list_next [of w5 ?q p ps h] by (simp add: files_rep_def)
      ultimately have y: "(let (res, w6) = ccask_attempt 5 CCASK_RETRY (ccask_hintfile_generate p) w5
          in Some (CCASK_OK, w6)) = Some (st, w')"
        using tail unfolding bind_eq_Some_conv by force
      obtain res where res: "ccask_attempt 5 CCASK_RETRY (ccask_hintfile_generate p) w5 = (res, w')" and st: "st = CCASK_OK"
        using y by (cases "ccask_attempt 5 CCASK_RETRY (ccask_hintfile_generate p) w5") auto
      obtain xs where gen: "hint_frame xs w5 w'" and xs: "xs = [] \<or> xs = [p]"
        using attempt_generate_frame [OF res] by blast
      note hf = hint_frame_fields [OF gen]
      have "files_ok w' (?q # p # ps)"
        unfolding files_ok_def
      proof (intro conjI)
        show "posix_inv w'" using hf inv5 by simp
        show "files_rep w' (?q # p # ps)"
          using rep5 hf by (simp add: files_rep_def files_list_def)
        have "nodes_ok (data_dir w) w' (unlinked n # unlinked ?f' # file_nodes (file_heap w) ps)"
          by (rule nodes_ok_grows [OF nodes5_ok, of "{}"]) (use hf inv5 in simp_all)
        then show "nodes_ok (data_dir w') w' (file_nodes (file_heap w') (?q # p # ps))"
          using nodes5 hf fields5 by simp
        show "set (hint_pending w') \<union> set (fd_invalidators w') \<subseteq> set (?q # p # ps)"
          using threads threads5 hf(11,12) xs by auto
      qed
      moreover have "grows {data_path (data_dir w) (cf_id f + 1)} {cf_fd f} w w'"
        using grows_trans_same [OF g5 hf(10)] by simp
      moreover have "id_of (file_heap w') ?q = cf_id f + 1"
      proof -
        have "id_of (file_heap ?w4) ?q = cf_id n" by (simp only: id_of_def n4 option.case)
        then show ?thesis by (simp only: hf(6) id5 created(6))
      qed
      moreover have "id_of (file_heap w') r = id_of (file_heap w) r" if "r \<in> set (p # ps)" for r
        using id4 [OF that] hf(6) id5 by simp
      moreover have "hint_pending w' = hint_pending w \<or> hint_pending w' = p # hint_pending w"
        using hf(12) threads5 xs by auto
      moreover have "has_hint_of (file_heap w') = has_hint_of (file_heap w)"
      proof -
        have "has_hint_of (file_heap ?w4) = has_hint_of (file_heap w)"
          unfolding heap4 using created(8) f pq q by (auto simp: has_hint_of_def fun_eq_iff)
        with same_but_links_has_hint [OF links5] show ?thesis by (simp only: hf(6))
      qed
      ultimately show thesis using st f q qps hf fields5 by (intro that(2)) simp_all
    qed
  qed
qed


lemma build_ext_path_no_fault [no_fault_simps]:
  "fault_script w = [] \<Longrightarrow> ext \<noteq> FILE_UNKNOWN \<Longrightarrow>
     build_filepath dir i ext w = (Some (ext_path dir i ext), w)"
  by (cases ext) (simp_all add: build_filepath_def ext_path_def ext_chars_def sys_malloc_no_fault)

lemma grows_no_fault: "grows P F w w' \<Longrightarrow> fault_script w = [] \<Longrightarrow> fault_script w' = []"
  by (simp add: grows_def)

text \<open>Without faults a file that exists can be opened, and an active file can be created.\<close>

lemma attempt_open_no_fault:
  assumes "fault_script w = []" and "posix_inv w" and "ext \<noteq> FILE_UNKNOWN"
    and "lookup_inode w (ext_path (data_dir w) i ext) \<noteq> None
      \<or> flags = CREAT_RDWR_APPEND \<and> map_of (dir_entries w) (ext_path (data_dir w) i ext) = None"
    and "attempt_fd (open_datafile ext flags perm i) w = (fd, w')"
  shows "0 \<le> fd"
proof -
  let ?p = "ext_path (data_dir w) i ext"
  obtain u where u: "sys_open (Some ?p) flags w = (Inr (next_fd w), u)"
    using assms(1,4) by (auto simp: sys_open_no_fault sys_open_create_no_fault)
  then have "open_datafile ext flags perm i w = (next_fd w, u)"
    using assms(1,3) by (simp add: open_datafile_def build_ext_path_no_fault)
  moreover have "0 \<le> next_fd w" using assms(2) by (simp add: posix_inv_def)
  ultimately have "attempt_fd (open_datafile ext flags perm i) w = (next_fd w, u)"
    unfolding attempt_fd_def by (intro ccask_attempt_done) simp_all
  with assms(5) \<open>0 \<le> next_fd w\<close> show ?thesis by simp
qed

lemma alloc_file_no_fault [no_fault_simps]:
  "fault_script w = [] \<Longrightarrow>
     alloc_file w = (Some (next_file_ptr w), w\<lparr>next_file_ptr := Suc (next_file_ptr w)\<rparr>)"
  by (simp add: alloc_file_def sys_malloc_no_fault)

lemma create_no_fault:
  assumes "fault_script w = []" and "posix_inv w"
    and "map_of (dir_entries w) (data_path (data_dir w) i) = None"
    and "create_new_active_datafile i p w = (st, w')"
  shows "st = CCASK_OK"
proof -
  obtain fd u where u: "attempt_fd (ccask_files_get_active_datafile_fd i) w = (fd, u)" by fastforce
  have "0 \<le> fd"
    using attempt_open_no_fault [OF assms(1,2) _ _ u [unfolded ccask_files_get_active_datafile_fd_def]]
      assms(3) by (simp add: data_path_def)
  with u assms(4) show ?thesis by (auto simp: create_new_active_datafile_def)
qed

lemma add_file_no_fault:
  assumes "files_rep w ps" and "file_heap w p = Some f" and "p \<notin> set ps"
    and "cf_id f \<notin> id_of (file_heap w) ` set ps" and "fault_script w = []"
  shows "\<exists>w'. add_file p w = Some w'"
proof -
  have "files_list w ps" using assms(1) by (simp add: files_rep_def)
  then obtain u where u: "add_file_to_linked_list p w = Some u" "list_frame w u"
    using add_file_to_linked_list_spec assms(2-4) by metis
  then obtain g where g: "file_heap u p = Some g"
    using assms(2) unfolding list_frame_def same_but_links_def
    by (metis map_option_is_None option.distinct(1) option.exhaust)
  have "fault_script u = []" using u(2) assms(5) by (auto simp: list_frame_def)
  with u g show ?thesis by (simp add: add_file_def hash_add_keyptr_no_fault)
qed

lemma ccask_files_rotate_no_fault:
  assumes ok: "files_ok w (p # ps)" and room: "id_of (file_heap w) p + 1 \<noteq> 0"
    and nf: "fault_script w = []"
  shows "\<exists>w'. ccask_files_rotate w = Some (CCASK_OK, w')"
proof -
  have inv: "posix_inv w" and rep: "files_rep w (p # ps)"
    and nodes: "nodes_ok (data_dir w) w (file_nodes (file_heap w) (p # ps))"
    using ok by (simp_all add: files_ok_def)
  have list: "files_list w (p # ps)" using rep by (simp add: files_rep_def)
  obtain f where f: "file_heap w p = Some f" using files_rep_allocated [OF rep] by auto
  have idf: "cf_id f + 1 \<noteq> 0" using room f by simp
  let ?q = "next_file_ptr w" and ?w1 = "w\<lparr>next_file_ptr := Suc (next_file_ptr w)\<rparr>"
  have inv1: "posix_inv ?w1" and nf1: "fault_script ?w1 = []" using inv nf by (simp_all add: posix_inv_def)
  have hd1: "files_head ?w1 = Some p" using files_list_head [OF list] by simp
  obtain st2 w2 where w2: "create_new_active_datafile (cf_id f + 1) ?q ?w1 = (st2, w2)" by fastforce
  have "map_of (dir_entries w) (data_path (data_dir w) (cf_id f + 1)) = None"
    using nodes f u64_less_inc [OF idf] by (simp add: nodes_ok_def)
  then have st2: "st2 = CCASK_OK" using create_no_fault [OF nf1 inv1 _ w2] by simp
  from w2 inv1 show ?thesis
  proof (cases rule: create_new_active_datafile_result)
    case failed
    with st2 show ?thesis by simp
  next
    case created: (ok u n)
    note su = same_files_fields [OF created(2)]
    let ?w4 = "(sys_close (cf_fd f) w2)\<lparr>file_heap := (file_heap w)(?q \<mapsto> n,
      p \<mapsto> f\<lparr>cf_fd := -1, cf_is_active := False\<rparr>)\<rparr>"
    have fields4: "files_head ?w4 = files_head w" "files_tail ?w4 = files_tail w"
      "file_table ?w4 = file_table w" "next_file_ptr ?w4 = Suc (next_file_ptr w)"
      using created(5) su by (simp_all add: sys_close_def)
    have heap4: "file_heap ?w4 = (file_heap w)(?q \<mapsto> n, p \<mapsto> f\<lparr>cf_fd := -1, cf_is_active := False\<rparr>)"
      by simp
    note ready = rotate_add_ready [OF rep f idf created(6) refl fields4 heap4]
    have "fault_script u = []" using grows_no_fault [OF created(3)] nf by simp
    then have nf4: "fault_script ?w4 = []" using created(5) by (simp add: sys_close_def)
    obtain w5 where w5: "add_file ?q ?w4 = Some w5"
      using add_file_no_fault [OF ready(1-4) nf4] by blast
    have lt4: "?q < next_file_ptr ?w4" using fields4(4) by simp
    have rep5: "files_rep w5 (?q # p # ps)"
      using add_file_rep(1) [OF ready(1,2,3) lt4 ready(4) w5] ready(5) by simp
    then have list5: "files_list w5 (?q # p # ps)" by (simp add: files_rep_def)
    obtain g where g: "file_heap w5 ?q = Some g" using files_rep_allocated [OF rep5] by auto
    have "files_head w5 = Some ?q" "cf_next g = Some p"
      using files_list_head [OF list5] files_list_next [OF list5 g] by simp_all
    moreover have "file_heap (sys_close (cf_fd f) w2) = (file_heap w)(?q \<mapsto> n)" "p \<noteq> ?q"
      using created(5) ready(3) by (simp_all add: sys_close_def)
    ultimately show ?thesis
      using w2 st2 hd1 f w5 g nf
      by (auto simp: ccask_files_rotate_def alloc_file_no_fault write_file_def split: prod.splits)
  qed
qed

section \<open>A directory with one datafile\<close>

text \<open>
  The directory "d" with the active datafile 0, which holds \<open>bs\<close>, open for appending; the datafiles
  are limited to 1000 bytes.
\<close>

definition demo_node :: ccask_file where
  "demo_node = \<lparr>cf_id = 0, cf_fd = 3, cf_last_accessed = 0, cf_has_hint = False, cf_is_active = True,
     cf_is_fd_invalidator_running = False, cf_next = None, cf_previous = None\<rparr>"

definition demo_files :: "byte list \<Rightarrow> 'a \<Rightarrow> 'a files_state_scheme" where
  "demo_files bs x = \<lparr>dir_entries = [(data_path ''d'' 0, Regular 0)], inode_data = (\<lambda>_. [])(0 := bs),
     next_inode = 1, open_fds = [3 \<mapsto> \<lparr>fd_inode = 0, fd_writable = True\<rparr>], fd_offsets = \<lambda>_. 0,
     next_fd = 4, fault_script = [], clock = 7, ccask_errno = CCASK_ERR_UNKNOWN,
     max_active_file_size = 1000, data_dir = ''d'', file_table = hash_add (host64 0) 0 None,
     files_head = Some 0, files_tail = Some 0, file_heap = [0 \<mapsto> demo_node], next_file_ptr = 1,
     hint_threads = [], hint_pending = [], fd_invalidators = [], \<dots> = x\<rparr>"

lemma demo_files_fields [simp]:
  "dir_entries (demo_files bs x) = [(data_path ''d'' 0, Regular 0)]"
  "inode_data (demo_files bs x) = (\<lambda>_. [])(0 := bs)" "next_inode (demo_files bs x) = 1"
  "open_fds (demo_files bs x) = [3 \<mapsto> \<lparr>fd_inode = 0, fd_writable = True\<rparr>]"
  "next_fd (demo_files bs x) = 4" "fault_script (demo_files bs x) = []" "clock (demo_files bs x) = 7"
  "max_active_file_size (demo_files bs x) = 1000" "data_dir (demo_files bs x) = ''d''"
  "file_table (demo_files bs x) = hash_add (host64 0) 0 None"
  "files_head (demo_files bs x) = Some 0" "files_tail (demo_files bs x) = Some 0"
  "file_heap (demo_files bs x) = [0 \<mapsto> demo_node]" "next_file_ptr (demo_files bs x) = 1"
  "files_state.more (demo_files bs x) = x"
  by (simp_all add: demo_files_def)

lemma demo_node_fields [simp]:
  "cf_id demo_node = 0" "cf_fd demo_node = 3" "\<not> cf_has_hint demo_node" "cf_is_active demo_node"
  "cf_next demo_node = None" "cf_previous demo_node = None"
  by (simp_all add: demo_node_def)

lemma demo_files_rep: "files_rep (demo_files bs x) [0]"
proof -
  have "uthash_inv (hash_add (host64 0) (0 :: nat) None)" "hash_elems (hash_add (host64 0) (0 :: nat) None) = [(host64 0, 0)]"
    using ut.lookup_insert [of None "host64 0" "0 :: nat"] ut.elems_insert [of None "host64 0" "0 :: nat"] by simp_all
  then show ?thesis by (simp add: files_rep_def files_list_def)
qed

lemma demo_files_ok: "files_ok (demo_files bs x) [0]"
proof -
  have "posix_inv (demo_files bs x)" by (simp add: posix_inv_def)
  moreover have "nodes_ok ''d'' (demo_files bs x) (file_nodes [0 \<mapsto> demo_node] [0])"
    by (simp add: nodes_ok_def node_ok_def lookup_inode_def held_fds_def file_nodes_def word_neq_0_conv)
  ultimately show ?thesis using demo_files_rep by (simp add: files_ok_def demo_files_def)
qed

lemma demo_data_bytes: "data_bytes (demo_files bs x) i = (if i = 0 then bs else [])"
  by (simp add: data_bytes_def bytes_at_def lookup_inode_def)

section \<open>Properties\<close>

text \<open>
  C26: adding a node keeps the list of the datafiles doubly linked, sorted by falling identifier, and
  in step with the table by identifier; the node is inserted before the older ones.
\<close>

theorem add_file_keeps_sorted:
  assumes "files_rep w ps" and "file_heap w p = Some f" and "p \<notin> set ps" and "p < next_file_ptr w"
    and "cf_id f \<notin> id_of (file_heap w) ` set ps" and "add_file p w = Some w'"
  shows "files_rep w' (insert_newer (id_of (file_heap w)) p ps)
    \<and> sorted_wrt (\<lambda>p q. id_of (file_heap w') q < id_of (file_heap w') p) (insert_newer (id_of (file_heap w)) p ps)"
proof -
  have "files_rep w' (insert_newer (id_of (file_heap w)) p ps)" using assms by (rule add_file_rep(1))
  then show ?thesis by (simp add: files_rep_def files_list_def)
qed

definition two_nodes :: "unit files_state_scheme" where
  "two_nodes = (demo_files [] ())\<lparr>file_heap := [0 \<mapsto> demo_node, 1 \<mapsto> demo_node\<lparr>cf_id := 5\<rparr>], next_file_ptr := 2\<rparr>"

theorem add_file_keeps_sorted_witness:
  "\<exists>w'. add_file 1 two_nodes = Some w' \<and> files_rep w' [1, 0]"
proof -
  have rep: "files_rep two_nodes [0]"
    by (rule files_rep_cong(1) [OF demo_files_rep [of "[]" "()"]]) (auto simp: two_nodes_def split: if_splits)
  have f: "file_heap two_nodes 1 = Some (demo_node\<lparr>cf_id := 5\<rparr>)" by (simp add: two_nodes_def)
  have new: "cf_id (demo_node\<lparr>cf_id := 5\<rparr>) \<notin> id_of (file_heap two_nodes) ` set [0]" by (simp add: two_nodes_def)
  have nf: "fault_script two_nodes = []" and lt: "1 < next_file_ptr two_nodes" by (simp_all add: two_nodes_def)
  have p: "1 \<notin> set [0 :: nat]" by simp
  obtain w' where w': "add_file 1 two_nodes = Some w'" using add_file_no_fault [OF rep f p new nf] by blast
  have "insert_newer (id_of (file_heap two_nodes)) 1 [0] = [1, 0]" by (simp add: insert_newer_def two_nodes_def)
  with add_file_keeps_sorted [OF rep f p lt new w'] w' show ?thesis by auto
qed

text \<open>
  \<open>ccask_files_get_file\<close> finds the node of a datafile exactly if it is in the list.
\<close>

theorem get_file_finds_exactly:
  assumes "files_ok w ps"
  shows "ccask_files_get_file i w = Some p \<longleftrightarrow> p \<in> set ps \<and> id_of (file_heap w) p = i"
  by (rule ccask_files_get_file_iff) (use assms in \<open>simp add: files_ok_def\<close>)

theorem get_file_finds_exactly_witness:
  "ccask_files_get_file 0 (demo_files [] ()) = Some 0"
  using get_file_finds_exactly [OF demo_files_ok, of 0 "[]" "()" 0] by simp

text \<open>
  C16: whatever fails, a rotation leaves the datafiles consistent and their contents as they were:
  either it fails and nothing is added, or the active file is a new, empty one with the next
  identifier, at the head of the list.
\<close>

theorem rotate_keeps_files:
  assumes "files_ok w (p # ps)" and "ccask_files_rotate w = Some (st, w')" and "id_of (file_heap w) p + 1 \<noteq> 0"
  shows "(st = CCASK_FAIL \<and> files_ok w' (p # ps)
      \<or> st = CCASK_OK \<and> (\<exists>q. files_ok w' (q # p # ps) \<and> id_of (file_heap w') q = id_of (file_heap w) p + 1
          \<and> ccask_files_get_active_file w' = Some q))
    \<and> (\<forall>i. data_bytes w' i = data_bytes w i)"
  using assms
proof (cases rule: ccask_files_rotate_result)
  case failed
  then show ?thesis using data_bytes_grows by blast
next
  case (rotated q f)
  have "files_list w' (q # p # ps)" using rotated(2) by (simp add: files_ok_def files_rep_def)
  then have "ccask_files_get_active_file w' = Some q"
    using files_list_head by (simp add: ccask_files_get_active_file_def)
  moreover have "id_of (file_heap w') q = id_of (file_heap w) p + 1" using rotated(3,5) by simp
  ultimately show ?thesis using rotated(1,2) data_bytes_grows [OF rotated(4,8)] by blast
qed

theorem rotate_keeps_files_witness:
  "\<exists>w' q. ccask_files_rotate (demo_files [9] ()) = Some (CCASK_OK, w') \<and> files_ok w' [q, 0]
    \<and> id_of (file_heap w') q = 1 \<and> data_bytes w' 0 = [9]"
proof -
  have room: "id_of (file_heap (demo_files [9] ())) 0 + 1 \<noteq> 0" by simp
  obtain w' where w': "ccask_files_rotate (demo_files [9] ()) = Some (CCASK_OK, w')"
    using ccask_files_rotate_no_fault [OF demo_files_ok room] by auto
  from rotate_keeps_files [OF demo_files_ok w' room] w' show ?thesis
    by (auto simp: demo_data_bytes)
qed

text \<open>Without faults a rotation succeeds, as long as there is a next identifier.\<close>

theorem rotate_succeeds:
  assumes "files_ok w (p # ps)" and "id_of (file_heap w) p + 1 \<noteq> 0" and "fault_script w = []"
  shows "\<exists>w'. ccask_files_rotate w = Some (CCASK_OK, w')"
  using assms by (rule ccask_files_rotate_no_fault)

theorem rotate_succeeds_witness:
  "\<exists>w'. ccask_files_rotate (demo_files [9] ()) = Some (CCASK_OK, w')"
  by (rule rotate_succeeds [OF demo_files_ok]) simp_all

end
