(* ===== verification/Scan.thy ===== *)
theory Scan
  imports Files
begin

text \<open>
  The start of src/files.c: \<open>ccask_files_init\<close> scans the data directory and opens the active datafile.
  On a directory with canonical file names and without faults it leaves the consistent file table that
  all other operations rely on.
\<close>

section \<open>The directory\<close>

definition named_file :: "string \<Rightarrow> 'a posix_scheme \<Rightarrow> string \<Rightarrow> u64 \<Rightarrow> file_ext \<Rightarrow> bool" where
  "named_file dir w name i ext \<longleftrightarrow> ext \<noteq> FILE_UNKNOWN \<and> unat i < 2 ^ 31
     \<and> name = decimal (unat i) @ the (ext_chars ext)
     \<and> (\<exists>j. map_of (dir_entries w) (ext_path dir i ext) = Some (Regular j))"

text \<open>Every entry directly below the directory has a name that the store gives its files.\<close>

definition clean_dir :: "string \<Rightarrow> 'a posix_scheme \<Rightarrow> bool" where
  "clean_dir dir w \<longleftrightarrow> (\<forall>name \<in> set (drop 2 (dir_names w (dir_prefix dir))). \<exists>i ext. named_file dir w name i ext)"

lemma prefix_name_path: "dir_prefix dir @ decimal (unat i) @ the (ext_chars ext) = ext_path dir i ext"
  by (simp add: ext_path_def filepath_text_def)

lemma atoi_decimal_tail:
  assumes "n < 2 ^ 31" and "\<not> is_digit c"
  shows "atoi (decimal n @ c # s) = Some (int n)"
proof -
  obtain d ds where d: "decimal n = d # ds" by (cases "decimal n") auto
  have "is_digit d" using decimal_digits [of d n] d by simp
  note dd = digit_char_cases [OF this]
  have "dropWhile is_space (decimal n @ c # s) = decimal n @ c # s" using d dd by simp
  moreover have "digits_val 0 (decimal n @ c # s) = n"
    using digits_val_append [of "decimal n" 0 "c # s"] decimal_digits assms(2) by simp
  moreover have "- (2 ^ 31) \<le> int n" "int n < 2 ^ 31" using assms(1) by auto
  ultimately show ?thesis using d dd by (simp add: atoi_def Let_def del: digits_val.simps)
qed

text \<open>The name of a temporary datafile is parsed, too, but its extension is not recognised.\<close>

lemma parse_temp_name:
  assumes "fault_script w = []" and "unat i < 2 ^ 31"
  shows "parse_filename (decimal (unat i) @ ''.data.tmp'') w = Some ((FILE_UNKNOWN, i), w)"
proof -
  have at: "atoi (decimal (unat i) @ ''.data'') = Some (int (unat i))"
    using assms(2) by (intro atoi_decimal_tail) (simp_all add: is_digit_def)
  have "strrchr (decimal (unat i) @ ''.data.tmp'') CHR ''.'' = Some (length (decimal (unat i)) + 5)"
    by (simp add: strrchr_append)
  then show ?thesis
    using assms(1) at by (simp add: parse_filename_def sys_malloc_no_fault take_append)
qed

lemma parse_named_file:
  assumes "fault_script w = []" and "named_file dir w name i ext"
  shows "parse_filename name w = Some ((if ext = FILE_TEMP_DATA then FILE_UNKNOWN else ext, i), w)"
proof (cases "ext = FILE_TEMP_DATA")
  case True
  with assms parse_temp_name [OF assms(1), of i] show ?thesis by (simp add: named_file_def ext_chars_def)
next
  case False
  obtain e where "ext_chars ext = Some e" using assms(2) by (cases ext) (auto simp: named_file_def ext_chars_def)
  with assms False parse_data_name [OF assms(1), of i ext e] show ?thesis by (simp add: named_file_def)
qed

lemma named_file_unique:
  assumes "named_file dir w name i x" and "named_file dir w name j y"
  shows "i = j \<and> x = y"
proof -
  have "ext_path dir i x = ext_path dir j y" using assms prefix_name_path by (metis named_file_def)
  with assms ext_path_inj show ?thesis by (simp add: named_file_def)
qed

lemma named_file_no_dots: "named_file dir w name i ext \<Longrightarrow> name \<noteq> ''.'' \<and> name \<noteq> ''..''"
proof -
  assume n: "named_file dir w name i ext"
  obtain d ds where d: "decimal (unat i) = d # ds" by (cases "decimal (unat i)") auto
  have "d \<noteq> CHR ''.''" using digit_char_cases(4) decimal_digits [of d "unat i"] d by simp
  with n d show ?thesis by (auto simp: named_file_def)
qed

section \<open>The scan\<close>

text \<open>What the scan may change, and the nodes it makes.\<close>

definition scan_frame :: "'a files_state_scheme \<Rightarrow> 'a files_state_scheme \<Rightarrow> bool" where
  "scan_frame w w' \<longleftrightarrow> (\<exists>h t hp tab n. w' = w\<lparr>files_head := h, files_tail := t, file_heap := hp,
     file_table := tab, next_file_ptr := n\<rparr>)"

lemma scan_frame_refl: "scan_frame w w"
  unfolding scan_frame_def
  by (rule exI [of _ "files_head w"], rule exI [of _ "files_tail w"], rule exI [of _ "file_heap w"],
      rule exI [of _ "file_table w"], rule exI [of _ "next_file_ptr w"]) simp

lemma scan_frame_trans: "scan_frame w u \<Longrightarrow> scan_frame u w' \<Longrightarrow> scan_frame w w'"
  unfolding scan_frame_def by (elim exE, hypsubst, simp, blast)

lemma scan_frame_same:
  assumes "scan_frame w w'"
  shows "dir_entries w' = dir_entries w" "inode_data w' = inode_data w" "next_inode w' = next_inode w"
    "open_fds w' = open_fds w" "fd_offsets w' = fd_offsets w" "next_fd w' = next_fd w" "clock w' = clock w"
    "fault_script w' = fault_script w" "data_dir w' = data_dir w" "max_active_file_size w' = max_active_file_size w"
    "hint_threads w' = hint_threads w" "hint_pending w' = hint_pending w" "fd_invalidators w' = fd_invalidators w"
    "files_state.more w' = files_state.more w"
  using assms by (auto simp: scan_frame_def)

definition scanned_node :: "'a files_state_scheme \<Rightarrow> ccask_file \<Rightarrow> bool" where
  "scanned_node w f \<longleftrightarrow> cf_fd f = -1 \<and> \<not> cf_is_active f
     \<and> (\<exists>j. map_of (dir_entries w) (data_path (data_dir w) (cf_id f)) = Some (Regular j))
     \<and> (cf_has_hint f \<longleftrightarrow> map_of (dir_entries w) (ext_path (data_dir w) (cf_id f) FILE_HINT) \<noteq> None)"

lemma scanned_node_unlinked: "scanned_node w (unlinked f) = scanned_node w f"
  by (simp add: scanned_node_def)

text \<open>A new node goes into the list.\<close>

lemma scan_add:
  assumes nf: "fault_script w = []" and rep: "files_rep w ps" and new: "i \<notin> id_of (file_heap w) ` set ps"
    and nodes: "\<And>p. p \<in> set ps \<Longrightarrow> scanned_node w (the (file_heap w p))"
    and data: "\<exists>j. map_of (dir_entries w) (data_path (data_dir w) i) = Some (Regular j)"
    and hint: "b \<longleftrightarrow> map_of (dir_entries w) (ext_path (data_dir w) i FILE_HINT) \<noteq> None"
  obtains p u w' ps' where "allocate_datafile_node i b w = (Some p, u)" and "add_file p u = Some w'"
    and "scan_frame w w'" and "files_rep w' ps'"
    and "id_of (file_heap w') ` set ps' = insert i (id_of (file_heap w) ` set ps)"
    and "\<And>p. p \<in> set ps' \<Longrightarrow> scanned_node w (the (file_heap w' p))"
proof -
  let ?p = "next_file_ptr w"
  let ?n = "\<lparr>cf_id = i, cf_fd = -1, cf_last_accessed = clock w, cf_has_hint = b, cf_is_active = False,
    cf_is_fd_invalidator_running = False, cf_next = None, cf_previous = None\<rparr>"
  let ?u = "w\<lparr>next_file_ptr := Suc ?p, file_heap := (file_heap w)(?p \<mapsto> ?n)\<rparr>"
  have alloc: "allocate_datafile_node i b w = (Some ?p, ?u)"
    using nf by (simp add: allocate_datafile_node_def alloc_file_def sys_malloc_no_fault)
  have fresh: "q < ?p" if "file_heap w q \<noteq> None" for q using rep that by (auto simp: files_rep_def)
  have out: "?p \<notin> set ps" using files_rep_allocated [OF rep] fresh by (metis less_irrefl option.distinct(1))
  have links: "\<exists>g. file_heap ?u q = Some g \<and> cf_id g = cf_id h \<and> cf_next g = cf_next h \<and> cf_previous g = cf_previous h"
    if "q \<in> set ps" "file_heap w q = Some h" for q h using that out by auto
  have below: "q < next_file_ptr ?u" if "file_heap ?u q \<noteq> None" for q
    using that fresh by (cases "q = ?p") (auto simp: less_Suc_eq)
  have rep_u: "files_rep ?u ps" by (rule files_rep_cong(1) [OF rep _ _ _ links below]) simp_all
  have ids: "id_of (file_heap ?u) q = id_of (file_heap w) q" if "q \<in> set ps" for q
    by (rule files_rep_cong(2) [OF rep _ _ _ links below that]) simp_all
  have pn: "file_heap ?u ?p = Some ?n" and lt: "?p < next_file_ptr ?u" by simp_all
  have idp: "id_of (file_heap ?u) ?p = i" by simp
  have img: "id_of (file_heap ?u) ` set ps = id_of (file_heap w) ` set ps" using ids by (rule image_cong [OF refl])
  then have new_u: "cf_id ?n \<notin> id_of (file_heap ?u) ` set ps" using new by simp
  obtain w' where add: "add_file ?p ?u = Some w'" using add_file_no_fault [OF rep_u pn out new_u] nf by auto
  note res = add_file_rep [OF rep_u pn out lt new_u add]
  have idw: "id_of (file_heap w') = id_of (file_heap ?u)" using res(2) by (rule same_but_links_id)
  show thesis
  proof (rule that [OF alloc add])
    show "scan_frame w w'"
    proof -
      obtain h t hp tab where "w' = ?u\<lparr>files_head := h, files_tail := t, file_heap := hp, file_table := tab,
          fault_script := []\<rparr>" using res(3) nf by auto
      then have "w' = w\<lparr>files_head := h, files_tail := t, file_heap := hp, file_table := tab,
          next_file_ptr := Suc ?p\<rparr>" using nf by (cases w) simp
      then show ?thesis unfolding scan_frame_def by blast
    qed
    show "files_rep w' (insert_newer (id_of (file_heap ?u)) ?p ps)" by (rule res(1))
    show "id_of (file_heap w') ` set (insert_newer (id_of (file_heap ?u)) ?p ps) = insert i (id_of (file_heap w) ` set ps)"
      unfolding idw set_insert_newer image_insert idp img ..
    show "scanned_node w (the (file_heap w' q))" if "q \<in> set (insert_newer (id_of (file_heap ?u)) ?p ps)" for q
    proof -
      have q: "q = ?p \<or> q \<in> set ps" using that by simp
      then obtain f where f: "file_heap ?u q = Some f" "scanned_node w f"
      proof
        assume "q = ?p"
        moreover have "scanned_node w ?n" using data hint by (simp add: scanned_node_def)
        ultimately show thesis using that pn by blast
      next
        assume "q \<in> set ps"
        then obtain f where "file_heap w q = Some f" using files_rep_allocated [OF rep] by blast
        moreover from this have "file_heap ?u q = Some f" using out \<open>q \<in> set ps\<close> by auto
        ultimately show thesis using nodes [OF \<open>q \<in> set ps\<close>] that by simp
      qed
      have "map_option unlinked (file_heap w' q) = Some (unlinked f)" using res(2) f(1) by (simp add: same_but_links_def)
      then obtain g where "file_heap w' q = Some g" "unlinked g = unlinked f" by auto
      with f(2) scanned_node_unlinked show ?thesis by (metis option.sel)
    qed
  qed
qed

definition data_names :: "string list \<Rightarrow> u64 set" where
  "data_names names = {i. decimal (unat i) @ ''.data'' \<in> set names}"

lemma data_names_Cons:
  "data_names (name # names) = {i. name = decimal (unat i) @ ''.data''} \<union> data_names names"
  by (auto simp: data_names_def)

lemma scan_frame_named: "scan_frame w w' \<Longrightarrow> named_file dir w' = named_file dir w"
  by (simp add: named_file_def scan_frame_same fun_eq_iff)

lemma scan_frame_scanned: "scan_frame w w' \<Longrightarrow> scanned_node w' = scanned_node w"
  by (simp add: scanned_node_def scan_frame_same fun_eq_iff)


lemma files_scan_result:
  assumes "fault_script w = []" and "data_dir w = dir" and "files_rep w ps"
    and "\<And>p. p \<in> set ps \<Longrightarrow> scanned_node w (the (file_heap w p))"
    and "\<And>name. name \<in> set names \<Longrightarrow> name = ''.'' \<or> name = ''..'' \<or> (\<exists>i ext. named_file dir w name i ext)"
    and "distinct names" and "data_names names \<inter> id_of (file_heap w) ` set ps = {}"
  shows "\<exists>w' ps'. files_scan dir True names w = Some w' \<and> scan_frame w w' \<and> files_rep w' ps'
    \<and> id_of (file_heap w') ` set ps' = data_names names \<union> id_of (file_heap w) ` set ps
    \<and> (\<forall>p \<in> set ps'. scanned_node w (the (file_heap w' p)))"
  using assms
proof (induction names arbitrary: w ps)
  case Nil
  then show ?case
    by (intro exI [of _ w] exI [of _ ps]) (simp add: next_fault_nil scan_frame_refl data_names_def)
next
  case (Cons name names)
  note nf = Cons.prems(1)
  have names: "n = ''.'' \<or> n = ''..'' \<or> (\<exists>i ext. named_file dir w n i ext)" if "n \<in> set names" for n
    using Cons.prems(5) that by simp
  have dist: "distinct names" "name \<notin> set names" using Cons.prems(6) by simp_all
  show ?case
  proof (cases "name = ''.'' \<or> name = ''..''")
    case True
    have none: "name \<noteq> decimal (unat i) @ ''.data''" for i :: u64
      using True decimal_digits [of "CHR ''.''" "unat i"] by (cases "decimal (unat i)") (auto simp: is_digit_def)
    then have d: "data_names (name # names) = data_names names" by (simp add: data_names_Cons)
    have "files_scan dir True (name # names) w = files_scan dir True names w"
      using True nf by (simp add: next_fault_nil)
    with Cons.IH [OF nf Cons.prems(2-4) names dist(1)] Cons.prems(7) show ?thesis unfolding d by simp
  next
    case False
    then obtain i ext where name: "named_file dir w name i ext" using Cons.prems(5) [of name] by auto
    obtain j where j: "map_of (dir_entries w) (ext_path dir i ext) = Some (Regular j)"
      and pth: "dir_prefix dir @ name = ext_path dir i ext"
      using name prefix_name_path by (auto simp: named_file_def)
    have stat: "sys_stat (dir_prefix dir @ name) w = (Some (Regular j), w)"
      using nf j by (simp add: pth sys_stat_def next_fault_nil)
    note parse = parse_named_file [OF nf name]
    have isd: "name = decimal (unat k) @ ''.data'' \<longleftrightarrow> ext = FILE_DATA \<and> k = i" for k :: u64
    proof
      assume k: "name = decimal (unat k) @ ''.data''"
      have "ext_path dir k FILE_DATA = ext_path dir i ext"
        using pth by (simp add: k ext_path_def filepath_text_def ext_chars_def)
      then show "ext = FILE_DATA \<and> k = i" using name ext_path_inj by (simp add: named_file_def)
    qed (use name in \<open>simp add: named_file_def ext_chars_def\<close>)
    show ?thesis
    proof (cases "ext = FILE_DATA")
      case not_data: False
      then have "files_scan dir True (name # names) w = files_scan dir True names w"
        using False nf stat parse by (simp add: next_fault_nil)
      moreover have d: "data_names (name # names) = data_names names" using isd not_data by (simp add: data_names_Cons)
      ultimately show ?thesis
        using Cons.IH [OF nf Cons.prems(2-4) names dist(1)] Cons.prems(7) unfolding d by simp
    next
      case True
      let ?hp = "ext_path dir i FILE_HINT"
      have d: "data_names (name # names) = insert i (data_names names)" using isd True by (auto simp: data_names_Cons)
      have new: "i \<notin> id_of (file_heap w) ` set ps" using Cons.prems(7) d by auto
      have hp: "build_filepath dir i FILE_HINT w = (Some ?hp, w)" using nf by (simp add: build_ext_path_no_fault)
      have acc: "sys_access (Some ?hp) w = (map_of (dir_entries w) ?hp \<noteq> None, w)"
        using nf by (simp add: sys_access_def next_fault_nil)
      obtain p u w1 ps1 where alloc: "allocate_datafile_node i (map_of (dir_entries w) ?hp \<noteq> None) w = (Some p, u)"
        and add: "add_file p u = Some w1" and fr: "scan_frame w w1" and rep1: "files_rep w1 ps1"
        and ids1: "id_of (file_heap w1) ` set ps1 = insert i (id_of (file_heap w) ` set ps)"
        and nodes1: "\<And>p. p \<in> set ps1 \<Longrightarrow> scanned_node w (the (file_heap w1 p))"
        using scan_add [OF nf Cons.prems(3) new Cons.prems(4)] j True Cons.prems(2) by (metis data_path_def)
      note same = scan_frame_same [OF fr]
      have "i \<notin> data_names names" using dist(2) isd [of i] True by (simp add: data_names_def)
      then have dis: "data_names names \<inter> id_of (file_heap w1) ` set ps1 = {}" using Cons.prems(7) d ids1 by auto
      have "\<exists>w' ps'. files_scan dir True names w1 = Some w' \<and> scan_frame w1 w' \<and> files_rep w' ps'
        \<and> id_of (file_heap w') ` set ps' = data_names names \<union> id_of (file_heap w1) ` set ps1
        \<and> (\<forall>p \<in> set ps'. scanned_node w1 (the (file_heap w' p)))"
        by (rule Cons.IH [OF _ _ rep1 _ _ dist(1) dis])
           (use nf Cons.prems(2) same(8,9) nodes1 names in
             \<open>simp_all add: scan_frame_named [OF fr] scan_frame_scanned [OF fr]\<close>)
      then obtain w' ps' where w': "files_scan dir True names w1 = Some w'" "scan_frame w1 w'" "files_rep w' ps'"
        "id_of (file_heap w') ` set ps' = data_names names \<union> id_of (file_heap w1) ` set ps1"
        "\<forall>p \<in> set ps'. scanned_node w1 (the (file_heap w' p))" by blast
      have "files_scan dir True (name # names) w = files_scan dir True names w1"
        using False nf stat parse True hp acc alloc add by (simp add: next_fault_nil)
      moreover have "id_of (file_heap w') ` set ps' = data_names (name # names) \<union> id_of (file_heap w) ` set ps"
        using w'(4) ids1 d by simp
      ultimately show ?thesis
        using w'(1,3,5) scan_frame_trans [OF fr w'(2)] unfolding scan_frame_scanned [OF fr] by metis
    qed
  qed
qed

section \<open>The active file\<close>

lemma started_nodes_ok:
  assumes f: "cf_is_active f" "0 \<le> cf_fd f" "opened_at (data_path dir (cf_id f)) True (cf_fd f) v w"
    and gs: "\<And>g. g \<in> set gs \<Longrightarrow> cf_fd g = -1 \<and> \<not> cf_is_active g \<and> lookup_inode w (data_path dir (cf_id g)) \<noteq> None"
    and newer: "\<And>i. cf_id f < i \<Longrightarrow> map_of (dir_entries w) (data_path dir i) = None"
  shows "nodes_ok dir w (f # gs)"
proof -
  have "held_fds gs = []" using gs by (auto simp: held_fds_def)
  then have "held_fds (f # gs) = [cf_fd f]" using f(2) by (simp add: held_fds_def)
  moreover have "node_ok dir w g" if "g \<in> set (f # gs)" for g
    using that f(2,3) gs by (auto simp: node_ok_def opened_at_def)
  ultimately show ?thesis using f gs newer by (auto simp: nodes_ok_def opened_at_def)
qed

lemma scanned_lookup:
  "scanned_node w f \<Longrightarrow> lookup_inode w (data_path (data_dir w) (cf_id f)) \<noteq> None"
  by (auto simp: scanned_node_def lookup_inode_def)

text \<open>The state after the scan: no thread runs, and the list has exactly the datafiles.\<close>

definition scan_done :: "'a files_state_scheme \<Rightarrow> nat list \<Rightarrow> bool" where
  "scan_done w ps \<longleftrightarrow> fault_script w = [] \<and> posix_inv w \<and> files_rep w ps
     \<and> (\<forall>p \<in> set ps. scanned_node w (the (file_heap w p)))
     \<and> id_of (file_heap w) ` set ps = {i. map_of (dir_entries w) (data_path (data_dir w) i) \<noteq> None}
     \<and> hint_pending w = [] \<and> fd_invalidators w = []"

text \<open>What the start leaves, besides the file table: the data and the hintfiles.\<close>

text \<open>A node claims a hintfile only if there is one, and claims it if there is a datafile as well.\<close>

definition hint_claim :: "'a files_state_scheme \<Rightarrow> u64 \<Rightarrow> bool \<Rightarrow> bool" where
  "hint_claim w i b \<longleftrightarrow> (b \<longrightarrow> map_of (dir_entries w) (ext_path (data_dir w) i FILE_HINT) \<noteq> None)
     \<and> (map_of (dir_entries w) (data_path (data_dir w) i) \<noteq> None
        \<longrightarrow> map_of (dir_entries w) (ext_path (data_dir w) i FILE_HINT) \<noteq> None \<longrightarrow> b)"

definition started :: "u64 \<Rightarrow> 'a files_state_scheme \<Rightarrow> nat list \<Rightarrow> 'a files_state_scheme \<Rightarrow> bool" where
  "started k w ps w' \<longleftrightarrow> files_ok w' ps \<and> fault_script w' = [] \<and> hint_pending w' = [] \<and> grows {data_path (data_dir w) k} {} w w'
     \<and> id_of (file_heap w') (hd ps) = k \<and> data_dir w' = data_dir w
     \<and> max_active_file_size w' = max_active_file_size w \<and> files_state.more w' = files_state.more w
     \<and> id_of (file_heap w') ` set ps = insert k {i. map_of (dir_entries w) (data_path (data_dir w) i) \<noteq> None}
     \<and> (\<forall>p \<in> set ps. hint_claim w (id_of (file_heap w') p) (cf_has_hint (the (file_heap w' p))))"

lemma files_add_active_started:
  assumes fin: "scan_done w ps" and k: "\<And>i. map_of (dir_entries w) (data_path (data_dir w) i) \<noteq> None \<Longrightarrow> i < k"
  obtains w' q where "files_add_active k True w = Some (CCASK_OK, w')" and "started k w (q # ps) w'"
proof -
  have nf: "fault_script w = []" and inv: "posix_inv w" and rep: "files_rep w ps"
    and nodes: "\<And>p. p \<in> set ps \<Longrightarrow> scanned_node w (the (file_heap w p))"
    and ids: "id_of (file_heap w) ` set ps = {i. map_of (dir_entries w) (data_path (data_dir w) i) \<noteq> None}"
    and threads: "hint_pending w = []" "fd_invalidators w = []"
    using fin by (simp_all add: scan_done_def)
  let ?q = "next_file_ptr w" and ?p = "data_path (data_dir w) k"
  let ?w1 = "w\<lparr>next_file_ptr := Suc ?q\<rparr>"
  have alloc: "alloc_file w = (Some ?q, ?w1)" using nf by (simp add: alloc_file_def sys_malloc_no_fault)
  have inv1: "posix_inv ?w1" using inv by (simp add: posix_inv_def)
  obtain st w2 where w2: "create_new_active_datafile k ?q ?w1 = (st, w2)" by fastforce
  obtain fd u where u: "attempt_fd (ccask_files_get_active_datafile_fd k) ?w1 = (fd, u)" by fastforce
  have none: "map_of (dir_entries w) ?p = None" using k by (meson less_irrefl)
  have "0 \<le> fd"
    using attempt_open_no_fault [OF _ inv1 _ _ u [unfolded ccask_files_get_active_datafile_fd_def]] nf none
    by (simp add: data_path_def)
  then have st: "st = CCASK_OK" using w2 u by (auto simp: create_new_active_datafile_def)
  from w2 inv1 show thesis
  proof (cases rule: create_new_active_datafile_result)
    case failed
    with st show thesis by simp
  next
    case (ok v n)
    note sv = same_files_fields [OF ok(2)]
    have g: "grows {?p} {} w w2"
    proof -
      have "grows {?p} {} w ?w1" by (rule grows_same) simp_all
      moreover have "grows {?p} {} ?w1 v" using ok(3) by simp
      moreover have "grows {?p} {} v w2" unfolding ok(5) by (rule grows_same) simp_all
      ultimately show ?thesis by (blast intro: grows_trans_same)
    qed
    have fresh: "r < ?q" if "file_heap w r \<noteq> None" for r using rep that by (auto simp: files_rep_def)
    have out: "?q \<notin> set ps" using files_rep_allocated [OF rep] fresh by (metis less_irrefl option.distinct(1))
    have heap: "file_heap w2 = (file_heap w)(?q \<mapsto> n)" using ok(5) by simp
    have links: "\<exists>g. file_heap w2 r = Some g \<and> cf_id g = cf_id h \<and> cf_next g = cf_next h \<and> cf_previous g = cf_previous h"
      if "r \<in> set ps" "file_heap w r = Some h" for r h using that out heap by auto
    have below: "r < next_file_ptr w2" if "file_heap w2 r \<noteq> None" for r
      using that fresh heap sv ok(5) by (cases "r = ?q") (auto simp: less_Suc_eq)
    have rep2: "files_rep w2 ps"
      by (rule files_rep_cong(1) [OF rep _ _ _ links below]) (use ok(5) sv in simp_all)
    have ids2: "id_of (file_heap w2) r = id_of (file_heap w) r" if "r \<in> set ps" for r
      using that out heap by (auto simp: id_of_def)
    have older: "id_of (file_heap w2) r < k" if "r \<in> set ps" for r
      using k ids ids2 [OF that] that by blast
    have n2: "file_heap w2 ?q = Some n" and lt: "?q < next_file_ptr w2" using heap ok(5) sv by simp_all
    have new: "cf_id n \<notin> id_of (file_heap w2) ` set ps" using older ok(6) by force
    have nf2: "fault_script w2 = []" using grows_no_fault [OF g nf] .
    obtain w' where add: "add_file ?q w2 = Some w'" using add_file_no_fault [OF rep2 n2 out new nf2] by auto
    note res = add_file_rep [OF rep2 n2 out lt new add]
    obtain h t hp tab fs where w': "w' = w2\<lparr>files_head := h, files_tail := t, file_heap := hp, file_table := tab,
        fault_script := fs\<rparr>" "length fs \<le> length (fault_script w2)" using res(3) by blast
    have order: "insert_newer (id_of (file_heap w2)) ?q ps = ?q # ps"
      using older n2 ok(6) by (intro insert_newer_first) (simp add: id_of_def)
    have rep': "files_rep w' (?q # ps)" using res(1) unfolding order .
    have id': "id_of (file_heap w') = id_of (file_heap w2)" using res(2) by (rule same_but_links_id)
    have g': "grows {?p} {} w w'"
      by (rule grows_trans_same [OF g], rule grows_same) (use w' in simp_all)
    have nodes': "file_nodes (file_heap w') (?q # ps) = unlinked n # file_nodes (file_heap w) ps"
    proof -
      have "file_nodes (file_heap w') (?q # ps) = file_nodes (file_heap w2) (?q # ps)"
        using n2 files_rep_allocated [OF rep2] by (intro file_nodes_links [OF res(2)]) fastforce
      then show ?thesis using heap out by simp
    qed
    have look': "lookup_inode w' q = lookup_inode v q" for q
      using w' ok(5) by (intro lookup_inode_cong) simp
    have "files_ok w' (?q # ps)"
      unfolding files_ok_def
    proof (intro conjI)
      show "posix_inv w'" using ok(4,5) w' by (simp add: posix_inv_def)
      show "files_rep w' (?q # ps)" by (rule rep')
      show "set (hint_pending w') \<union> set (fd_invalidators w') \<subseteq> set (?q # ps)"
        using threads w' ok(5) sv by simp
      have "nodes_ok (data_dir w) w' (unlinked n # file_nodes (file_heap w) ps)"
      proof (rule started_nodes_ok)
        have o: "opened_at ?p True (cf_fd n) ?w1 v" using ok(9) by simp
        then show "opened_at (data_path (data_dir w) (cf_id (unlinked n))) True (cf_fd (unlinked n)) ?w1 w'"
          using ok(5,6) w' look' by (simp add: opened_at_def)
        show "0 \<le> cf_fd (unlinked n)" using o inv by (simp add: opened_at_def posix_inv_def)
        show "cf_is_active (unlinked n)" using ok(7) by simp
        show "cf_fd g = -1 \<and> \<not> cf_is_active g \<and> lookup_inode w' (data_path (data_dir w) (cf_id g)) \<noteq> None"
          if mem: "g \<in> set (file_nodes (file_heap w) ps)" for g
        proof -
          obtain r where "r \<in> set ps" "g = unlinked (the (file_heap w r))" using mem by (auto simp: file_nodes_def)
          then have "scanned_node w g" using nodes by (simp add: scanned_node_unlinked)
          then show ?thesis using scanned_lookup [of w g] grows_lookup [OF g'] by (auto simp: scanned_node_def)
        qed
        show "map_of (dir_entries w') (data_path (data_dir w) i) = None" if "cf_id (unlinked n) < i" for i
        proof -
          have "map_of (dir_entries w') (data_path (data_dir w) i) = map_of (dir_entries w) (data_path (data_dir w) i)"
            using g' that ok(6) by (auto simp: grows_def)
          moreover have "map_of (dir_entries w) (data_path (data_dir w) i) = None"
            using k [of i] that ok(6) by (cases "map_of (dir_entries w) (data_path (data_dir w) i)") (auto dest: less_asym)
          ultimately show ?thesis by simp
        qed
      qed
      then show "nodes_ok (data_dir w') w' (file_nodes (file_heap w') (?q # ps))"
        unfolding nodes' using w' ok(5) sv by simp
    qed
    moreover have "id_of (file_heap w') ?q = k" using id' n2 ok(6) by (simp add: id_of_def)
    moreover have "id_of (file_heap w') ` set ps = id_of (file_heap w) ` set ps"
      using ids2 unfolding id' by (intro image_cong) simp_all
    moreover have "hint_claim w (id_of (file_heap w') r) (cf_has_hint (the (file_heap w' r)))"
      if mem: "r \<in> set (?q # ps)" for r
    proof -
      obtain f where f: "file_heap w2 r = Some f" using mem n2 files_rep_allocated [OF rep2] by fastforce
      have "map_option unlinked (file_heap w' r) = Some (unlinked f)" using res(2) f by (simp add: same_but_links_def)
      then have hint: "cf_has_hint (the (file_heap w' r)) = cf_has_hint f"
        by (metis map_option_eq_Some option.sel unlinked_sel(4))
      have rid: "id_of (file_heap w') r = cf_id f" using id' f by (simp add: id_of_def)
      show ?thesis
      proof (cases "r = ?q")
        case True
        with n2 f ok(6,8) none show ?thesis unfolding hint rid by (simp add: hint_claim_def)
      next
        case False
        then have "file_heap w r = Some f" "r \<in> set ps" using mem f heap by auto
        with nodes [of r] show ?thesis unfolding hint rid by (simp add: scanned_node_def hint_claim_def)
      qed
    qed
    ultimately have "started k w (?q # ps) w'"
      using g' grows_no_fault [OF g' nf] w' ok(5) sv ids threads by (simp add: started_def)
    moreover have "files_add_active k True w = Some (CCASK_OK, w')"
      using alloc w2 st add by (simp add: files_add_active_def)
    ultimately show thesis using that by blast
  qed
qed

lemma scan_done_newest:
  assumes "scan_done w (p # ps)" and "id_of (file_heap w) p < i"
  shows "map_of (dir_entries w) (data_path (data_dir w) i) = None"
proof (rule ccontr)
  assume "map_of (dir_entries w) (data_path (data_dir w) i) \<noteq> None"
  then have "i \<in> id_of (file_heap w) ` set (p # ps)" using assms(1) by (simp add: scan_done_def)
  then obtain q where q: "q \<in> set (p # ps)" "i = id_of (file_heap w) q" by auto
  have "q = p \<or> id_of (file_heap w) q < id_of (file_heap w) p"
    using assms(1) q(1) by (auto simp: scan_done_def files_rep_def files_list_def)
  with assms(2) q(2) show False by auto
qed

lemma files_reopen_started:
  assumes fin: "scan_done w (p # ps)" and h: "file_heap w p = Some h"
  obtains fd u w' where "attempt_fd (ccask_files_get_active_datafile_fd (cf_id h)) w = (fd, u)" and "0 \<le> fd"
    and "write_file p (\<lambda>f. f\<lparr>cf_is_active := True, cf_fd := fd\<rparr>) u = Some w'" and "started (cf_id h) w (p # ps) w'"
proof -
  have nf: "fault_script w = []" and inv: "posix_inv w" and rep: "files_rep w (p # ps)"
    and nodes: "\<And>q. q \<in> set (p # ps) \<Longrightarrow> scanned_node w (the (file_heap w q))"
    and ids: "id_of (file_heap w) ` set (p # ps) = {i. map_of (dir_entries w) (data_path (data_dir w) i) \<noteq> None}"
    and threads: "hint_pending w = []" "fd_invalidators w = []"
    using fin unfolding scan_done_def by blast+
  let ?p = "data_path (data_dir w) (cf_id h)"
  obtain fd u where u: "attempt_fd (ccask_files_get_active_datafile_fd (cf_id h)) w = (fd, u)" by fastforce
  note o = attempt_open_result [OF u [unfolded ccask_files_get_active_datafile_fd_def] inv, simplified,
      unfolded creates_def, simplified, folded data_path_def]
  have "scanned_node w h" using nodes [of p] h by simp
  then have "lookup_inode w ?p \<noteq> None" by (rule scanned_lookup)
  then have fd: "0 \<le> fd"
    using attempt_open_no_fault [OF nf inv _ _ u [unfolded ccask_files_get_active_datafile_fd_def]]
    by (simp add: data_path_def)
  note su = same_files_fields [OF o(3)]
  let ?h = "h\<lparr>cf_is_active := True, cf_fd := fd\<rparr>"
  let ?w' = "u\<lparr>file_heap := (file_heap w)(p \<mapsto> ?h)\<rparr>"
  have wr: "write_file p (\<lambda>f. f\<lparr>cf_is_active := True, cf_fd := fd\<rparr>) u = Some ?w'"
    using h su by (simp add: write_file_def)
  have g: "grows {?p} {} w ?w'" by (rule grows_trans_same [OF o(1)], rule grows_same) simp_all
  have out: "p \<notin> set ps" using files_rep_distinct [OF rep] by simp
  have links: "\<exists>g. file_heap ?w' r = Some g \<and> cf_id g = cf_id f \<and> cf_next g = cf_next f \<and> cf_previous g = cf_previous f"
    if "r \<in> set (p # ps)" "file_heap w r = Some f" for r f using that h by (cases "r = p") auto
  have below: "r < next_file_ptr ?w'" if "file_heap ?w' r \<noteq> None" for r
    using that rep su h by (cases "r = p") (auto simp: files_rep_def)
  have rep': "files_rep ?w' (p # ps)"
    by (rule files_rep_cong(1) [OF rep _ _ _ links below]) (use su in simp_all)
  have ids': "id_of (file_heap ?w') r = id_of (file_heap w) r" for r using h by (simp add: id_of_def)
  have look: "lookup_inode ?w' q = lookup_inode u q" for q by (rule lookup_inode_cong) simp
  have idh: "id_of (file_heap w) p = cf_id h" using h by (simp add: id_of_def)
  have "nodes_ok (data_dir w) ?w' (unlinked ?h # file_nodes (file_heap w) ps)"
  proof (rule started_nodes_ok)
    show "opened_at (data_path (data_dir w) (cf_id (unlinked ?h))) True (cf_fd (unlinked ?h)) w ?w'"
      using o(4) [OF fd] by (simp add: opened_at_def look)
    show "cf_fd g = -1 \<and> \<not> cf_is_active g \<and> lookup_inode ?w' (data_path (data_dir w) (cf_id g)) \<noteq> None"
      if mem: "g \<in> set (file_nodes (file_heap w) ps)" for g
    proof -
      obtain r where "r \<in> set ps" "g = unlinked (the (file_heap w r))" using mem by (auto simp: file_nodes_def)
      then have "scanned_node w g" using nodes by (simp add: scanned_node_unlinked)
      then show ?thesis using scanned_lookup [of w g] grows_lookup [OF g] by (auto simp: scanned_node_def)
    qed
    show "map_of (dir_entries ?w') (data_path (data_dir w) i) = None" if i: "cf_id (unlinked ?h) < i" for i
    proof -
      have "map_of (dir_entries ?w') (data_path (data_dir w) i) = map_of (dir_entries w) (data_path (data_dir w) i)"
        using g i by (auto simp: grows_def)
      with scan_done_newest [OF fin, of i] i idh show ?thesis by simp
    qed
  qed (use fd in simp_all)
  moreover have "file_nodes (file_heap ?w') (p # ps) = unlinked ?h # file_nodes (file_heap w) ps" using out by simp
  ultimately have "nodes_ok (data_dir ?w') ?w' (file_nodes (file_heap ?w') (p # ps))" using su by simp
  then have "files_ok ?w' (p # ps)"
    using rep' o(2) threads su by (simp add: files_ok_def posix_inv_def)
  moreover have "id_of (file_heap w) ` set (p # ps)
      = insert (cf_id h) {i. map_of (dir_entries w) (data_path (data_dir w) i) \<noteq> None}"
    using idh unfolding ids [symmetric] by auto
  moreover have "hint_claim w (id_of (file_heap ?w') r) (cf_has_hint (the (file_heap ?w' r)))"
    if r: "r \<in> set (p # ps)" for r
  proof -
    obtain f where f: "file_heap w r = Some f" using files_rep_allocated [OF rep r] by blast
    have "cf_has_hint (the (file_heap ?w' r)) = cf_has_hint f" using f h by auto
    with nodes [OF r] f show ?thesis unfolding ids' by (simp add: scanned_node_def id_of_def hint_claim_def)
  qed
  ultimately have "started (cf_id h) w (p # ps) ?w'"
    using g grows_no_fault [OF g nf] su idh threads
    unfolding started_def ids' by simp
  with u fd wr show thesis by (rule that)
qed

section \<open>The whole start\<close>

text \<open>The names that \<open>readdir\<close> lists, and the datafiles among them.\<close>

lemma dir_names_entries:
  assumes "name \<in> set (drop 2 (dir_names w pre))"
  shows "map_of (dir_entries w) (pre @ name) \<noteq> None"
proof -
  obtain p where p: "p \<in> fst ` set (dir_entries w)" "take (length pre) p = pre" "name = drop (length pre) p"
    using assms by (auto simp: dir_names_def)
  then have "p = pre @ name" by (metis append_take_drop_id)
  with p(1) show ?thesis by (simp add: map_of_eq_None_iff)
qed

lemma dir_names_distinct:
  assumes "posix_inv w" and "clean_dir dir w"
  shows "distinct (dir_names w (dir_prefix dir))"
proof -
  let ?pre = "dir_prefix dir"
  let ?ps = "filter (\<lambda>p. take (length ?pre) p = ?pre) (map fst (dir_entries w))"
  have "distinct ?ps" using assms(1) by (simp add: posix_inv_def)
  moreover have "inj_on (drop (length ?pre)) (set ?ps)"
    by (rule inj_onI) (metis (mono_tags, lifting) append_take_drop_id mem_Collect_eq set_filter)
  ultimately have "distinct (map (drop (length ?pre)) ?ps)" by (simp add: distinct_map)
  then have "distinct (drop 2 (dir_names w ?pre))" by (simp add: dir_names_def)
  moreover have "''.'' \<notin> set (drop 2 (dir_names w ?pre))" "''..'' \<notin> set (drop 2 (dir_names w ?pre))"
    using assms(2) named_file_no_dots by (fastforce simp: clean_dir_def)+
  ultimately show ?thesis by (simp add: dir_names_def)
qed

lemma data_names_dir:
  "data_names (dir_names w (dir_prefix dir)) = {i. map_of (dir_entries w) (data_path dir i) \<noteq> None}"
proof (intro set_eqI iffI)
  fix i assume "i \<in> data_names (dir_names w (dir_prefix dir))"
  then have "decimal (unat i) @ ''.data'' \<in> set (dir_names w (dir_prefix dir))" by (simp add: data_names_def)
  moreover have "decimal (unat i) @ ''.data'' \<noteq> ''.''" "decimal (unat i) @ ''.data'' \<noteq> ''..''"
    by (cases "decimal (unat i)"; simp)+
  ultimately have "decimal (unat i) @ ''.data'' \<in> set (drop 2 (dir_names w (dir_prefix dir)))"
    by (auto simp: dir_names_def)
  from dir_names_entries [OF this] show "i \<in> {i. map_of (dir_entries w) (data_path dir i) \<noteq> None}"
    by (simp add: data_path_def ext_path_def filepath_text_def ext_chars_def)
next
  fix i assume "i \<in> {i. map_of (dir_entries w) (data_path dir i) \<noteq> None}"
  then have p: "dir_prefix dir @ decimal (unat i) @ ''.data'' \<in> fst ` set (dir_entries w)"
    by (simp add: map_of_eq_None_iff data_path_def ext_path_def filepath_text_def ext_chars_def)
  have "CHR ''/'' \<notin> set (decimal (unat i))" using decimal_digits digit_char_cases(5) by blast
  with p show "i \<in> data_names (dir_names w (dir_prefix dir))"
    by (force simp: data_names_def dir_names_def)
qed

lemma clean_dir_ids:
  assumes "clean_dir dir w" and "map_of (dir_entries w) (data_path dir i) \<noteq> None"
  shows "unat i < 2 ^ 31"
    and "\<exists>j. map_of (dir_entries w) (data_path dir i) = Some (Regular j)"
proof -
  let ?name = "decimal (unat i) @ ''.data''"
  have "?name \<in> set (dir_names w (dir_prefix dir))" using assms(2) data_names_dir by (auto simp: data_names_def)
  moreover have "?name \<noteq> ''.''" "?name \<noteq> ''..''" by (cases "decimal (unat i)"; simp)+
  ultimately have "?name \<in> set (drop 2 (dir_names w (dir_prefix dir)))" by (auto simp: dir_names_def)
  then obtain k ext where n: "named_file dir w ?name k ext" using assms(1) by (auto simp: clean_dir_def)
  have "ext_path dir i FILE_DATA = ext_path dir k ext"
    using n prefix_name_path [of dir k ext] prefix_name_path [of dir i FILE_DATA]
    by (simp add: named_file_def ext_chars_def)
  then have "i = k" "ext = FILE_DATA" using n ext_path_inj by (simp_all add: named_file_def)
  with n show "unat i < 2 ^ 31" "\<exists>j. map_of (dir_entries w) (data_path dir i) = Some (Regular j)"
    by (simp_all add: named_file_def data_path_def)
qed

lemma unat_minus_one_u64: "\<not> unat (- 1 :: u64) < 2 ^ 31"
proof -
  have "(- 1 :: u64) = 18446744073709551615" by simp
  then show ?thesis by (simp only:) simp
qed

definition boot_ready :: "string \<Rightarrow> 'a files_state_scheme \<Rightarrow> bool" where
  "boot_ready dir w \<longleftrightarrow> posix_inv w \<and> fault_script w = [] \<and> dir \<noteq> [] \<and> clean_dir dir w
     \<and> (\<forall>p. file_heap w p \<noteq> None \<longrightarrow> p < next_file_ptr w) \<and> hint_pending w = [] \<and> fd_invalidators w = []"

lemma ccask_files_init_started:
  assumes ready: "boot_ready dir w"
  obtains w0 k ps w' where "ccask_files_init dir m w = Some (CCASK_OK, w')" and "started k w0 ps w'"
    and "dir_entries w0 = dir_entries w" and "inode_data w0 = inode_data w" and "data_dir w0 = dir"
    and "max_active_file_size w0 = m" and "files_state.more w0 = files_state.more w"
    and "map_of (dir_entries w) (data_path dir k) = None \<or> map_of (dir_entries w) (ext_path dir k FILE_HINT) = None"
    and "hint_pending w' = []"
    and "k = 0 \<or> (\<exists>i. map_of (dir_entries w) (data_path dir i) \<noteq> None \<and> (k = i \<or> k = i + 1))"
proof -
  have nf: "fault_script w = []" and inv: "posix_inv w" and dir: "dir \<noteq> []" and clean: "clean_dir dir w"
    using ready by (simp_all add: boot_ready_def)
  let ?w4 = "w\<lparr>max_active_file_size := m, data_dir := dir, files_head := None, files_tail := None, file_table := None\<rparr>"
  let ?names = "dir_names ?w4 (dir_prefix dir)"
  have same_names: "?names = dir_names w (dir_prefix dir)" by (simp add: dir_names_def)
  have rep4: "files_rep ?w4 []" using ready by (simp add: boot_ready_def files_rep_def files_list_def)
  have names: "n = ''.'' \<or> n = ''..'' \<or> (\<exists>i ext. named_file dir ?w4 n i ext)" if "n \<in> set ?names" for n
  proof (cases "n \<in> set (drop 2 (dir_names w (dir_prefix dir)))")
    case True
    then obtain i ext where "named_file dir w n i ext" using clean by (auto simp: clean_dir_def)
    then show ?thesis by (auto simp: named_file_def)
  next
    case False
    with that show ?thesis unfolding same_names by (auto simp: dir_names_def)
  qed
  have dist: "distinct ?names" unfolding same_names by (rule dir_names_distinct [OF inv clean])
  have "\<exists>w5 ps. files_scan dir True ?names ?w4 = Some w5 \<and> scan_frame ?w4 w5 \<and> files_rep w5 ps
    \<and> id_of (file_heap w5) ` set ps = data_names ?names \<union> id_of (file_heap ?w4) ` set []
    \<and> (\<forall>p \<in> set ps. scanned_node ?w4 (the (file_heap w5 p)))"
    by (rule files_scan_result [OF _ _ rep4 _ names dist]) (use nf in simp_all)
  then obtain w5 ps where scan: "files_scan dir True ?names ?w4 = Some w5" and fr: "scan_frame ?w4 w5"
    and rep5: "files_rep w5 ps" and ids5: "id_of (file_heap w5) ` set ps = data_names ?names"
    and nodes5: "\<forall>p \<in> set ps. scanned_node ?w4 (the (file_heap w5 p))" by auto
  note same = scan_frame_same [OF fr]
  have fin: "scan_done w5 ps"
    using same nf inv rep5 nodes5 ready ids5 data_names_dir [of w dir]
    unfolding scan_done_def same_names scan_frame_scanned [OF fr]
    by (simp add: posix_inv_def boot_ready_def)
  have small: "unat i < 2 ^ 31" if "map_of (dir_entries w5) (data_path dir i) \<noteq> None" for i
    using clean_dir_ids(1) [OF clean, of i] that same by simp
  have init: "ccask_files_init dir m w = (case files_head w5 of
      None \<Rightarrow> files_add_active 0 True w5
    | Some head \<Rightarrow> do {
        h \<leftarrow> file_heap w5 head;
        if cf_has_hint h then files_add_active (cf_id h + 1) True w5
        else let (fd, w6) = attempt_fd (ccask_files_get_active_datafile_fd (cf_id h)) w5
             in if fd < 0 then Some (CCASK_FAIL, w6)
                else do { w7 \<leftarrow> write_file head (\<lambda>f. f\<lparr>cf_is_active := True, cf_fd := fd\<rparr>) w6;
                          Some (CCASK_OK, w7) } })"
    using nf dir scan
    by (simp add: ccask_files_init_def sys_opendir_def next_fault_nil sys_malloc_no_fault)
  let ?fresh = "\<lambda>k. map_of (dir_entries w) (data_path dir k) = None \<or> map_of (dir_entries w) (ext_path dir k FILE_HINT) = None"
  let ?near = "\<lambda>k. k = 0 \<or> (\<exists>i. map_of (dir_entries w) (data_path dir i) \<noteq> None \<and> (k = i \<or> k = i + 1))"
  have "\<exists>k ps' w'. ccask_files_init dir m w = Some (CCASK_OK, w') \<and> started k w5 ps' w' \<and> ?fresh k \<and> ?near k"
  proof (cases ps)
    case Nil
    then have head: "files_head w5 = None" using rep5 by (simp add: files_rep_def files_list_def)
    have "i < 0" if "map_of (dir_entries w5) (data_path (data_dir w5) i) \<noteq> None" for i
      using fin that by (simp add: scan_done_def Nil)
    then obtain w' q where "files_add_active 0 True w5 = Some (CCASK_OK, w')" "started 0 w5 (q # ps) w'"
      by (rule files_add_active_started [OF fin])
    moreover have "?fresh 0" using fin same by (simp add: scan_done_def Nil)
    ultimately show ?thesis using init head by auto
  next
    case (Cons p qs)
    then have head: "files_head w5 = Some p" using rep5 files_list_head by (auto simp: files_rep_def)
    obtain h where h: "file_heap w5 p = Some h" using rep5 Cons files_rep_allocated by fastforce
    have idh: "id_of (file_heap w5) p = cf_id h" using h by (simp add: id_of_def)
    have newest: "map_of (dir_entries w) (data_path dir (cf_id h)) \<noteq> None"
      using fin h same unfolding Cons scan_done_def by (auto simp: scanned_node_def)
    show ?thesis
    proof (cases "cf_has_hint h")
      case True
      have "map_of (dir_entries w5) (data_path dir (cf_id h)) \<noteq> None"
        using fin h same unfolding Cons scan_done_def by (auto simp: scanned_node_def)
      then have "unat (cf_id h) < 2 ^ 31" by (rule small)
      then have "cf_id h \<noteq> - 1" using unat_minus_one_u64 by metis
      then have room: "cf_id h + 1 \<noteq> 0" by (simp add: eq_neg_iff_add_eq_0 [symmetric])
      have lt: "i < cf_id h + 1" if i: "map_of (dir_entries w5) (data_path (data_dir w5) i) \<noteq> None" for i
      proof -
        have "\<not> cf_id h < i" using scan_done_newest [OF fin [unfolded Cons], of i] i idh by auto
        then show ?thesis using u64_less_inc [OF room] by (simp add: not_less order_le_less_trans)
      qed
      obtain w' q where "files_add_active (cf_id h + 1) True w5 = Some (CCASK_OK, w')" "started (cf_id h + 1) w5 (q # ps) w'"
        by (rule files_add_active_started [OF fin lt])
      moreover have "map_of (dir_entries w) (data_path dir (cf_id h + 1)) = None"
        by (rule ccontr) (use lt [of "cf_id h + 1"] same in simp)
      ultimately show ?thesis using init head h True newest by auto
    next
      case False
      obtain fd u w' where "attempt_fd (ccask_files_get_active_datafile_fd (cf_id h)) w5 = (fd, u)" "0 \<le> fd"
        "write_file p (\<lambda>f. f\<lparr>cf_is_active := True, cf_fd := fd\<rparr>) u = Some w'" "started (cf_id h) w5 (p # qs) w'"
        by (rule files_reopen_started [OF fin [unfolded Cons] h])
      moreover have "?fresh (cf_id h)"
        using fin h False same unfolding Cons scan_done_def by (auto simp: scanned_node_def)
      ultimately show ?thesis using init head h False newest by auto
    qed
  qed
  then obtain k ps' w' where w': "ccask_files_init dir m w = Some (CCASK_OK, w')" "started k w5 ps' w'" "?fresh k" "?near k" by blast
  then show thesis using same by (intro that [of w' k w5 ps']) (simp_all add: started_def)
qed

end
