(* ===== verification/Iterator.thy ===== *)
theory Iterator
  imports Files Records
begin

text \<open>
  src/iterator.c: sequential reading of a datafile or a hintfile, and the loop that all users of the
  iterators run.  Both iterators have the same shape, which the locale \<open>record_log\<close> captures: at a
  record boundary \<open>next\<close> returns the record and advances by its length.
\<close>

section \<open>State\<close>

text \<open>\<open>ccask_datafile_iter_t\<close> and \<open>ccask_hintfile_iter_t\<close> are the same struct.\<close>

record record_iter =
  it_file_id :: u64
  it_fd :: int
  it_offset :: u64
  it_total_size :: u64

type_synonym datafile_iter = record_iter
type_synonym hintfile_iter = record_iter

text \<open>
  Opening.  \<open>lseek\<close> is not checked: its error value -1 becomes the total size 2^64 - 1.  \<open>None\<close> is
  CCASK_FAIL.
\<close>

definition seek_end_u64 :: "int \<Rightarrow> 'a posix_scheme \<Rightarrow> u64 \<times> 'a posix_scheme" where
  "seek_end_u64 fd w = (case sys_lseek_end fd w of
      (Inl e, w') \<Rightarrow> (-1, w')
    | (Inr n, w') \<Rightarrow> (of_nat n, w'))"

definition ccask_datafile_iter_open ::
  "u64 \<Rightarrow> 'a files_state_scheme \<Rightarrow> datafile_iter option \<times> 'a files_state_scheme" where
  "ccask_datafile_iter_open file_id w =
     (let (fd, w1) = attempt_fd (ccask_files_get_datafile_fd file_id) w
      in if fd < 0 then (None, w1)
         else let (tot, w2) = seek_end_u64 fd w1
              in (Some \<lparr>it_file_id = file_id, it_fd = fd, it_offset = 0, it_total_size = tot\<rparr>, w2))"

definition ccask_hintfile_iter_open ::
  "u64 \<Rightarrow> 'a files_state_scheme \<Rightarrow> hintfile_iter option \<times> 'a files_state_scheme" where
  "ccask_hintfile_iter_open file_id w =
     (let (fd, w1) = attempt_fd (ccask_files_get_hintfile_fd file_id) w
      in if fd < 0 then (None, w1)
         else let (tot, w2) = seek_end_u64 fd w1
              in (Some \<lparr>it_file_id = file_id, it_fd = fd, it_offset = 0, it_total_size = tot\<rparr>, w2))"

definition ccask_datafile_iter_close :: "datafile_iter \<Rightarrow> 'a posix_scheme \<Rightarrow> 'a posix_scheme" where
  "ccask_datafile_iter_close it w = sys_close (it_fd it) w"

definition ccask_hintfile_iter_close :: "hintfile_iter \<Rightarrow> 'a posix_scheme \<Rightarrow> 'a posix_scheme" where
  "ccask_hintfile_iter_close it w = sys_close (it_fd it) w"

text \<open>A header that is cut off by the end of the file counts as the end of the iteration.\<close>

definition header_read_failed :: "'a posix_scheme \<Rightarrow> 'a posix_scheme" where
  "header_read_failed w =
     (if ccask_errno w = CCASK_ERR_UNEXPECTED_EOF then set_errno CCASK_ERR_ITER_END w else w)"

text \<open>
  \<open>Some (record, record_pos)\<close> is CCASK_OK, \<open>None\<close> is CCASK_FAIL.  The size of a record is added up in
  32 bits.  The code leaves the header's \<open>iov_len\<close> unset; no user of an iterator reads it.
\<close>

definition ccask_datafile_iter_next ::
  "datafile_iter \<Rightarrow> 'a posix_scheme
     \<Rightarrow> ((datafile_record \<times> u64) option \<times> datafile_iter) \<times> 'a posix_scheme" where
  "ccask_datafile_iter_next it w =
     (if it_total_size it \<le> it_offset it then ((None, it), set_errno CCASK_ERR_ITER_END w)
      else let (ok, w1) = sys_malloc w in
        if \<not> ok then ((None, it), set_errno CCASK_ERR_NO_MEMORY w1)
        else case safe_pread (it_fd it) DATAFILE_RECORD_HEADER_SIZE (unat (it_offset it)) w1 of
            ((CCASK_OK, hbuf), w2) \<Rightarrow>
              (let header = datafile_header_of hbuf;
                   (ok, w3) = sys_mallocs 2 w2
               in if \<not> ok then ((None, it), set_errno CCASK_ERR_NO_MEMORY w3)
                  else case safe_preadv (it_fd it) [unat (key_size header), unat (value_size header)]
                              (unat (it_offset it + of_nat DATAFILE_RECORD_HEADER_SIZE)) w3 of
                      ((CCASK_OK, bufs), w4) \<Rightarrow>
                        ((Some (\<lparr>rec_header = \<lparr>iov_base = hbuf, iov_len = DATAFILE_RECORD_HEADER_SIZE\<rparr>,
                                 rec_key = \<lparr>iov_base = bufs ! 0, iov_len = unat (key_size header)\<rparr>,
                                 rec_value = \<lparr>iov_base = bufs ! 1, iov_len = unat (value_size header)\<rparr>\<rparr>,
                                it_offset it),
                          it\<lparr>it_offset := it_offset it
                               + ucast (of_nat DATAFILE_RECORD_HEADER_SIZE + key_size header + value_size header)\<rparr>),
                         w4)
                    | (_, w4) \<Rightarrow> ((None, it), w4))
          | (_, w2) \<Rightarrow> ((None, it), header_read_failed w2))"

definition ccask_hintfile_iter_next ::
  "hintfile_iter \<Rightarrow> 'a posix_scheme
     \<Rightarrow> ((hintfile_record \<times> u64) option \<times> hintfile_iter) \<times> 'a posix_scheme" where
  "ccask_hintfile_iter_next it w =
     (if it_total_size it \<le> it_offset it then ((None, it), set_errno CCASK_ERR_ITER_END w)
      else let (ok, w1) = sys_malloc w in
        if \<not> ok then ((None, it), set_errno CCASK_ERR_NO_MEMORY w1)
        else case safe_pread (it_fd it) HINTFILE_RECORD_HEADER_SIZE (unat (it_offset it)) w1 of
            ((CCASK_OK, hbuf), w2) \<Rightarrow>
              (let header = hintfile_header_of hbuf;
                   (ok, w3) = sys_malloc w2
               in if \<not> ok then ((None, it), set_errno CCASK_ERR_NO_MEMORY w3)
                  else case safe_preadv (it_fd it) [unat (hint_key_size header)]
                              (unat (it_offset it + of_nat HINTFILE_RECORD_HEADER_SIZE)) w3 of
                      ((CCASK_OK, bufs), w4) \<Rightarrow>
                        ((Some (\<lparr>hint_header = \<lparr>iov_base = hbuf, iov_len = HINTFILE_RECORD_HEADER_SIZE\<rparr>,
                                 hint_key = \<lparr>iov_base = bufs ! 0, iov_len = unat (hint_key_size header)\<rparr>\<rparr>,
                                it_offset it),
                          it\<lparr>it_offset := it_offset it
                               + ucast (of_nat HINTFILE_RECORD_HEADER_SIZE + hint_key_size header)\<rparr>),
                         w4)
                    | (_, w4) \<Rightarrow> ((None, it), w4))
          | (_, w2) \<Rightarrow> ((None, it), header_read_failed w2))"

text \<open>
  The loop of the users: \<open>while (next(&iter, record, &pos) == CCASK_OK)\<close> with a body that may give up
  (\<open>False\<close>).  Any failure of \<open>next\<close>, not only the end of the file, ends it normally.  A record whose
  32-bit size is 0 makes it endless.
\<close>

partial_function (option) iter_loop ::
  "(record_iter \<Rightarrow> 's \<Rightarrow> (('r \<times> u64) option \<times> record_iter) \<times> 's)
     \<Rightarrow> ('r \<times> u64 \<Rightarrow> 's \<Rightarrow> (bool \<times> 's) option) \<Rightarrow> record_iter \<Rightarrow> 's \<Rightarrow> (bool \<times> 's) option" where
  "iter_loop iter_next body it w = (case iter_next it w of
      ((None, it'), w') \<Rightarrow> Some (True, w')
    | ((Some r, it'), w') \<Rightarrow> do {
        (ok, w'') \<leftarrow> body r w';
        if ok then iter_loop iter_next body it' w'' else Some (False, w'') })"

text \<open>What every round keeps holds after the loop, on any file.\<close>

lemma iter_loop_inv:
  assumes "iter_loop iter_next body it w = Some (b, w')" and "P w"
    and "\<And>it u y u'. P u \<Longrightarrow> iter_next it u = (y, u') \<Longrightarrow> P u'"
    and "\<And>r u b u'. P u \<Longrightarrow> body r u = Some (b, u') \<Longrightarrow> P u'"
  shows "P w'"
proof -
  let ?H = "\<lambda>nx body w x. (\<forall>it u y u'. P u \<longrightarrow> nx it u = (y, u') \<longrightarrow> P u')
      \<longrightarrow> (\<forall>r u b u'. P u \<longrightarrow> body r u = Some (b, u') \<longrightarrow> P u') \<longrightarrow> P w \<longrightarrow> P (snd x)"
  have "?H iter_next body w (b, w')"
  proof (rule iter_loop.raw_induct [where P = "\<lambda>nx body it w x. ?H nx body w x", OF _ assms(1)], intro impI)
    fix loop nx body it w and x :: "bool \<times> 'a"
    assume IH: "\<And>nx body it w x. loop nx body it w = Some x \<Longrightarrow> ?H nx body w x"
      and run: "(case nx it w of ((None, it'), w') \<Rightarrow> Some (True, w')
        | ((Some r, it'), w') \<Rightarrow> Option.bind (body r w') (\<lambda>(ok, w''). if ok then loop nx body it' w'' else Some (False, w''))) = Some x"
      and nx: "\<forall>it u y u'. P u \<longrightarrow> nx it u = (y, u') \<longrightarrow> P u'"
      and body: "\<forall>r u b u'. P u \<longrightarrow> body r u = Some (b, u') \<longrightarrow> P u'" and P: "P w"
    obtain r it' w1 where w1: "nx it w = ((r, it'), w1)" by (metis surj_pair)
    then have P1: "P w1" using nx P by blast
    show "P (snd x)"
    proof (cases r)
      case None
      with run w1 P1 show ?thesis by auto
    next
      case (Some y)
      then obtain ok w2 where w2: "body y w1 = Some (ok, w2)"
        and rest: "(if ok then loop nx body it' w2 else Some (False, w2)) = Some x"
        using run w1 by (auto simp: bind_eq_Some_conv)
      have P2: "P w2" using body P1 w2 by blast
      show ?thesis
      proof (cases ok)
        case True
        then have "loop nx body it' w2 = Some x" using rest by simp
        from IH [OF this, THEN mp, OF nx, THEN mp, OF body, THEN mp, OF P2] show ?thesis .
      next
        case False
        then have "x = (False, w2)" using rest by simp
        with P2 show ?thesis by simp
      qed
    qed
  qed
  then have "P w \<longrightarrow> P (snd (b, w'))" using assms(3,4) by blast
  with assms(2) show ?thesis by simp
qed


section \<open>Iterating over a log\<close>

text \<open>The positions of the records of a log.\<close>

fun record_positions :: "('e \<Rightarrow> byte list) \<Rightarrow> nat \<Rightarrow> 'e list \<Rightarrow> (nat \<times> 'e) list" where
  "record_positions enc pos [] = []"
| "record_positions enc pos (e # es) = (pos, e) # record_positions enc (pos + length (enc e)) es"

text \<open>Running a loop body over a list of records.\<close>

fun run_body :: "('r \<Rightarrow> 's \<Rightarrow> (bool \<times> 's) option) \<Rightarrow> 'r list \<Rightarrow> 's \<Rightarrow> (bool \<times> 's) option" where
  "run_body body [] w = Some (True, w)"
| "run_body body (r # rs) w = do {
     (ok, w') \<leftarrow> body r w;
     if ok then run_body body rs w' else Some (False, w') }"

locale record_log =
  fixes iter_next :: "record_iter \<Rightarrow> 'w posix_scheme
      \<Rightarrow> (('r \<times> u64) option \<times> record_iter) \<times> 'w posix_scheme"
    and encode :: "'e \<Rightarrow> byte list" and decoded :: "'e \<Rightarrow> 'r" and entry_ok :: "'e \<Rightarrow> bool"
  assumes encode_ne: "encode e \<noteq> []"
    and next_end: "it_total_size it \<le> it_offset it \<Longrightarrow>
      iter_next it w = ((None, it), set_errno CCASK_ERR_ITER_END w)"
    and next_record: "it_offset it < it_total_size it \<Longrightarrow> reads_from (it_fd it) bs w \<Longrightarrow>
      drop (unat (it_offset it)) bs = encode e @ rest \<Longrightarrow> length bs < 2 ^ 63 \<Longrightarrow> entry_ok e \<Longrightarrow>
      fault_script w = [] \<Longrightarrow>
      iter_next it w = ((Some (decoded e, it_offset it),
        it\<lparr>it_offset := it_offset it + of_nat (length (encode e))\<rparr>), w)"
    and next_sound: "reads_from (it_fd it) bs w \<Longrightarrow>
      drop (unat (it_offset it)) bs = encode e @ rest \<Longrightarrow> length bs < 2 ^ 63 \<Longrightarrow> entry_ok e \<Longrightarrow>
      iter_next it w = ((Some z, it'), w') \<Longrightarrow>
      z = (decoded e, it_offset it) \<and> it' = it\<lparr>it_offset := it_offset it + of_nat (length (encode e))\<rparr>"
    and next_eof: "reads_from (it_fd it) bs w \<Longrightarrow> length bs \<le> unat (it_offset it) \<Longrightarrow>
      iter_next it w = ((x, it'), w') \<Longrightarrow> x = None"
    and next_frame: "iter_next it w = (y, w') \<Longrightarrow> io_frame w w'"
begin

definition log_bytes :: "'e list \<Rightarrow> byte list" where
  "log_bytes es = concat (map encode es)"

definition log_records :: "nat \<Rightarrow> 'e list \<Rightarrow> ('r \<times> u64) list" where
  "log_records pos es = map (\<lambda>(p, e). (decoded e, of_nat p)) (record_positions encode pos es)"

lemma log_bytes_simps: "log_bytes [] = []" "log_bytes (e # es) = encode e @ log_bytes es"
  by (simp_all add: log_bytes_def)

lemma log_records_nth:
  "k < length es \<Longrightarrow> log_records pos es ! k = (decoded (es ! k), of_nat (pos + length (log_bytes (take k es))))"
proof (induction es arbitrary: pos k)
  case (Cons e es)
  then show ?case by (cases k) (simp_all add: log_records_def log_bytes_def add.assoc)
qed simp

lemma log_records_simps:
  "log_records pos [] = []"
  "log_records pos (e # es) = (decoded e, of_nat pos) # log_records (pos + length (encode e)) es"
  by (simp_all add: log_records_def)

text \<open>
  Without faults the loop runs its body on every record of the log, in order, and then stops.
\<close>

lemma iter_loop_log:
  assumes "P w" and "\<And>u. P u \<Longrightarrow> reads_from fd bs u \<and> fault_script u = []"
    and "\<And>r u u' b. r \<in> R \<Longrightarrow> P u \<Longrightarrow> body r u = Some (b, u') \<Longrightarrow> P u'"
    and "length bs < 2 ^ 63" and "\<forall>e \<in> set es. entry_ok e"
    and "bs = pre @ log_bytes es" and "it_fd it = fd" and "set (log_records (length pre) es) \<subseteq> R"
    and "it_offset it = of_nat (length pre)" and "it_total_size it = of_nat (length bs)"
  shows "iter_loop iter_next body it w
    = map_option (\<lambda>(b, u). (b, if b then set_errno CCASK_ERR_ITER_END u else u))
        (run_body body (log_records (length pre) es) w)"
  using assms(1,5-10)
proof (induction es arbitrary: it pre w)
  case Nil
  have "iter_next it w = ((None, it), set_errno CCASK_ERR_ITER_END w)"
    using Nil.prems(3,6,7) by (intro next_end) (simp add: log_bytes_simps)
  then show ?case by (simp add: iter_loop.simps log_records_simps)
next
  case (Cons e es)
  have bs: "bs = (pre @ encode e) @ log_bytes es" using Cons.prems(3) by (simp add: log_bytes_simps)
  have len: "length pre + length (encode e) + length (log_bytes es) < 2 ^ 63"
    using assms(4) by (simp add: bs)
  then have off: "unat (it_offset it) = length pre"
    using Cons.prems(6) by (simp add: unat_of_nat_64)
  have "0 < length (encode e)" using encode_ne by simp
  then have lt: "it_offset it < it_total_size it"
    using Cons.prems(6,7) len
    by (simp add: bs word_less_nat_alt unat_of_nat_64 del: length_greater_0_conv of_nat_add
        flip: of_nat_add)
  let ?it = "it\<lparr>it_offset := it_offset it + of_nat (length (encode e))\<rparr>"
  have rd: "reads_from (it_fd it) bs w" and nf: "fault_script w = []"
    using assms(2) [OF Cons.prems(1)] Cons.prems(4) by simp_all
  have step: "iter_next it w = ((Some (decoded e, it_offset it), ?it), w)"
    by (rule next_record [OF lt rd _ assms(4) _ nf, where rest = "log_bytes es"])
       (use off Cons.prems(2) in \<open>simp_all add: bs\<close>)
  have IH: "iter_loop iter_next body ?it u
      = map_option (\<lambda>(b, u). (b, if b then set_errno CCASK_ERR_ITER_END u else u))
          (run_body body (log_records (length (pre @ encode e)) es) u)" if "P u" for u
    by (rule Cons.IH [OF that _ bs])
       (use Cons.prems in \<open>simp_all add: log_records_simps\<close>)
  show ?case
  proof (cases "body (decoded e, it_offset it) w")
    case None
    then show ?thesis using step Cons.prems(6) by (simp add: iter_loop.simps log_records_simps)
  next
    case (Some x)
    obtain b u where x: "x = (b, u)" by fastforce
    have "(decoded e, it_offset it) \<in> R" using Cons.prems(5,6) by (simp add: log_records_simps)
    then have "P u" using assms(3) Cons.prems(1) Some x by blast
    then show ?thesis
      using step Some x Cons.prems(6) IH [of u]
      by (subst iter_loop.simps) (simp add: log_records_simps)
  qed
qed

text \<open>
  With faults the loop may stop early, but what it processes is still a prefix of the log.  \<open>Q k\<close>
  says that the first \<open>k\<close> records have been processed.
\<close>

lemma iter_loop_prefix:
  assumes "iter_loop iter_next body it w = Some (b, w')"
    and "reads_from fd (pre @ log_bytes es) w" and "Q k w"
    and "\<And>k u u'. Q k u \<Longrightarrow> io_frame u u' \<Longrightarrow> Q k u'"
    and "\<And>k u u'. k < length es \<Longrightarrow> Q k u \<Longrightarrow> reads_from fd (pre @ log_bytes es) u \<Longrightarrow>
      body (log_records (length pre) es ! k) u = Some (True, u') \<Longrightarrow>
      Q (Suc k) u' \<and> reads_from fd (pre @ log_bytes es) u'"
    and "\<And>k u u'. k < length es \<Longrightarrow> Q k u \<Longrightarrow> reads_from fd (pre @ log_bytes es) u \<Longrightarrow>
      body (log_records (length pre) es ! k) u = Some (False, u') \<Longrightarrow> R u'"
    and "length (pre @ log_bytes es) < 2 ^ 63" and "\<forall>e \<in> set es. entry_ok e"
    and "it_fd it = fd" and "k \<le> length es" and "it_offset it = of_nat (length pre + length (log_bytes (take k es)))"
  shows "if b then \<exists>k \<le> length es. Q k w' else R w'"
  using assms(1,2,3,9,10,11)
proof (induction "length es - k" arbitrary: k it w)
  case 0
  obtain y u where y: "iter_next it w = (y, u)" by fastforce
  have k: "k = length es" using 0 by simp
  have "unat (it_offset it) = length (pre @ log_bytes es)"
    using 0 k assms(7) by (simp add: unat_of_nat_64 flip: of_nat_add)
  then have "fst y = None"
    using next_eof [of it "pre @ log_bytes es" w "fst y" "snd y" u] 0 y by simp
  then have "b" "w' = u" using 0 y by (auto simp: iter_loop.simps split: prod.splits)
  moreover have "Q k u" using next_frame [OF y] 0 assms(4) by blast
  ultimately show ?case using k by auto
next
  case (Suc n)
  let ?bs = "pre @ log_bytes es"
  have k: "k < length es" using Suc.hyps(2) by simp
  obtain y u where y: "iter_next it w = (y, u)" by fastforce
  then have u: "io_frame w u" by (rule next_frame)
  have Qu: "Q k u" and ru: "reads_from fd ?bs u" using Suc.prems(2,3) assms(4) u reads_from_io by blast+
  let ?e = "es ! k"
  have es: "es = take k es @ ?e # drop (Suc k) es" using k by (simp add: id_take_nth_drop)
  have log: "log_bytes es = log_bytes (take k es) @ encode ?e @ log_bytes (drop (Suc k) es)"
    by (subst es) (simp only: log_bytes_def map_append concat_append list.map concat.simps)
  have off: "unat (it_offset it) = length pre + length (log_bytes (take k es))"
    using Suc.prems(6) assms(7) log by (simp add: unat_of_nat_64 flip: of_nat_add)
  have drop: "drop (unat (it_offset it)) ?bs = encode ?e @ log_bytes (drop (Suc k) es)"
    unfolding off by (subst log) simp
  have ok: "entry_ok ?e" using assms(8) k by simp
  show ?case
  proof (cases "fst y")
    case None
    then have "b" "w' = u" using Suc.prems(1) y by (auto simp: iter_loop.simps split: prod.splits)
    with Qu k show ?thesis by (auto intro: exI [of _ k])
  next
    case (Some r)
    let ?it = "it\<lparr>it_offset := it_offset it + of_nat (length (encode ?e))\<rparr>"
    have ry: "r = (decoded ?e, it_offset it)" "snd y = ?it"
    proof -
      have "iter_next it w = ((Some r, snd y), u)" using y Some by (metis prod.collapse)
      moreover have "reads_from (it_fd it) ?bs w" using Suc.prems(2,4) by simp
      ultimately show "r = (decoded ?e, it_offset it)" "snd y = ?it"
        using next_sound [OF _ drop assms(7) ok] by blast+
    qed
    have rk: "r = log_records (length pre) es ! k"
      using ry(1) Suc.prems(6) by (simp add: log_records_nth [OF k])
    obtain ok' v where v: "body r u = Some (ok', v)"
      and rest: "if ok' then iter_loop iter_next body ?it v = Some (b, w') else b = False \<and> w' = v"
      using Suc.prems(1) y Some ry(2)
      by (subst (asm) iter_loop.simps) (auto simp: bind_eq_Some_conv split: if_splits prod.splits)
    show ?thesis
    proof (cases ok')
      case True
      have "Q (Suc k) v \<and> reads_from fd ?bs v"
        using assms(5) [OF k Qu ru] v True rk by simp
      moreover have "it_offset ?it = of_nat (length pre + length (log_bytes (take (Suc k) es)))"
        using Suc.prems(6) k by (simp add: take_Suc_conv_app_nth log_bytes_def)
      ultimately show ?thesis
        using Suc.hyps(1) [of "Suc k" ?it v] Suc.hyps(2) Suc.prems(4) rest True k by simp
    next
      case False
      with rest assms(6) [OF k Qu ru] v rk show ?thesis by simp
    qed
  qed
qed

end


section \<open>Both iterators read their logs\<close>

lemma ucast_of_nat_32: "n < 2 ^ 32 \<Longrightarrow> (ucast (of_nat n :: u32) :: u64) = of_nat n"
  by (simp add: unsigned_of_nat take_bit_nat_eq_self)

lemma unat_offset_add:
  "unat off + n < 2 ^ 63 \<Longrightarrow> unat (off + of_nat n :: u64) = unat off + n"
  by (simp add: unat_word_ariths unat_of_nat)

lemma take_header: "take 16 (encode_entry e @ rest)
    = datafile_header_bytes (ent_crc e) (ent_timestamp e) (of_nat (length (ent_key e))) (of_nat (length (ent_value e)))"
  by (simp add: encode_entry_def)

lemma drop_header: "drop 16 (encode_entry e @ rest) = ent_key e @ ent_value e @ rest"
  by (simp add: encode_entry_def)

lemma take_hint_header: "take 20 (encode_hint pos e @ rest)
    = hintfile_header_bytes (ent_timestamp e) (of_nat (length (ent_key e))) (of_nat (length (ent_value e))) (of_nat pos)"
  by (simp add: encode_hint_def)

lemma drop_hint_header: "drop 20 (encode_hint pos e @ rest) = ent_key e @ rest"
  by (simp add: encode_hint_def)

lemma ent_sizes:
  assumes "ent_ok e"
  shows "unat (of_nat (length (ent_key e)) :: u32) = length (ent_key e)"
    and "unat (of_nat (length (ent_value e)) :: u32) = length (ent_value e)"
    and "0 < length (ent_value e)" and "ent_size e < 2 ^ 32"
    and "(ucast (16 + of_nat (length (ent_key e)) + of_nat (length (ent_value e)) :: u32) :: u64)
      = of_nat (ent_size e)"
proof -
  show lt: "ent_size e < 2 ^ 32" and "0 < length (ent_value e)" using assms by (auto simp: ent_ok_def)
  then show "unat (of_nat (length (ent_key e)) :: u32) = length (ent_key e)"
    and "unat (of_nat (length (ent_value e)) :: u32) = length (ent_value e)"
    by (simp_all add: ent_size_def unat_of_nat_32)
  have "(16 + of_nat (length (ent_key e)) + of_nat (length (ent_value e)) :: u32) = of_nat (ent_size e)"
    by (simp add: ent_size_def)
  then show "(ucast (16 + of_nat (length (ent_key e)) + of_nat (length (ent_value e)) :: u32) :: u64)
      = of_nat (ent_size e)"
    using ucast_of_nat_32 [OF lt] by simp
qed

definition hint_ok :: "nat \<times> entry \<Rightarrow> bool" where
  "hint_ok pe \<longleftrightarrow> (case pe of (pos, e) \<Rightarrow> 20 + length (ent_key e) < 2 ^ 32 \<and> ent_key e \<noteq> [])"

lemma drop_drop_offset:
  "drop off bs = xs @ rest \<Longrightarrow> xs \<noteq> [] \<Longrightarrow> off + length xs \<le> length bs"
proof -
  assume a: "drop off bs = xs @ rest" "xs \<noteq> []"
  then have "off < length bs" by (metis append_is_Nil_conv drop_all not_less)
  moreover have "length (drop off bs) = length xs + length rest" using a by simp
  ultimately show ?thesis by simp
qed

lemma encode_entry_ne: "encode_entry e \<noteq> []"
  by (metis length_encode_entry ent_size_def add_is_0 list.size(3) zero_neq_numeral)

lemma encode_hint_ne: "encode_hint pos e \<noteq> []"
  by (metis length_encode_hint add_is_0 list.size(3) zero_neq_numeral)

lemma ccask_datafile_iter_next_record:
  assumes lt: "it_offset it < it_total_size it" and rd: "reads_from (it_fd it) bs w"
    and dr: "drop (unat (it_offset it)) bs = encode_entry e @ rest" and len: "length bs < 2 ^ 63"
    and ok: "ent_ok e" and nf: "fault_script w = []"
  shows "ccask_datafile_iter_next it w = ((Some (ent_record e, it_offset it),
      it\<lparr>it_offset := it_offset it + of_nat (length (encode_entry e))\<rparr>), w)"
proof -
  let ?off = "unat (it_offset it)" and ?k = "length (ent_key e)" and ?v = "length (ent_value e)"
  obtain d where d: "open_fds w (it_fd it) = Some d" "inode_data w (fd_inode d) = bs" "0 \<le> it_fd it"
    using rd by (auto simp: reads_from_def)
  note sz = ent_sizes [OF ok]
  have fit: "?off + (16 + ?k + ?v) \<le> length bs"
    using drop_drop_offset [OF dr encode_entry_ne] by (simp add: ent_size_def)
  let ?hb = "datafile_header_bytes (ent_crc e) (ent_timestamp e) (of_nat ?k) (of_nat ?v)"
  have "safe_pread (it_fd it) 16 ?off w = ((CCASK_OK, take 16 (drop ?off bs)), w)"
    using safe_pread_no_fault [OF nf d(1), of 16 ?off] d fit by simp
  then have pread: "safe_pread (it_fd it) 16 ?off w = ((CCASK_OK, ?hb), w)"
    unfolding dr take_header .
  have off16: "unat (it_offset it + of_nat 16) = ?off + 16"
    using fit len by (intro unat_offset_add) simp
  have kv: "take (?k + ?v) (drop (?off + 16) bs) = ent_key e @ ent_value e"
  proof -
    have "drop (?off + 16) bs = drop 16 (drop ?off bs)" by (simp add: add.commute)
    also have "\<dots> = ent_key e @ ent_value e @ rest" unfolding dr by (rule drop_header)
    finally show ?thesis by simp
  qed
  have preadv: "safe_preadv (it_fd it) [?k, ?v] (?off + 16) w
      = ((CCASK_OK, chop [?k, ?v] (ent_key e @ ent_value e)), w)"
    using safe_preadv_no_fault [OF nf d(1,3), of "[?k, ?v]" "?off + 16"] d sz fit kv by simp
  show ?thesis
    using lt nf pread off16 preadv sz
    by (simp add: ccask_datafile_iter_next_def DATAFILE_RECORD_HEADER_SIZE_def sys_malloc_no_fault
        sys_mallocs_no_fault ent_record_def not_le)
qed


lemma ccask_datafile_iter_next_sound:
  assumes rd: "reads_from (it_fd it) bs w"
    and dr: "drop (unat (it_offset it)) bs = encode_entry e @ rest" and len: "length bs < 2 ^ 63"
    and ok: "ent_ok e" and nx: "ccask_datafile_iter_next it w = ((Some z, it'), w')"
  shows "z = (ent_record e, it_offset it) \<and> it' = it\<lparr>it_offset := it_offset it + of_nat (length (encode_entry e))\<rparr>"
proof -
  let ?off = "unat (it_offset it)" and ?k = "length (ent_key e)" and ?v = "length (ent_value e)"
  let ?hb = "datafile_header_bytes (ent_crc e) (ent_timestamp e) (of_nat ?k) (of_nat ?v)"
  obtain d where d: "open_fds w (it_fd it) = Some d" "inode_data w (fd_inode d) = bs"
    using rd by (auto simp: reads_from_def)
  note sz = ent_sizes [OF ok]
  have fit: "?off + (16 + ?k + ?v) \<le> length bs"
    using drop_drop_offset [OF dr encode_entry_ne] by (simp add: ent_size_def)
  obtain ok1 w1 where w1: "sys_malloc w = (ok1, w1)" by fastforce
  obtain st hb w2 where w2: "safe_pread (it_fd it) 16 ?off w1 = ((st, hb), w2)" by (metis surj_pair)
  obtain ok2 w3 where w3: "sys_mallocs 2 w2 = (ok2, w3)" by fastforce
  have ok1: "ok1" and lt: "\<not> it_total_size it \<le> it_offset it" and st: "st = CCASK_OK" and ok2: "ok2"
    using nx w1 w2 w3
    by (auto simp: ccask_datafile_iter_next_def DATAFILE_RECORD_HEADER_SIZE_def
Let_def
        split: if_splits ccask_status.splits)
  have f1: "io_frame w w1" using w1 by (rule sys_malloc_io)
  have f2: "io_frame w1 w2" using safe_pread_frame [OF w2] by blast
  have f3: "io_frame w2 w3" using w3 by (rule sys_mallocs_io)
  note same = io_frame_same [OF f1] io_frame_same [OF f2] io_frame_same [OF f3]
  have hb: "hb = ?hb"
  proof -
    have "hb = take 16 (drop ?off bs)"
      using safe_pread_ok [OF w2 [unfolded st]] d same by force
    then show ?thesis unfolding dr take_header .
  qed
  have off16: "unat (it_offset it + of_nat 16) = ?off + 16"
    using fit len by (intro unat_offset_add) simp
  obtain st4 bufs w4 where w4: "safe_preadv (it_fd it) [?k, ?v] (?off + 16) w3 = ((st4, bufs), w4)"
    by (metis surj_pair)
  have res: "st4 = CCASK_OK \<and> z = (\<lparr>rec_header = \<lparr>iov_base = ?hb, iov_len = 16\<rparr>,
        rec_key = \<lparr>iov_base = bufs ! 0, iov_len = ?k\<rparr>, rec_value = \<lparr>iov_base = bufs ! 1, iov_len = ?v\<rparr>\<rparr>,
        it_offset it)
    \<and> it' = it\<lparr>it_offset := it_offset it + of_nat (ent_size e)\<rparr>"
    using nx w1 ok1 lt w2 st w3 ok2 hb off16 w4 sz
    by (cases st4) (auto simp: ccask_datafile_iter_next_def DATAFILE_RECORD_HEADER_SIZE_def)
  have "drop (?off + 16) bs = ent_key e @ ent_value e @ rest"
  proof -
    have "drop (?off + 16) bs = drop 16 (drop ?off bs)" by (simp add: add.commute)
    then show ?thesis unfolding dr by (simp only: drop_header)
  qed
  moreover have "bufs = chop [?k, ?v] (take (?k + ?v) (drop (?off + 16) bs))"
    using safe_preadv_ok [of _ _ _ _ bufs w4] w4 res d same by force
  ultimately have "bufs = [ent_key e, ent_value e]" by simp
  with res show ?thesis by (simp add: ent_record_def)
qed

lemma header_read_failed_io [simp]: "io_frame w (header_read_failed w)"
  by (simp add: header_read_failed_def)

lemma ccask_datafile_iter_next_frame:
  assumes "ccask_datafile_iter_next it w = (y, w')"
  shows "io_frame w w'"
proof -
  obtain ok1 w1 where w1: "sys_malloc w = (ok1, w1)" by fastforce
  obtain st hb w2 where w2: "safe_pread (it_fd it) DATAFILE_RECORD_HEADER_SIZE (unat (it_offset it)) w1
      = ((st, hb), w2)" by (metis surj_pair)
  obtain ok2 w3 where w3: "sys_mallocs 2 w2 = (ok2, w3)" by fastforce
  obtain st4 bufs w4 where w4: "safe_preadv (it_fd it)
      [unat (key_size (datafile_header_of hb)), unat (value_size (datafile_header_of hb))]
      (unat (it_offset it + of_nat DATAFILE_RECORD_HEADER_SIZE)) w3 = ((st4, bufs), w4)"
    by (metis surj_pair)
  have f: "io_frame w w1" "io_frame w1 w2" "io_frame w2 w3" "io_frame w3 w4"
    using sys_malloc_io [OF w1] safe_pread_frame [OF w2] sys_mallocs_io [OF w3] safe_preadv_frame [OF w4]
    by blast+
  have "w' = set_errno CCASK_ERR_ITER_END w \<or> w' = set_errno CCASK_ERR_NO_MEMORY w1
      \<or> w' = header_read_failed w2 \<or> w' = set_errno CCASK_ERR_NO_MEMORY w3 \<or> w' = w4"
    using assms w1 w2 w3 w4
    by (auto simp: ccask_datafile_iter_next_def Let_def split: if_splits ccask_status.splits)
  then show ?thesis
    using f by (meson io_frame_trans io_frame_set_errno header_read_failed_io)
qed

lemma ccask_hintfile_iter_next_frame:
  assumes "ccask_hintfile_iter_next it w = (y, w')"
  shows "io_frame w w'"
proof -
  obtain ok1 w1 where w1: "sys_malloc w = (ok1, w1)" by fastforce
  obtain st hb w2 where w2: "safe_pread (it_fd it) HINTFILE_RECORD_HEADER_SIZE (unat (it_offset it)) w1
      = ((st, hb), w2)" by (metis surj_pair)
  obtain ok2 w3 where w3: "sys_malloc w2 = (ok2, w3)" by fastforce
  obtain st4 bufs w4 where w4: "safe_preadv (it_fd it) [unat (hint_key_size (hintfile_header_of hb))]
      (unat (it_offset it + of_nat HINTFILE_RECORD_HEADER_SIZE)) w3 = ((st4, bufs), w4)"
    by (metis surj_pair)
  have f: "io_frame w w1" "io_frame w1 w2" "io_frame w2 w3" "io_frame w3 w4"
    using sys_malloc_io [OF w1] safe_pread_frame [OF w2] sys_malloc_io [OF w3] safe_preadv_frame [OF w4]
    by blast+
  have "w' = set_errno CCASK_ERR_ITER_END w \<or> w' = set_errno CCASK_ERR_NO_MEMORY w1
      \<or> w' = header_read_failed w2 \<or> w' = set_errno CCASK_ERR_NO_MEMORY w3 \<or> w' = w4"
    using assms w1 w2 w3 w4
    by (auto simp: ccask_hintfile_iter_next_def Let_def split: if_splits ccask_status.splits)
  then show ?thesis
    using f by (meson io_frame_trans io_frame_set_errno header_read_failed_io)
qed

text \<open>At or past the end of the file there is no record.\<close>

lemma safe_pread_eof:
  assumes "safe_pread fd n off w = ((st, bs), w')" and "0 < n" and "reads_from fd cs w"
    and "length cs \<le> off"
  shows "st \<noteq> CCASK_OK"
proof
  assume "st = CCASK_OK"
  with assms(1,2) safe_pread_ok obtain d where "open_fds w fd = Some d"
    "off + n \<le> length (inode_data w (fd_inode d))" by metis
  with assms(2-4) show False by (auto simp: reads_from_def)
qed

lemma ccask_datafile_iter_next_eof:
  assumes "reads_from (it_fd it) bs w" and "length bs \<le> unat (it_offset it)"
    and "ccask_datafile_iter_next it w = ((x, it'), w')"
  shows "x = None"
proof -
  obtain ok1 w1 where w1: "sys_malloc w = (ok1, w1)" by fastforce
  obtain st hb w2 where w2: "safe_pread (it_fd it) DATAFILE_RECORD_HEADER_SIZE (unat (it_offset it)) w1
      = ((st, hb), w2)" by (metis surj_pair)
  have "reads_from (it_fd it) bs w1" using assms(1) reads_from_io [OF sys_malloc_io [OF w1]] by simp
  then have "st \<noteq> CCASK_OK"
    using safe_pread_eof [OF w2] assms(2) by (simp add: DATAFILE_RECORD_HEADER_SIZE_def)
  with assms(3) w1 w2 show ?thesis
    by (cases st) (auto simp: ccask_datafile_iter_next_def split: if_splits)
qed

lemma ccask_hintfile_iter_next_eof:
  assumes "reads_from (it_fd it) bs w" and "length bs \<le> unat (it_offset it)"
    and "ccask_hintfile_iter_next it w = ((x, it'), w')"
  shows "x = None"
proof -
  obtain ok1 w1 where w1: "sys_malloc w = (ok1, w1)" by fastforce
  obtain st hb w2 where w2: "safe_pread (it_fd it) HINTFILE_RECORD_HEADER_SIZE (unat (it_offset it)) w1
      = ((st, hb), w2)" by (metis surj_pair)
  have "reads_from (it_fd it) bs w1" using assms(1) reads_from_io [OF sys_malloc_io [OF w1]] by simp
  then have "st \<noteq> CCASK_OK"
    using safe_pread_eof [OF w2] assms(2) by (simp add: HINTFILE_RECORD_HEADER_SIZE_def)
  with assms(3) w1 w2 show ?thesis
    by (cases st) (auto simp: ccask_hintfile_iter_next_def split: if_splits)
qed

text \<open>Hintfiles: a hint must have a key, and its size must fit 32 bits.\<close>

lemma hint_sizes:
  assumes "hint_ok (pos, e)"
  shows "unat (of_nat (length (ent_key e)) :: u32) = length (ent_key e)" and "0 < length (ent_key e)"
    and "(ucast (20 + of_nat (length (ent_key e)) :: u32) :: u64) = of_nat (20 + length (ent_key e))"
proof -
  have lt: "20 + length (ent_key e) < 2 ^ 32" and "ent_key e \<noteq> []" using assms by (auto simp: hint_ok_def)
  then show "unat (of_nat (length (ent_key e)) :: u32) = length (ent_key e)" and "0 < length (ent_key e)"
    by (simp_all add: unat_of_nat_32)
  have "(20 + of_nat (length (ent_key e)) :: u32) = of_nat (20 + length (ent_key e))" by simp
  then show "(ucast (20 + of_nat (length (ent_key e)) :: u32) :: u64) = of_nat (20 + length (ent_key e))"
    using ucast_of_nat_32 [OF lt] by simp
qed

lemma ccask_hintfile_iter_next_record:
  assumes lt: "it_offset it < it_total_size it" and rd: "reads_from (it_fd it) bs w"
    and dr: "drop (unat (it_offset it)) bs = encode_hint pos e @ rest" and len: "length bs < 2 ^ 63"
    and ok: "hint_ok (pos, e)" and nf: "fault_script w = []"
  shows "ccask_hintfile_iter_next it w = ((Some (hint_record pos e, it_offset it),
      it\<lparr>it_offset := it_offset it + of_nat (length (encode_hint pos e))\<rparr>), w)"
proof -
  let ?off = "unat (it_offset it)" and ?k = "length (ent_key e)"
  obtain d where d: "open_fds w (it_fd it) = Some d" "inode_data w (fd_inode d) = bs" "0 \<le> it_fd it"
    using rd by (auto simp: reads_from_def)
  note sz = hint_sizes [OF ok]
  have fit: "?off + (20 + ?k) \<le> length bs"
    using drop_drop_offset [OF dr encode_hint_ne] by simp
  let ?hb = "hintfile_header_bytes (ent_timestamp e) (of_nat ?k) (of_nat (length (ent_value e))) (of_nat pos)"
  have "safe_pread (it_fd it) 20 ?off w = ((CCASK_OK, take 20 (drop ?off bs)), w)"
    using safe_pread_no_fault [OF nf d(1), of 20 ?off] d fit by simp
  then have pread: "safe_pread (it_fd it) 20 ?off w = ((CCASK_OK, ?hb), w)"
    unfolding dr take_hint_header .
  have off20: "unat (it_offset it + of_nat 20) = ?off + 20"
    using fit len by (intro unat_offset_add) simp
  have k: "take ?k (drop (?off + 20) bs) = ent_key e"
  proof -
    have "drop (?off + 20) bs = drop 20 (drop ?off bs)" by (simp add: add.commute)
    also have "\<dots> = ent_key e @ rest" unfolding dr by (rule drop_hint_header)
    finally show ?thesis by simp
  qed
  have preadv: "safe_preadv (it_fd it) [?k] (?off + 20) w = ((CCASK_OK, chop [?k] (ent_key e)), w)"
    using safe_preadv_no_fault [OF nf d(1,3), of "[?k]" "?off + 20"] d sz fit k by simp
  show ?thesis
    using lt nf pread off20 preadv sz
    by (simp add: ccask_hintfile_iter_next_def HINTFILE_RECORD_HEADER_SIZE_def sys_malloc_no_fault
        hint_record_def not_le)
qed

lemma ccask_hintfile_iter_next_sound:
  assumes rd: "reads_from (it_fd it) bs w"
    and dr: "drop (unat (it_offset it)) bs = encode_hint pos e @ rest" and len: "length bs < 2 ^ 63"
    and ok: "hint_ok (pos, e)" and nx: "ccask_hintfile_iter_next it w = ((Some z, it'), w')"
  shows "z = (hint_record pos e, it_offset it)
    \<and> it' = it\<lparr>it_offset := it_offset it + of_nat (length (encode_hint pos e))\<rparr>"
proof -
  let ?off = "unat (it_offset it)" and ?k = "length (ent_key e)"
  let ?hb = "hintfile_header_bytes (ent_timestamp e) (of_nat ?k) (of_nat (length (ent_value e))) (of_nat pos)"
  obtain d where d: "open_fds w (it_fd it) = Some d" "inode_data w (fd_inode d) = bs"
    using rd by (auto simp: reads_from_def)
  note sz = hint_sizes [OF ok]
  have fit: "?off + (20 + ?k) \<le> length bs"
    using drop_drop_offset [OF dr encode_hint_ne] by simp
  obtain ok1 w1 where w1: "sys_malloc w = (ok1, w1)" by fastforce
  obtain st hb w2 where w2: "safe_pread (it_fd it) 20 ?off w1 = ((st, hb), w2)" by (metis surj_pair)
  obtain ok2 w3 where w3: "sys_malloc w2 = (ok2, w3)" by fastforce
  have ok1: "ok1" and lt: "\<not> it_total_size it \<le> it_offset it" and st: "st = CCASK_OK" and ok2: "ok2"
    using nx w1 w2 w3
    by (auto simp: ccask_hintfile_iter_next_def HINTFILE_RECORD_HEADER_SIZE_def Let_def
        split: if_splits ccask_status.splits)
  note same = io_frame_same [OF sys_malloc_io [OF w1]] io_frame_same [OF sys_malloc_io [OF w3]]
    io_frame_same [OF conjunct1 [OF safe_pread_frame [OF w2]]]
  have hb: "hb = ?hb"
  proof -
    have "hb = take 20 (drop ?off bs)"
      using safe_pread_ok [OF w2 [unfolded st]] d same by force
    then show ?thesis unfolding dr take_hint_header .
  qed
  have off20: "unat (it_offset it + of_nat 20) = ?off + 20"
    using fit len by (intro unat_offset_add) simp
  obtain st4 bufs w4 where w4: "safe_preadv (it_fd it) [?k] (?off + 20) w3 = ((st4, bufs), w4)"
    by (metis surj_pair)
  have res: "st4 = CCASK_OK \<and> z = (\<lparr>hint_header = \<lparr>iov_base = ?hb, iov_len = 20\<rparr>,
        hint_key = \<lparr>iov_base = bufs ! 0, iov_len = ?k\<rparr>\<rparr>, it_offset it)
    \<and> it' = it\<lparr>it_offset := it_offset it + of_nat (20 + ?k)\<rparr>"
    using nx w1 ok1 lt w2 st w3 ok2 hb off20 w4 sz
    by (cases st4) (auto simp: ccask_hintfile_iter_next_def HINTFILE_RECORD_HEADER_SIZE_def)
  have "drop (?off + 20) bs = ent_key e @ rest"
  proof -
    have "drop (?off + 20) bs = drop 20 (drop ?off bs)" by (simp add: add.commute)
    then show ?thesis unfolding dr by (simp only: drop_hint_header)
  qed
  moreover have "bufs = chop [?k] (take ?k (drop (?off + 20) bs))"
    using safe_preadv_ok [of _ _ _ _ bufs w4] w4 res d same by force
  ultimately have "bufs = [ent_key e]" by simp
  with res show ?thesis by (simp add: hint_record_def)
qed

definition encode_hint_pair :: "nat \<times> entry \<Rightarrow> byte list" where
  "encode_hint_pair pe = (case pe of (pos, e) \<Rightarrow> encode_hint pos e)"

definition hint_record_pair :: "nat \<times> entry \<Rightarrow> hintfile_record" where
  "hint_record_pair pe = (case pe of (pos, e) \<Rightarrow> hint_record pos e)"

lemma ccask_datafile_iter_next_end:
  "it_total_size it \<le> it_offset it \<Longrightarrow>
     ccask_datafile_iter_next it w = ((None, it), set_errno CCASK_ERR_ITER_END w)"
  by (simp add: ccask_datafile_iter_next_def)

lemma ccask_hintfile_iter_next_end:
  "it_total_size it \<le> it_offset it \<Longrightarrow>
     ccask_hintfile_iter_next it w = ((None, it), set_errno CCASK_ERR_ITER_END w)"
  by (simp add: ccask_hintfile_iter_next_def)

interpretation data_log: record_log ccask_datafile_iter_next encode_entry ent_record ent_ok
  by unfold_locales
     (rule encode_entry_ne ccask_datafile_iter_next_end ccask_datafile_iter_next_record
        ccask_datafile_iter_next_sound ccask_datafile_iter_next_frame ccask_datafile_iter_next_eof;
      assumption)+

interpretation hint_log: record_log ccask_hintfile_iter_next encode_hint_pair hint_record_pair hint_ok
proof
  fix it :: hintfile_iter and w w' :: "'a posix_scheme" and bs rest and pe :: "nat \<times> entry" and z it' y x
  obtain pos e where pe: "pe = (pos, e)" by fastforce
  note unfold = pe encode_hint_pair_def hint_record_pair_def prod.case
  show "encode_hint_pair pe \<noteq> []" unfolding unfold by (rule encode_hint_ne)
  show "it_total_size it \<le> it_offset it \<Longrightarrow>
      ccask_hintfile_iter_next it w = ((None, it), set_errno CCASK_ERR_ITER_END w)"
    by (rule ccask_hintfile_iter_next_end)
  show "it_offset it < it_total_size it \<Longrightarrow> reads_from (it_fd it) bs w \<Longrightarrow>
      drop (unat (it_offset it)) bs = encode_hint_pair pe @ rest \<Longrightarrow> length bs < 2 ^ 63 \<Longrightarrow> hint_ok pe \<Longrightarrow>
      fault_script w = [] \<Longrightarrow>
      ccask_hintfile_iter_next it w = ((Some (hint_record_pair pe, it_offset it),
        it\<lparr>it_offset := it_offset it + of_nat (length (encode_hint_pair pe))\<rparr>), w)"
    unfolding unfold by (rule ccask_hintfile_iter_next_record)
  show "reads_from (it_fd it) bs w \<Longrightarrow>
      drop (unat (it_offset it)) bs = encode_hint_pair pe @ rest \<Longrightarrow> length bs < 2 ^ 63 \<Longrightarrow> hint_ok pe \<Longrightarrow>
      ccask_hintfile_iter_next it w = ((Some z, it'), w') \<Longrightarrow>
      z = (hint_record_pair pe, it_offset it)
      \<and> it' = it\<lparr>it_offset := it_offset it + of_nat (length (encode_hint_pair pe))\<rparr>"
    unfolding unfold by (rule ccask_hintfile_iter_next_sound)
  show "reads_from (it_fd it) bs w \<Longrightarrow> length bs \<le> unat (it_offset it) \<Longrightarrow>
      ccask_hintfile_iter_next it w = ((x, it'), w') \<Longrightarrow> x = None"
    by (rule ccask_hintfile_iter_next_eof)
  show "ccask_hintfile_iter_next it w = (y, w') \<Longrightarrow> io_frame w w'"
    by (rule ccask_hintfile_iter_next_frame)
qed

text \<open>The locale's logs are the logs of the records.\<close>

lemma data_log_bytes: "data_log.log_bytes es = encode_log es"
  by (simp add: data_log.log_bytes_def encode_log_def)

lemma hint_log_bytes: "hint_log.log_bytes hs = encode_hints hs"
  unfolding hint_log.log_bytes_def encode_hints_def by (simp add: encode_hint_pair_def [abs_def])

lemma record_positions_log: "record_positions encode_entry pos es = log_positions pos es"
  by (induction es arbitrary: pos) simp_all

lemma data_log_records:
  "data_log.log_records pos es = map (\<lambda>(p, e). (ent_record e, of_nat p)) (log_positions pos es)"
  by (simp add: data_log.log_records_def record_positions_log)


section \<open>Opening an iterator\<close>

text \<open>Moving a descriptor's offset changes no file.\<close>

lemma seek_end_u64_frame:
  assumes "seek_end_u64 fd w = (n, w')"
  shows "grows {} {} w w'" and "posix_inv w' = posix_inv w" and "posix.more w' = posix.more w"
    and "inode_data w' = inode_data w" and "open_fds w' = open_fds w" and "dir_entries w' = dir_entries w"
    and "next_fd w' = next_fd w"
proof -
  obtain r u where r: "sys_lseek_end fd w = (r, u)" by fastforce
  then have u: "w' = u" using assms by (auto simp: seek_end_u64_def split: sum.splits)
  obtain f v where f: "next_fault w = (f, v)" by fastforce
  then obtain fs where v: "v = w\<lparr>fault_script := fs\<rparr>" "length fs \<le> length (fault_script w)"
    using next_faultE by blast
  obtain offs where "u = v\<lparr>fd_offsets := offs\<rparr>"
  proof -
    have "u = v \<or> (\<exists>offs. u = v\<lparr>fd_offsets := offs\<rparr>)"
      using r f by (auto simp: sys_lseek_end_def Let_def split: fault.splits option.splits)
    moreover have "v = v\<lparr>fd_offsets := fd_offsets v\<rparr>" by simp
    ultimately show thesis using that by metis
  qed
  then have w': "w' = w\<lparr>fault_script := fs, fd_offsets := offs\<rparr>" using u v by simp
  then show "grows {} {} w w'" using v(2) by (intro grows_same) simp_all
  from w' show "posix_inv w' = posix_inv w" and "posix.more w' = posix.more w"
    and "inode_data w' = inode_data w" and "open_fds w' = open_fds w" and "dir_entries w' = dir_entries w"
    and "next_fd w' = next_fd w"
    by simp_all
qed

text \<open>A descriptor that is open on the file of a path.\<close>

definition fd_on :: "string \<Rightarrow> int \<Rightarrow> 'a posix_scheme \<Rightarrow> bool" where
  "fd_on path fd w \<longleftrightarrow> 0 \<le> fd \<and> (\<exists>d. open_fds w fd = Some d \<and> lookup_inode w path = Some (fd_inode d))"

lemma fd_on_reads: "fd_on path fd w \<Longrightarrow> reads_from fd (bytes_at w path) w"
  by (auto simp: fd_on_def reads_from_def bytes_at_def)

text \<open>What a successful open promises: the iterator stands at the start of the file of that path.\<close>

definition iter_opened :: "string \<Rightarrow> record_iter \<Rightarrow> 'a posix_scheme \<Rightarrow> 'b posix_scheme \<Rightarrow> bool" where
  "iter_opened path it w w' \<longleftrightarrow> it_offset it = 0 \<and> next_fd w \<le> it_fd it \<and> it_fd it < next_fd w'
     \<and> reads_from (it_fd it) (bytes_at w path) w' \<and> fd_on path (it_fd it) w'
     \<and> (fault_script w = [] \<longrightarrow> it_total_size it = of_nat (length (bytes_at w path)))"

lemma iter_open_result:
  assumes "attempt_fd (open_datafile ext flags perm i) w = (fd, w1)" and "posix_inv w"
    and "ext \<noteq> FILE_UNKNOWN" and "0 \<le> fd" and "seek_end_u64 fd w1 = (tot, w')"
  shows "iter_opened (ext_path (data_dir w) i ext)
      \<lparr>it_file_id = i, it_fd = fd, it_offset = 0, it_total_size = tot\<rparr> w w'"
    and "grows (creates flags (ext_path (data_dir w) i ext)) {} w w'" and "posix_inv w'"
    and "posix.more w' = posix.more w"
proof -
  let ?p = "ext_path (data_dir w) i ext"
  note o = attempt_open_result [OF assms(1-3)]
  note sk = seek_end_u64_frame [OF assms(5)]
  have "grows (creates flags ?p) {} w1 w'" using sk(1) by (rule grows_mono) simp_all
  then show g: "grows (creates flags ?p) {} w w'" using o(1) grows_trans_same by blast
  show "posix_inv w'" and "posix.more w' = posix.more w" using o sk by simp_all
  obtain j where j: "lookup_inode w1 ?p = Some j"
    "open_fds w1 fd = Some \<lparr>fd_inode = j, fd_writable = (flags = CREAT_RDWR_APPEND)\<rparr>"
    and fd: "next_fd w \<le> fd" "fd < next_fd w1"
    using o(4) [OF assms(4)] by (auto simp: opened_at_def)
  have "inode_data w1 j = bytes_at w ?p"
  proof -
    have "bytes_at w1 ?p = inode_data w1 j" using j(1) by (simp add: bytes_at_def)
    then show ?thesis using grows_bytes [OF o(1), of ?p] by simp
  qed
  then have r: "reads_from fd (bytes_at w ?p) w'" using j(2) assms(4) sk by (simp add: reads_from_def)
  have "tot = of_nat (length (bytes_at w ?p))" if "fault_script w = []"
  proof -
    have "fault_script w1 = []" using grows_no_fault [OF o(1) that] .
    then have "sys_lseek_end fd w1 = (Inr (length (inode_data w1 j)),
        w1\<lparr>fd_offsets := (fd_offsets w1)(fd := length (inode_data w1 j))\<rparr>)"
      using j(2) by (simp add: sys_lseek_end_no_fault)
    with assms(5) \<open>inode_data w1 j = bytes_at w ?p\<close> show ?thesis by (simp add: seek_end_u64_def)
  qed
  moreover have "fd_on ?p fd w'"
    using j sk lookup_inode_cong [of w' w1] assms(4) by (simp add: fd_on_def)
  ultimately show "iter_opened ?p \<lparr>it_file_id = i, it_fd = fd, it_offset = 0, it_total_size = tot\<rparr> w w'"
    using r fd sk by (simp add: iter_opened_def)
qed

lemma ccask_datafile_iter_open_result:
  assumes "ccask_datafile_iter_open i w = (r, w')" and "posix_inv w"
  shows "grows {} {} w w'" and "posix_inv w'" and "posix.more w' = posix.more w"
    and "r = Some it \<Longrightarrow> iter_opened (data_path (data_dir w) i) it w w'"
proof -
  obtain fd w1 where w1: "attempt_fd (ccask_files_get_datafile_fd i) w = (fd, w1)" by fastforce
  note o = attempt_open_result [OF w1 [unfolded ccask_files_get_datafile_fd_def] assms(2)]
  obtain tot w2 where w2: "seek_end_u64 fd w1 = (tot, w2)" by fastforce
  note i = iter_open_result [OF w1 [unfolded ccask_files_get_datafile_fd_def] assms(2) _ _ w2]
  have "grows {} {} w w' \<and> posix_inv w' \<and> posix.more w' = posix.more w
    \<and> (\<forall>it. r = Some it \<longrightarrow> iter_opened (data_path (data_dir w) i) it w w')"
  proof (cases "fd < 0")
    case True
    then show ?thesis
      using assms(1) w1 o by (auto simp: ccask_datafile_iter_open_def creates_def)
  next
    case False
    then have "r = Some \<lparr>it_file_id = i, it_fd = fd, it_offset = 0, it_total_size = tot\<rparr>" "w' = w2"
      using assms(1) w1 w2 by (auto simp: ccask_datafile_iter_open_def)
    then show ?thesis using i False by (simp add: creates_def data_path_def)
  qed
  then show "grows {} {} w w'" and "posix_inv w'" and "posix.more w' = posix.more w"
    and "r = Some it \<Longrightarrow> iter_opened (data_path (data_dir w) i) it w w'"
    by blast+
qed

definition hint_path :: "string \<Rightarrow> u64 \<Rightarrow> string" where
  "hint_path dir i = ext_path dir i FILE_HINT"

lemma ccask_hintfile_iter_open_result:
  assumes "ccask_hintfile_iter_open i w = (r, w')" and "posix_inv w"
  shows "grows {hint_path (data_dir w) i} {} w w'" and "posix_inv w'" and "posix.more w' = posix.more w"
    and "r = Some it \<Longrightarrow> iter_opened (hint_path (data_dir w) i) it w w'"
proof -
  obtain fd w1 where w1: "attempt_fd (ccask_files_get_hintfile_fd i) w = (fd, w1)" by fastforce
  note o = attempt_open_result [OF w1 [unfolded ccask_files_get_hintfile_fd_def] assms(2)]
  obtain tot w2 where w2: "seek_end_u64 fd w1 = (tot, w2)" by fastforce
  note i = iter_open_result [OF w1 [unfolded ccask_files_get_hintfile_fd_def] assms(2) _ _ w2]
  have "grows {hint_path (data_dir w) i} {} w w' \<and> posix_inv w' \<and> posix.more w' = posix.more w
    \<and> (\<forall>it. r = Some it \<longrightarrow> iter_opened (hint_path (data_dir w) i) it w w')"
  proof (cases "fd < 0")
    case True
    then show ?thesis
      using assms(1) w1 o by (auto simp: ccask_hintfile_iter_open_def creates_def hint_path_def)
  next
    case False
    then have "r = Some \<lparr>it_file_id = i, it_fd = fd, it_offset = 0, it_total_size = tot\<rparr>" "w' = w2"
      using assms(1) w1 w2 by (auto simp: ccask_hintfile_iter_open_def)
    then show ?thesis using i False by (simp add: creates_def hint_path_def)
  qed
  then show "grows {hint_path (data_dir w) i} {} w w'" and "posix_inv w'" and "posix.more w' = posix.more w"
    and "r = Some it \<Longrightarrow> iter_opened (hint_path (data_dir w) i) it w w'"
    by blast+
qed

end
