(* ===== verification/Keydir.thy ===== *)
theory Keydir
  imports Iterator
begin

text \<open>
  src/keydir.c: the in-memory directory from keys to the position of their newest record, its
  iterator, and its recovery from the hintfiles and datafiles.  The locale \<open>key_directory\<close> states
  what the writer and the recovery rely on; it is interpreted on this model.
\<close>

section \<open>State\<close>

record keydir_record =
  kd_key :: "byte list"
  kd_key_size :: u32
  kd_file_id :: u64
  kd_record_pos :: u64
  kd_value_size :: u32
  kd_timestamp :: u32

text \<open>
  The table, the heap of its records, and the number of readers that hold \<open>hash_table_lock\<close> (open
  key iterators).  A write lock is taken and released within one call; it waits while there are
  readers, and a call that waits does not return: \<open>None\<close>.
\<close>

record keydir_state = files_state +
  kd_table :: "nat uthash"
  kd_heap :: "nat \<Rightarrow> keydir_record option"
  kd_next_ptr :: nat
  kd_readers :: nat

text \<open>The caller's key buffer holds at least \<open>key_size\<close> bytes.\<close>

definition ccask_keydir_find :: "byte list \<Rightarrow> u32 \<Rightarrow> 'a keydir_state_scheme \<Rightarrow> nat option" where
  "ccask_keydir_find key ksize w = hash_find (kd_table w) (take (unat ksize) key)"

definition kd_wrlock :: "'a keydir_state_scheme \<Rightarrow> unit option" where
  "kd_wrlock w = (if kd_readers w = 0 then Some () else None)"

definition ccask_keydir_delete ::
  "byte list \<Rightarrow> u32 \<Rightarrow> 'a keydir_state_scheme \<Rightarrow> (ccask_status \<times> 'a keydir_state_scheme) option" where
  "ccask_keydir_delete key ksize w = (case ccask_keydir_find key ksize w of
      None \<Rightarrow> Some (CCASK_FAIL, w)
    | Some p \<Rightarrow> do {
        kd_wrlock w;
        Some (CCASK_OK, w\<lparr>kd_table := hash_del p (kd_table w), kd_heap := (kd_heap w)(p := None)\<rparr>) })"

definition ccask_keydir_upsert ::
  "byte list \<Rightarrow> u32 \<Rightarrow> u64 \<Rightarrow> u64 \<Rightarrow> u32 \<Rightarrow> u32 \<Rightarrow> 'a keydir_state_scheme
     \<Rightarrow> (ccask_status \<times> 'a keydir_state_scheme) option" where
  "ccask_keydir_upsert key ksize file_id record_pos vsize ts w =
     (let found = ccask_keydir_find key ksize w in do {
        kd_wrlock w;
        case found of
          Some p \<Rightarrow> do {
            r \<leftarrow> kd_heap w p;
            Some (CCASK_OK, w\<lparr>kd_heap := (kd_heap w)(p \<mapsto>
              r\<lparr>kd_file_id := file_id, kd_record_pos := record_pos, kd_value_size := vsize,
                kd_timestamp := ts\<rparr>)\<rparr>) }
        | None \<Rightarrow>
            (let (ok, w1) = sys_malloc w in
             if \<not> ok then Some (CCASK_RETRY, set_errno CCASK_ERR_NO_MEMORY w1)
             else let (ok, w2) = sys_malloc w1 in
             if \<not> ok then Some (CCASK_RETRY, set_errno CCASK_ERR_NO_MEMORY w2)
             else let p = kd_next_ptr w2; kb = take (unat ksize) key;
                      w3 = w2\<lparr>kd_heap := (kd_heap w2)(p \<mapsto>
                             \<lparr>kd_key = kb, kd_key_size = ksize, kd_file_id = file_id,
                              kd_record_pos = record_pos, kd_value_size = vsize,
                              kd_timestamp = ts\<rparr>),
                           kd_next_ptr := Suc p\<rparr>
                  in do { (table, w4) \<leftarrow> hash_add_keyptr kb p (kd_table w3) w3;
                          Some (CCASK_OK, w4\<lparr>kd_table := table\<rparr>) }) })"


section \<open>Key iterator\<close>

text \<open>\<open>ccask_keydir_record_iter_t\<close> is the address of the next record; it holds the read lock.\<close>

definition ccask_keydir_record_iter ::
  "'a keydir_state_scheme \<Rightarrow> nat option \<times> 'a keydir_state_scheme" where
  "ccask_keydir_record_iter w = (hash_first (kd_table w), w\<lparr>kd_readers := kd_readers w + 1\<rparr>)"

definition ccask_keydir_record_iter_next ::
  "nat option \<Rightarrow> 'a keydir_state_scheme \<Rightarrow> nat option \<times> nat option" where
  "ccask_keydir_record_iter_next iter w = (case iter of
      None \<Rightarrow> (None, None)
    | Some p \<Rightarrow> (Some p, hash_next p (kd_table w)))"

definition ccask_keydir_record_iter_close :: "'a keydir_state_scheme \<Rightarrow> 'a keydir_state_scheme" where
  "ccask_keydir_record_iter_close w = w\<lparr>kd_readers := kd_readers w - 1\<rparr>"


section \<open>Recovery\<close>

definition recover_hint_body ::
  "u64 \<Rightarrow> hintfile_record \<times> u64 \<Rightarrow> 'a keydir_state_scheme \<Rightarrow> (bool \<times> 'a keydir_state_scheme) option" where
  "recover_hint_body file_id r w =
     (let header = ccask_get_hintfile_record_header (fst r);
          key = ccask_get_hintfile_record_key (fst r)
      in do { (res, w') \<leftarrow> ccask_attempt_opt 5 CCASK_RETRY
                (ccask_keydir_upsert key (hint_key_size header) file_id (hint_record_pos header)
                   (hint_value_size header) (hint_timestamp header)) w;
              Some (res = CCASK_OK, w') })"

definition recover_hintfile ::
  "u64 \<Rightarrow> 'a keydir_state_scheme \<Rightarrow> (ccask_status \<times> 'a keydir_state_scheme) option" where
  "recover_hintfile file_id w = (case ccask_hintfile_iter_open file_id w of
      (None, w1) \<Rightarrow> Some (CCASK_FAIL, w1)
    | (Some it, w1) \<Rightarrow> do {
        (ok, w2) \<leftarrow> iter_loop ccask_hintfile_iter_next (recover_hint_body file_id) it w1;
        Some (if ok then CCASK_OK else CCASK_FAIL, ccask_hintfile_iter_close it w2) })"

definition recover_data_body ::
  "u64 \<Rightarrow> datafile_record \<times> u64 \<Rightarrow> 'a keydir_state_scheme \<Rightarrow> (bool \<times> 'a keydir_state_scheme) option" where
  "recover_data_body file_id r w =
     (let header = ccask_get_datafile_record_header (fst r);
          key = ccask_get_datafile_record_key (fst r)
      in do { (res, w') \<leftarrow> ccask_attempt_opt 5 CCASK_RETRY
                (ccask_keydir_upsert key (key_size header) file_id (snd r)
                   (value_size header) (timestamp header)) w;
              Some (res = CCASK_OK, w') })"

definition recover_datafile ::
  "u64 \<Rightarrow> 'a keydir_state_scheme \<Rightarrow> (ccask_status \<times> 'a keydir_state_scheme) option" where
  "recover_datafile file_id w = (case ccask_datafile_iter_open file_id w of
      (None, w1) \<Rightarrow> Some (CCASK_FAIL, w1)
    | (Some it, w1) \<Rightarrow> do {
        (ok, w2) \<leftarrow> iter_loop ccask_datafile_iter_next (recover_data_body file_id) it w1;
        Some (if ok then CCASK_OK else CCASK_FAIL, ccask_datafile_iter_close it w2) })"

text \<open>The loop of \<open>keydir_recover\<close>, from the oldest file along the \<open>previous\<close> links.\<close>

partial_function (option) keydir_recover_from ::
  "nat option \<Rightarrow> 'a keydir_state_scheme \<Rightarrow> (ccask_status \<times> 'a keydir_state_scheme) option" where
  "keydir_recover_from file w = (case file of
      None \<Rightarrow> Some (CCASK_OK, w)
    | Some p \<Rightarrow> do {
        f \<leftarrow> file_heap w p;
        (status, w1) \<leftarrow> (if cf_has_hint f then recover_hintfile (cf_id f) w else recover_datafile (cf_id f) w);
        if status \<noteq> CCASK_OK then Some (CCASK_FAIL, w1)
        else do { f' \<leftarrow> file_heap w1 p; keydir_recover_from (cf_previous f') w1 } })"

definition keydir_recover ::
  "'a keydir_state_scheme \<Rightarrow> (ccask_status \<times> 'a keydir_state_scheme) option" where
  "keydir_recover w = keydir_recover_from (ccask_files_get_oldest_file w) w"

definition ccask_keydir_init ::
  "'a keydir_state_scheme \<Rightarrow> (ccask_status \<times> 'a keydir_state_scheme) option" where
  "ccask_keydir_init w = keydir_recover (w\<lparr>kd_table := None, kd_readers := 0\<rparr>)"

text \<open>The \<open>HASH_ITER\<close> loop of the shutdown deletes every record.\<close>

definition kd_release :: "nat \<Rightarrow> 'a keydir_state_scheme \<Rightarrow> 'a keydir_state_scheme" where
  "kd_release p w = w\<lparr>kd_table := hash_del p (kd_table w), kd_heap := (kd_heap w)(p := None)\<rparr>"

definition ccask_keydir_shutdown :: "'a keydir_state_scheme \<Rightarrow> 'a keydir_state_scheme option" where
  "ccask_keydir_shutdown w = do {
     kd_wrlock w;
     Some ((fold kd_release (map snd (hash_elems (kd_table w))) w)\<lparr>kd_table := None\<rparr>) }"


section \<open>The directory as a map\<close>

text \<open>Where the newest record of a key is.\<close>

record location =
  loc_file :: u64
  loc_pos :: u64
  loc_size :: u32
  loc_timestamp :: u32

definition location_of :: "keydir_record \<Rightarrow> location" where
  "location_of r = \<lparr>loc_file = kd_file_id r, loc_pos = kd_record_pos r, loc_size = kd_value_size r,
     loc_timestamp = kd_timestamp r\<rparr>"

definition kd_lookup :: "'a keydir_state_scheme \<Rightarrow> byte list \<Rightarrow> location option" where
  "kd_lookup w k = do { p \<leftarrow> hash_find (kd_table w) k; r \<leftarrow> kd_heap w p; Some (location_of r) }"

definition keydir_inv :: "'a keydir_state_scheme \<Rightarrow> bool" where
  "keydir_inv w \<longleftrightarrow> uthash_inv (kd_table w)
     \<and> (\<forall>(k, p) \<in> set (hash_elems (kd_table w)). \<exists>r. kd_heap w p = Some r
          \<and> kd_key r = k \<and> unat (kd_key_size r) = length k)
     \<and> (\<forall>p. kd_heap w p \<noteq> None \<longrightarrow> p < kd_next_ptr w)"

definition kd_upsert ::
  "byte list \<Rightarrow> location \<Rightarrow> 'a keydir_state_scheme \<Rightarrow> (ccask_status \<times> 'a keydir_state_scheme) option" where
  "kd_upsert k l w = ccask_keydir_upsert k (of_nat (length k)) (loc_file l) (loc_pos l) (loc_size l)
     (loc_timestamp l) w"

text \<open>
  The interface of the directory: an update either succeeds and changes the map at its key, or asks
  for a retry and changes nothing.
\<close>

locale key_directory =
  fixes lookup :: "'w \<Rightarrow> 'k \<Rightarrow> 'v option"
    and upsert :: "'k \<Rightarrow> 'v \<Rightarrow> 'w \<Rightarrow> (ccask_status \<times> 'w) option"
    and inv :: "'w \<Rightarrow> bool" and key_ok :: "'k \<Rightarrow> bool"
  assumes upsert_ok: "inv w \<Longrightarrow> key_ok k \<Longrightarrow> upsert k v w = Some (CCASK_OK, w') \<Longrightarrow>
      inv w' \<and> lookup w' = (lookup w)(k \<mapsto> v)"
    and upsert_retry: "inv w \<Longrightarrow> key_ok k \<Longrightarrow> upsert k v w = Some (st, w') \<Longrightarrow> st \<noteq> CCASK_OK \<Longrightarrow>
      st = CCASK_RETRY \<and> inv w' \<and> lookup w' = lookup w"
begin

text \<open>The retry loop around an update keeps the contract.\<close>

lemma attempt_upsert:
  assumes "ccask_attempt_opt n CCASK_RETRY (upsert k v) w = Some (st, w')" and "inv w" and "key_ok k"
  shows "inv w'" and "lookup w' = (if st = CCASK_OK then (lookup w)(k \<mapsto> v) else lookup w)"
proof -
  have "inv w' \<and> lookup w' = (if st = CCASK_OK then (lookup w)(k \<mapsto> v) else lookup w)"
    using assms(1,2)
  proof (induction n arbitrary: w)
    case (Suc n)
    then obtain s u where s: "upsert k v w = Some (s, u)" by (auto simp: bind_eq_Some_conv)
    show ?case
    proof (cases "s = CCASK_OK")
      case True
      with Suc.prems s upsert_ok [OF Suc.prems(2) assms(3)] show ?thesis by auto
    next
      case False
      with s upsert_retry [OF Suc.prems(2) assms(3)] have "s = CCASK_RETRY" "inv u" "lookup u = lookup w"
        by blast+
      with Suc s show ?thesis by simp
    qed
  qed simp
  then show "inv w'" and "lookup w' = (if st = CCASK_OK then (lookup w)(k \<mapsto> v) else lookup w)"
    by blast+
qed

end


section \<open>The model implements the interface\<close>

text \<open>What an update may change besides the map.\<close>

definition kd_frame :: "'a keydir_state_scheme \<Rightarrow> 'a keydir_state_scheme \<Rightarrow> bool" where
  "kd_frame w w' \<longleftrightarrow> (\<exists>fs e t h n. w' = w\<lparr>fault_script := fs, ccask_errno := e, kd_table := t,
       kd_heap := h, kd_next_ptr := n\<rparr> \<and> length fs \<le> length (fault_script w))"

lemma kd_frameI:
  "w' = w\<lparr>fault_script := fs, ccask_errno := e, kd_table := t, kd_heap := h, kd_next_ptr := n\<rparr> \<Longrightarrow>
     length fs \<le> length (fault_script w) \<Longrightarrow> kd_frame w w'"
  unfolding kd_frame_def by blast

lemma kd_frame_refl [simp]: "kd_frame w w"
  by (rule kd_frameI [where fs = "fault_script w" and e = "ccask_errno w" and t = "kd_table w"
        and h = "kd_heap w" and n = "kd_next_ptr w"]) simp_all

lemma kd_frame_trans:
  assumes "kd_frame w w'" and "kd_frame w' w''"
  shows "kd_frame w w''"
proof -
  obtain fs e t h n where a: "w' = w\<lparr>fault_script := fs, ccask_errno := e, kd_table := t, kd_heap := h,
      kd_next_ptr := n\<rparr>" "length fs \<le> length (fault_script w)"
    using assms(1) by (auto simp: kd_frame_def)
  obtain fs' e' t' h' n' where b: "w'' = w'\<lparr>fault_script := fs', ccask_errno := e', kd_table := t',
      kd_heap := h', kd_next_ptr := n'\<rparr>" "length fs' \<le> length (fault_script w')"
    using assms(2) by (auto simp: kd_frame_def)
  show ?thesis
    by (rule kd_frameI [where fs = fs' and e = e' and t = t' and h = h' and n = n']) (use a b in simp_all)
qed

lemma kd_frame_io: "io_frame w w' \<Longrightarrow> kd_frame w w'"
proof -
  assume "io_frame w w'"
  then obtain fs e where "w' = w\<lparr>fault_script := fs, ccask_errno := e\<rparr>" "length fs \<le> length (fault_script w)"
    by (auto simp: io_frame_def)
  then show ?thesis
    by (intro kd_frameI [where fs = fs and e = e and t = "kd_table w" and h = "kd_heap w"
          and n = "kd_next_ptr w"]) simp_all
qed

lemma kd_frame_same:
  assumes "kd_frame w w'"
  shows "dir_entries w' = dir_entries w" "inode_data w' = inode_data w" "next_inode w' = next_inode w"
    "open_fds w' = open_fds w" "fd_offsets w' = fd_offsets w" "next_fd w' = next_fd w" "clock w' = clock w"
    "max_active_file_size w' = max_active_file_size w" "data_dir w' = data_dir w"
    "file_table w' = file_table w" "files_head w' = files_head w" "files_tail w' = files_tail w"
    "file_heap w' = file_heap w" "next_file_ptr w' = next_file_ptr w" "kd_readers w' = kd_readers w"
    "keydir_state.more w' = keydir_state.more w" "fault_script w = [] \<Longrightarrow> fault_script w' = []"
    "hint_pending w' = hint_pending w" "fd_invalidators w' = fd_invalidators w"
  using assms by (auto simp: kd_frame_def)

text \<open>An update has three outcomes.\<close>

lemma ccask_keydir_upsert_cases:
  assumes "ccask_keydir_upsert key ksize i pos vs ts w = Some (st, w')"
  obtains (retry) "st = CCASK_RETRY" and "io_frame w w'"
  | (update) p r where "st = CCASK_OK" and "hash_find (kd_table w) (take (unat ksize) key) = Some p"
      and "kd_heap w p = Some r"
      and "w' = w\<lparr>kd_heap := (kd_heap w)(p \<mapsto> r\<lparr>kd_file_id := i, kd_record_pos := pos,
        kd_value_size := vs, kd_timestamp := ts\<rparr>)\<rparr>"
  | (insert) u where "st = CCASK_OK" and "hash_find (kd_table w) (take (unat ksize) key) = None"
      and "io_frame w u"
      and "w' = u\<lparr>kd_heap := (kd_heap w)(kd_next_ptr w \<mapsto> \<lparr>kd_key = take (unat ksize) key, kd_key_size = ksize,
          kd_file_id = i, kd_record_pos = pos, kd_value_size = vs, kd_timestamp = ts\<rparr>),
        kd_next_ptr := Suc (kd_next_ptr w),
        kd_table := hash_add (take (unat ksize) key) (kd_next_ptr w) (kd_table w)\<rparr>"
proof (cases "hash_find (kd_table w) (take (unat ksize) key)")
  case (Some p)
  with assms update show ?thesis
    by (auto simp: ccask_keydir_upsert_def ccask_keydir_find_def bind_eq_Some_conv)
next
  case None
  obtain ok1 w1 where w1: "sys_malloc w = (ok1, w1)" by fastforce
  obtain ok2 w2 where w2: "sys_malloc w1 = (ok2, w2)" by fastforce
  have f1: "io_frame w w1" using w1 by (rule sys_malloc_io)
  have f2: "io_frame w w2" using f1 sys_malloc_io [OF w2] by (rule io_frame_trans)
  show ?thesis
  proof (cases "ok1 \<and> ok2")
    case False
    have "st = CCASK_RETRY \<and> (w' = set_errno CCASK_ERR_NO_MEMORY w1 \<or> w' = set_errno CCASK_ERR_NO_MEMORY w2)"
      using assms None w1 w2 False
      by (auto simp: ccask_keydir_upsert_def ccask_keydir_find_def bind_eq_Some_conv split: if_splits)
    with f1 f2 retry show ?thesis by (meson io_frame_set_errno io_frame_trans)
  next
    case True
    have more: "kd_table w2 = kd_table w" "kd_heap w2 = kd_heap w" "kd_next_ptr w2 = kd_next_ptr w"
      using f2 by (auto simp: io_frame_def)
    let ?k = "take (unat ksize) key" and ?p = "kd_next_ptr w"
    let ?w3 = "w2\<lparr>kd_heap := (kd_heap w)(?p \<mapsto> \<lparr>kd_key = ?k, kd_key_size = ksize,
          kd_file_id = i, kd_record_pos = pos, kd_value_size = vs, kd_timestamp = ts\<rparr>),
        kd_next_ptr := Suc ?p\<rparr>"
    obtain t w4 where w4: "hash_add_keyptr ?k ?p (kd_table w) ?w3 = Some (t, w4)"
      "st = CCASK_OK" "w' = w4\<lparr>kd_table := t\<rparr>"
      using assms None w1 w2 True more
      by (auto simp: ccask_keydir_upsert_def ccask_keydir_find_def bind_eq_Some_conv Let_def)
    obtain fs where fs: "t = hash_add ?k ?p (kd_table w)" "w4 = ?w3\<lparr>fault_script := fs\<rparr>"
      "length fs \<le> length (fault_script ?w3)"
      using w4(1) by (rule hash_add_keyptr_cases)
    let ?u = "w2\<lparr>fault_script := fs\<rparr>"
    have "io_frame w ?u" using f2 fs(3) by (intro io_frame_trans [OF f2] io_frameI) simp_all
    moreover have "w' = ?u\<lparr>kd_heap := (kd_heap w)(?p \<mapsto> \<lparr>kd_key = ?k, kd_key_size = ksize,
          kd_file_id = i, kd_record_pos = pos, kd_value_size = vs, kd_timestamp = ts\<rparr>),
        kd_next_ptr := Suc ?p, kd_table := hash_add ?k ?p (kd_table w)\<rparr>"
      using w4(3) fs(1,2) by simp
    ultimately show ?thesis using insert None w4(2) by blast
  qed
qed

lemma ccask_keydir_upsert_frame:
  assumes "ccask_keydir_upsert key ksize i pos vs ts w = Some (st, w')"
  shows "kd_frame w w'"
  using assms
proof (cases rule: ccask_keydir_upsert_cases)
  case retry
  then show ?thesis by (intro kd_frame_io)
next
  case (update p r)
  then show ?thesis
    by (intro kd_frameI [where fs = "fault_script w" and e = "ccask_errno w" and t = "kd_table w"
          and n = "kd_next_ptr w"]) simp_all
next
  case (insert u)
  then obtain fs e where "u = w\<lparr>fault_script := fs, ccask_errno := e\<rparr>" "length fs \<le> length (fault_script w)"
    by (auto simp: io_frame_def)
  note u = this
  let ?h = "(kd_heap w)(kd_next_ptr w \<mapsto> \<lparr>kd_key = take (unat ksize) key, kd_key_size = ksize,
      kd_file_id = i, kd_record_pos = pos, kd_value_size = vs, kd_timestamp = ts\<rparr>)"
    and ?t = "hash_add (take (unat ksize) key) (kd_next_ptr w) (kd_table w)"
  have "w' = w\<lparr>fault_script := fs, ccask_errno := e, kd_table := ?t, kd_heap := ?h,
      kd_next_ptr := Suc (kd_next_ptr w)\<rparr>"
    using insert(4) u(1) by (cases w) simp
  then show ?thesis using u(2) by (rule kd_frameI)
qed

text \<open>Looking up in terms of the table's pairs.\<close>

lemma keydir_inv_uthash: "keydir_inv w \<Longrightarrow> uthash_inv (kd_table w)"
  by (simp add: keydir_inv_def)

lemma keydir_inv_record:
  assumes "keydir_inv w" and "hash_find (kd_table w) k = Some p"
  obtains r where "kd_heap w p = Some r" and "kd_key r = k" and "unat (kd_key_size r) = length k"
proof -
  have "(k, p) \<in> set (hash_elems (kd_table w))"
    using assms by (simp add: keydir_inv_def ut.lookup_Some_iff)
  with assms(1) that show thesis unfolding keydir_inv_def by blast
qed

lemma keydir_inv_same:
  assumes "keydir_inv w" and "kd_table w' = kd_table w" and "kd_heap w' = kd_heap w"
    and "kd_next_ptr w' = kd_next_ptr w"
  shows "keydir_inv w'" and "kd_lookup w' = kd_lookup w"
  using assms by (simp_all add: keydir_inv_def kd_lookup_def fun_eq_iff)

lemma kd_upsert_ok:
  assumes inv: "keydir_inv w" and len: "length k < 2 ^ 32" and up: "kd_upsert k l w = Some (CCASK_OK, w')"
  shows "keydir_inv w' \<and> kd_lookup w' = (kd_lookup w)(k \<mapsto> l)"
proof -
  have k: "take (unat (of_nat (length k) :: u32)) k = k" using len by (simp add: unat_of_nat_32)
  note ui = keydir_inv_uthash [OF inv]
  from up [unfolded kd_upsert_def] show ?thesis
  proof (cases rule: ccask_keydir_upsert_cases)
    case (update p r)
    have fp: "hash_find (kd_table w) k = Some p" using update(2) k by simp
    have other: "hash_find (kd_table w) k' \<noteq> Some p" if "k' \<noteq> k" for k'
      using ut.lookup_inj [OF ui fp] that by blast
    have "keydir_inv w'"
      using inv update(3) unfolding update(4) keydir_inv_def
      by (auto split: if_splits)
    moreover have "kd_lookup w' = (kd_lookup w)(k \<mapsto> l)"
    proof
      fix k'
      show "kd_lookup w' k' = ((kd_lookup w)(k \<mapsto> l)) k'"
        using fp other [of k'] update(4)
        by (cases "k' = k"; cases "hash_find (kd_table w) k'")
           (auto simp: kd_lookup_def location_of_def)
    qed
    ultimately show ?thesis ..
  next
    case (insert u)
    let ?p = "kd_next_ptr w"
    have fk: "hash_find (kd_table w) k = None" using insert(2) k by simp
    have fresh: "?p \<notin> snd ` set (hash_elems (kd_table w))"
      using inv unfolding keydir_inv_def by fastforce
    note ins = ut.lookup_insert [OF ui fk fresh]
    have kfresh: "k \<notin> fst ` set (hash_elems (kd_table w))"
      using fk ut.lookup_None_iff [OF ui] by blast
    have el: "hash_elems (hash_add k ?p (kd_table w)) = hash_elems (kd_table w) @ [(k, ?p)]"
      using hash_add_inv(2) [OF ui kfresh fresh] .
    have kd': "kd_table w' = hash_add k ?p (kd_table w)" "kd_next_ptr w' = Suc ?p"
      "kd_heap w' = (kd_heap w)(?p \<mapsto> \<lparr>kd_key = k, kd_key_size = of_nat (length k),
          kd_file_id = loc_file l, kd_record_pos = loc_pos l, kd_value_size = loc_size l,
          kd_timestamp = loc_timestamp l\<rparr>)"
      using insert(4) k by simp_all
    have "keydir_inv w'"
    proof -
      have "\<exists>r. kd_heap w' q = Some r \<and> kd_key r = k' \<and> unat (kd_key_size r) = length k'"
        if "(k', q) \<in> set (hash_elems (kd_table w'))" for k' q
      proof (cases "(k', q) = (k, ?p)")
        case True
        then show ?thesis using kd'(3) len by (simp add: unat_of_nat_32)
      next
        case False
        then have kq: "(k', q) \<in> set (hash_elems (kd_table w))" using that kd'(1) el by auto
        then have "q \<noteq> ?p" using fresh by force
        with kq inv kd'(3) show ?thesis unfolding keydir_inv_def by fastforce
      qed
      moreover have "q < kd_next_ptr w'" if "kd_heap w' q \<noteq> None" for q
        using that inv kd'(2,3) unfolding keydir_inv_def by (cases "q = ?p") (auto simp: less_Suc_eq)
      ultimately show ?thesis using ins(1) kd'(1) by (auto simp: keydir_inv_def)
    qed
    moreover have "kd_lookup w' = (kd_lookup w)(k \<mapsto> l)"
    proof
      fix k'
      have "hash_find (kd_table w) k' \<noteq> Some ?p"
        using fresh ut.lookup_Some_iff [OF ui] by force
      then show "kd_lookup w' k' = ((kd_lookup w)(k \<mapsto> l)) k'"
        using kd' ins(2)
        by (cases "k' = k"; cases "hash_find (kd_table w) k'")
           (auto simp: kd_lookup_def location_of_def)
    qed
    ultimately show ?thesis ..
  qed simp
qed

lemma kd_upsert_retry:
  assumes "keydir_inv w" and "kd_upsert k l w = Some (st, w')" and "st \<noteq> CCASK_OK"
  shows "st = CCASK_RETRY \<and> keydir_inv w' \<and> kd_lookup w' = kd_lookup w"
  using assms(2) [unfolded kd_upsert_def]
proof (cases rule: ccask_keydir_upsert_cases)
  case retry
  then have "kd_table w' = kd_table w" "kd_heap w' = kd_heap w" "kd_next_ptr w' = kd_next_ptr w"
    by (auto simp: io_frame_def)
  with retry(1) keydir_inv_same [OF assms(1)] show ?thesis by blast
qed (use assms(3) in simp_all)

interpretation kd: key_directory kd_lookup kd_upsert keydir_inv "\<lambda>k. length k < 2 ^ 32"
  by unfold_locales (use kd_upsert_ok kd_upsert_retry in blast)+


section \<open>Recovery replays the logs\<close>

definition entry_location :: "u64 \<Rightarrow> nat \<Rightarrow> entry \<Rightarrow> location" where
  "entry_location file_id pos e = \<lparr>loc_file = file_id, loc_pos = of_nat pos,
     loc_size = of_nat (length (ent_value e)), loc_timestamp = ent_timestamp e\<rparr>"

definition replay ::
  "u64 \<Rightarrow> (nat \<times> entry) list \<Rightarrow> (byte list \<Rightarrow> location option) \<Rightarrow> byte list \<Rightarrow> location option" where
  "replay file_id pes m = fold (\<lambda>(pos, e) m. m(ent_key e \<mapsto> entry_location file_id pos e)) pes m"

lemma replay_simps [simp]:
  "replay i [] m = m"
  "replay i ((pos, e) # pes) m = replay i pes (m(ent_key e \<mapsto> entry_location i pos e))"
  "replay i (pes @ qes) m = replay i qes (replay i pes m)"
  by (simp_all add: replay_def)

definition upsert_body :: "byte list \<Rightarrow> location \<Rightarrow> 'a keydir_state_scheme \<Rightarrow> (bool \<times> 'a keydir_state_scheme) option" where
  "upsert_body k l w = do { (res, w') \<leftarrow> ccask_attempt_opt 5 CCASK_RETRY (kd_upsert k l) w;
     Some (res = CCASK_OK, w') }"

lemma recover_data_body_entry:
  "recover_data_body i (ent_record e, of_nat pos) = upsert_body (ent_key e) (entry_location i pos e)"
  by (rule ext) (simp add: recover_data_body_def upsert_body_def kd_upsert_def [abs_def] ent_header_def
      entry_location_def)

lemma recover_hint_body_entry:
  "recover_hint_body i (hint_record pos e, x) = upsert_body (ent_key e) (entry_location i pos e)"
  by (rule ext) (simp add: recover_hint_body_def upsert_body_def kd_upsert_def [abs_def]
      entry_location_def)

lemma attempt_upsert_frame:
  assumes "ccask_attempt_opt n CCASK_RETRY (ccask_keydir_upsert key ksize i pos vs ts) w = Some (st, w')"
  shows "kd_frame w w'"
  using ccask_attempt_opt_inv [where P = "kd_frame w", OF assms] ccask_keydir_upsert_frame kd_frame_trans
  by (metis kd_frame_refl)

lemma upsert_body_result:
  assumes "upsert_body k l w = Some (b, w')" and "keydir_inv w" and "length k < 2 ^ 32"
  shows "kd_frame w w'" and "keydir_inv w'"
    and "kd_lookup w' = (if b then (kd_lookup w)(k \<mapsto> l) else kd_lookup w)"
proof -
  obtain st where st: "ccask_attempt_opt 5 CCASK_RETRY (kd_upsert k l) w = Some (st, w')"
    "b = (st = CCASK_OK)"
    using assms(1) by (auto simp: upsert_body_def bind_eq_Some_conv)
  show "kd_frame w w'" using st(1) attempt_upsert_frame by (simp add: kd_upsert_def [abs_def])
  show "keydir_inv w'" and "kd_lookup w' = (if b then (kd_lookup w)(k \<mapsto> l) else kd_lookup w)"
    using kd.attempt_upsert [OF st(1) assms(2,3)] st(2) by simp_all
qed

lemma kd_upsert_no_fault:
  assumes "fault_script w = []" and "kd_readers w = 0" and "keydir_inv w" and "length k < 2 ^ 32"
  shows "\<exists>w'. kd_upsert k l w = Some (CCASK_OK, w')"
proof -
  have k: "take (unat (of_nat (length k) :: u32)) k = k" using assms(4) by (simp add: unat_of_nat_32)
  show ?thesis
  proof (cases "hash_find (kd_table w) k")
    case None
    then show ?thesis
      using assms k by (simp add: kd_upsert_def ccask_keydir_upsert_def ccask_keydir_find_def kd_wrlock_def
          sys_malloc_no_fault hash_add_keyptr_no_fault Let_def)
  next
    case (Some p)
    then obtain r where "kd_heap w p = Some r" using keydir_inv_record [OF assms(3)] by metis
    with Some show ?thesis
      using assms k by (simp add: kd_upsert_def ccask_keydir_upsert_def ccask_keydir_find_def kd_wrlock_def)
  qed
qed

lemma upsert_body_no_fault:
  assumes "fault_script w = []" and "kd_readers w = 0" and "keydir_inv w" and "length k < 2 ^ 32"
  obtains w' where "upsert_body k l w = Some (True, w')" and "kd_frame w w'" and "keydir_inv w'"
    and "kd_lookup w' = (kd_lookup w)(k \<mapsto> l)"
proof -
  obtain w' where "kd_upsert k l w = Some (CCASK_OK, w')" using kd_upsert_no_fault [OF assms] by blast
  then have "ccask_attempt_opt 5 CCASK_RETRY (kd_upsert k l) w = Some (CCASK_OK, w')"
    by (intro ccask_attempt_opt_done) simp_all
  then have b: "upsert_body k l w = Some (True, w')" by (simp add: upsert_body_def)
  show thesis using that [OF b] upsert_body_result [OF b assms(3,4)] by simp
qed

text \<open>Running the updates of a log, in order, is the replay of the log.\<close>

lemma run_upserts:
  assumes "\<And>pos e. (pos, e) \<in> set pes \<Longrightarrow> body (f pos e) = upsert_body (ent_key e) (entry_location i pos e)"
    and "\<forall>(pos, e) \<in> set pes. length (ent_key e) < 2 ^ 32"
    and "fault_script w = []" and "kd_readers w = 0" and "keydir_inv w"
  obtains w' where "run_body body (map (\<lambda>(pos, e). f pos e) pes) w = Some (True, w')"
    and "kd_frame w w'" and "keydir_inv w'" and "kd_lookup w' = replay i pes (kd_lookup w)"
  using assms
proof (induction pes arbitrary: w thesis)
  case Nil
  show ?case by (rule Nil.prems(1) [of w]) (use Nil.prems in simp_all)
next
  case (Cons pe pes)
  obtain pos e where pe: "pe = (pos, e)" by fastforce
  have len: "length (ent_key e) < 2 ^ 32" using Cons.prems(3) pe by simp
  obtain u where u: "upsert_body (ent_key e) (entry_location i pos e) w = Some (True, u)"
    "kd_frame w u" "keydir_inv u" "kd_lookup u = (kd_lookup w)(ent_key e \<mapsto> entry_location i pos e)"
    using upsert_body_no_fault [OF Cons.prems(4-6) len] by metis
  have "fault_script u = []" "kd_readers u = 0"
    using kd_frame_same [OF u(2)] Cons.prems(4,5) by simp_all
  with u(3) Cons.prems(2,3) obtain w' where w': "run_body body (map (\<lambda>(pos, e). f pos e) pes) u = Some (True, w')"
    "kd_frame u w'" "keydir_inv w'" "kd_lookup w' = replay i pes (kd_lookup u)"
    using Cons.IH [of u] by (metis (no_types, lifting) case_prodI2 case_prodD list.set_intros(2))
  have "body (f pos e) = upsert_body (ent_key e) (entry_location i pos e)"
    using Cons.prems(2) pe by simp
  with u w' pe kd_frame_trans [OF u(2) w'(2)] show ?case
    by (intro Cons.prems(1) [of w']) simp_all
qed


lemma kd_frame_grows: "kd_frame w w' \<Longrightarrow> grows {} {} w w'"
  by (rule grows_same) (auto simp: kd_frame_def)

lemma kd_frame_posix_inv: "kd_frame w w' \<Longrightarrow> posix_inv w' = posix_inv w"
  by (auto simp: kd_frame_def posix_inv_def)

lemma kd_frame_reads: "kd_frame w w' \<Longrightarrow> reads_from fd bs w' = reads_from fd bs w"
  by (rule reads_from_cong) (simp_all add: kd_frame_same)

lemma kd_frame_files: "kd_frame w w' \<Longrightarrow> same_files w w'"
  by (auto simp: kd_frame_def same_files_def)

lemma same_more_kd:
  assumes "posix.more w' = posix.more w"
  shows "kd_table w' = kd_table w" "kd_heap w' = kd_heap w" "kd_next_ptr w' = kd_next_ptr w"
    "kd_readers w' = kd_readers w" "keydir_state.more w' = keydir_state.more w"
  using assms by (cases w; cases w'; simp)+

text \<open>
  What recovering one file does: the data on disk and the file table stay as they are, and the map
  is updated.
\<close>

definition recovered :: "'a keydir_state_scheme \<Rightarrow> (byte list \<Rightarrow> location option)
    \<Rightarrow> 'a keydir_state_scheme \<Rightarrow> bool" where
  "recovered w m w' \<longleftrightarrow> grows {} {} w w' \<and> posix_inv w' \<and> same_files w w' \<and> keydir_inv w'
     \<and> kd_readers w' = 0 \<and> fault_script w' = [] \<and> kd_lookup w' = m"

definition recovery_ready :: "'a keydir_state_scheme \<Rightarrow> bool" where
  "recovery_ready w \<longleftrightarrow> posix_inv w \<and> keydir_inv w \<and> kd_readers w = 0 \<and> fault_script w = []"

lemma sys_close_files [simp]: "same_files w (sys_close fd w)"
  by (simp add: sys_close_def same_files_def)

lemma close_kd:
  "kd_lookup (sys_close fd w) = kd_lookup w" "keydir_inv (sys_close fd w) = keydir_inv w"
  "kd_readers (sys_close fd w) = kd_readers w" "fault_script (sys_close fd w) = fault_script w"
  by (simp_all add: sys_close_def kd_lookup_def keydir_inv_def fun_eq_iff)

text \<open>The part that both recovery functions share, after the iterator is open.\<close>

lemma grows_there:
  assumes "grows P F w w'" and "\<And>q. q \<in> P \<Longrightarrow> lookup_inode w q \<noteq> None"
  shows "grows {} F w w'"
proof -
  have "map_of (dir_entries w') q = map_of (dir_entries w) q" if q: "q \<in> P" for q
  proof -
    obtain i where i: "lookup_inode w q = Some i" using assms(2) [OF q] by blast
    moreover have "lookup_inode w' q = Some i" using grows_lookup [OF assms(1) i] .
    ultimately show ?thesis by (simp add: lookup_inode_def split: option.splits node.splits)
  qed
  with assms(1) show ?thesis unfolding grows_def by blast
qed

lemma recover_close:
  assumes gr: "grows {} {} w w1"
    and ready: "recovery_ready w" and more: "posix.more w1 = posix.more w"
    and inv1: "posix_inv w1" and fd: "next_fd w \<le> fd"
    and run: "kd_frame w1 u" "keydir_inv u" "kd_lookup u = m"
  shows "recovered w m (sys_close fd (set_errno CCASK_ERR_ITER_END u))"
proof -
  let ?v = "set_errno CCASK_ERR_ITER_END u"
  have f: "kd_frame w1 ?v" using run(1) kd_frame_io [OF io_frame_set_errno] kd_frame_trans by blast
  have same: "kd_table ?v = kd_table u" "kd_heap ?v = kd_heap u" "kd_next_ptr ?v = kd_next_ptr u"
    by (simp_all add: set_errno_def)
  note kv = keydir_inv_same [OF run(2) same]
  have "grows {} {} w ?v" using gr kd_frame_grows [OF f] by (rule grows_trans_same)
  moreover have "grows {} {fd} ?v (sys_close fd ?v)" by (rule grows_close)
  ultimately have g: "grows {} {fd} w (sys_close fd ?v)" using grows_trans by fastforce
  have "grows {} {} w (sys_close fd ?v)"
    using g fd unfolding grows_def by auto
  moreover have "posix_inv (sys_close fd ?v)"
    using kd_frame_posix_inv [OF f] inv1 posix_inv_close by blast
  moreover have "same_files w (sys_close fd ?v)"
    using same_files_more [OF more] kd_frame_files [OF f] sys_close_files same_files_trans by blast
  moreover have "kd_readers ?v = 0" "fault_script ?v = []"
    using kd_frame_same [OF f] same_more_kd [OF more] ready grows_no_fault [OF gr]
    by (simp_all add: recovery_ready_def)
  ultimately show ?thesis
    using kv run(3) by (auto simp: recovered_def close_kd)
qed

lemma recover_datafile_log:
  assumes ready: "recovery_ready w" and there: "lookup_inode w (data_path (data_dir w) i) \<noteq> None"
    and bytes: "data_bytes w i = encode_log es" and ok: "\<forall>e \<in> set es. ent_ok e"
    and size: "log_size es < 2 ^ 63"
  obtains w' where "recover_datafile i w = Some (CCASK_OK, w')"
    and "recovered w (replay i (log_positions 0 es) (kd_lookup w)) w'"
proof -
  have inv: "posix_inv w" and kdi: "keydir_inv w" and rd: "kd_readers w = 0" and nf: "fault_script w = []"
    using ready by (simp_all add: recovery_ready_def)
  obtain r w1 where w1: "ccask_datafile_iter_open i w = (r, w1)" by fastforce
  note op = ccask_datafile_iter_open_result [OF w1 inv]
  have "r \<noteq> None"
  proof -
    obtain fd u where u: "attempt_fd (ccask_files_get_datafile_fd i) w = (fd, u)" by fastforce
    have "0 \<le> fd"
      using attempt_open_no_fault [OF nf inv _ _ u [unfolded ccask_files_get_datafile_fd_def]] there
      by (simp add: data_path_def)
    with w1 u show ?thesis by (auto simp: ccask_datafile_iter_open_def split: prod.splits)
  qed
  then obtain it where it: "r = Some it" by auto
  note o = op(4) [OF it, unfolded iter_opened_def]
  note kd1 = same_more_kd [OF op(3)]
  have nf1: "fault_script w1 = []" using grows_no_fault [OF op(1) nf] .
  have kdi1: "keydir_inv w1" and look1: "kd_lookup w1 = kd_lookup w"
    by (rule keydir_inv_same [OF kdi kd1(1-3)])+
  have bs: "bytes_at w (data_path (data_dir w) i) = data_log.log_bytes es"
    using bytes by (simp add: data_bytes_def data_log_bytes)
  have len: "\<forall>(pos, e) \<in> set (log_positions 0 es). length (ent_key e) < 2 ^ 32"
  proof -
    have "e \<in> set es" if "(pos, e) \<in> set (log_positions 0 es)" for pos e
      using that map_snd_log_positions [of 0 es] by (metis image_eqI list.set_map snd_conv)
    then show ?thesis using ok by (force simp: ent_ok_def ent_size_def)
  qed
  obtain u where u: "run_body (recover_data_body i) (map (\<lambda>(pos, e). (ent_record e, of_nat pos)) (log_positions 0 es)) w1
      = Some (True, u)" "kd_frame w1 u" "keydir_inv u" "kd_lookup u = replay i (log_positions 0 es) (kd_lookup w1)"
    using run_upserts [where body = "recover_data_body i" and f = "\<lambda>pos e. (ent_record e, of_nat pos)",
        OF recover_data_body_entry len nf1 _ kdi1] kd1 rd by metis
  have "iter_loop ccask_datafile_iter_next (recover_data_body i) it w1
    = map_option (\<lambda>(b, u). (b, if b then set_errno CCASK_ERR_ITER_END u else u))
        (run_body (recover_data_body i) (data_log.log_records (length ([] :: byte list)) es) w1)"
  proof (rule data_log.iter_loop_log [where R = UNIV and fd = "it_fd it" and bs = "data_log.log_bytes es"
        and P = "\<lambda>u. reads_from (it_fd it) (data_log.log_bytes es) u \<and> fault_script u = []"])
    show "reads_from (it_fd it) (data_log.log_bytes es) w1 \<and> fault_script w1 = []"
      using o bs nf1 by (simp add: data_log_bytes)
    fix rec v v' b
    assume v: "reads_from (it_fd it) (data_log.log_bytes es) v \<and> fault_script v = []"
      and b: "recover_data_body i rec v = Some (b, v')"
    have f: "kd_frame v v'"
      using b attempt_upsert_frame by (auto simp: recover_data_body_def Let_def bind_eq_Some_conv)
    then show "reads_from (it_fd it) (data_log.log_bytes es) v' \<and> fault_script v' = []"
      using v kd_frame_reads [OF f] kd_frame_same(17) [OF f] by simp
  qed (use size ok o bs nf in \<open>simp_all add: data_log_bytes\<close>)
  then have "recover_datafile i w = Some (CCASK_OK, sys_close (it_fd it) (set_errno CCASK_ERR_ITER_END u))"
    using w1 it u(1) by (simp add: recover_datafile_def data_log_records ccask_datafile_iter_close_def)
  moreover have "recovered w (replay i (log_positions 0 es) (kd_lookup w))
      (sys_close (it_fd it) (set_errno CCASK_ERR_ITER_END u))"
    by (rule recover_close [OF op(1) ready op(3,2)]) (use o u look1 in simp_all)
  ultimately show thesis by (rule that)
qed


lemma recover_hintfile_log:
  assumes ready: "recovery_ready w" and there: "lookup_inode w (hint_path (data_dir w) i) \<noteq> None"
    and bytes: "bytes_at w (hint_path (data_dir w) i) = encode_hints pes" and ok: "\<forall>pe \<in> set pes. hint_ok pe"
    and size: "length (encode_hints pes) < 2 ^ 63"
  obtains w' where "recover_hintfile i w = Some (CCASK_OK, w')"
    and "recovered w (replay i pes (kd_lookup w)) w'"
proof -
  have inv: "posix_inv w" and kdi: "keydir_inv w" and rd: "kd_readers w = 0" and nf: "fault_script w = []"
    using ready by (simp_all add: recovery_ready_def)
  obtain r w1 where w1: "ccask_hintfile_iter_open i w = (r, w1)" by fastforce
  note op = ccask_hintfile_iter_open_result [OF w1 inv]
  have "r \<noteq> None"
  proof -
    obtain fd u where u: "attempt_fd (ccask_files_get_hintfile_fd i) w = (fd, u)" by fastforce
    have "0 \<le> fd"
      using attempt_open_no_fault [OF nf inv _ _ u [unfolded ccask_files_get_hintfile_fd_def]] there
      by (simp add: hint_path_def)
    with w1 u show ?thesis by (auto simp: ccask_hintfile_iter_open_def split: prod.splits)
  qed
  then obtain it where it: "r = Some it" by auto
  note o = op(4) [OF it, unfolded iter_opened_def]
  note kd1 = same_more_kd [OF op(3)]
  have nf1: "fault_script w1 = []" using grows_no_fault [OF op(1) nf] .
  have kdi1: "keydir_inv w1" and look1: "kd_lookup w1 = kd_lookup w"
    by (rule keydir_inv_same [OF kdi kd1(1-3)])+
  have len: "\<forall>(pos, e) \<in> set pes. length (ent_key e) < 2 ^ 32"
    using ok by (force simp: hint_ok_def)
  let ?x = "\<lambda>ps. map snd (hint_log.log_records 0 ps)"
  have body: "recover_hint_body i (hint_record_pair (pos, e), x)
      = upsert_body (ent_key e) (entry_location i pos e)" for pos e x
    by (simp add: hint_record_pair_def recover_hint_body_entry)
  obtain u where u: "run_body (recover_hint_body i) (map (\<lambda>(pos, e). (hint_record_pair (pos, e), 0)) pes) w1
      = Some (True, u)" "kd_frame w1 u" "keydir_inv u" "kd_lookup u = replay i pes (kd_lookup w1)"
    using run_upserts [where body = "recover_hint_body i" and f = "\<lambda>pos e. (hint_record_pair (pos, e), 0)",
        OF body len nf1 _ kdi1] kd1 rd by metis
  have recs: "run_body (recover_hint_body i) (hint_log.log_records n ps) v
      = run_body (recover_hint_body i) (map (\<lambda>(pos, e). (hint_record_pair (pos, e), 0)) ps) v" for n ps v
  proof (induction ps arbitrary: n v)
    case (Cons p ps)
    obtain pos e where "p = (pos, e)" by fastforce
    with Cons show ?case
      by (cases "upsert_body (ent_key e) (entry_location i pos e) v")
         (auto simp: hint_log.log_records_simps body)
  qed (simp add: hint_log.log_records_simps)
  have "iter_loop ccask_hintfile_iter_next (recover_hint_body i) it w1
    = map_option (\<lambda>(b, u). (b, if b then set_errno CCASK_ERR_ITER_END u else u))
        (run_body (recover_hint_body i) (hint_log.log_records (length ([] :: byte list)) pes) w1)"
  proof (rule hint_log.iter_loop_log [where R = UNIV and fd = "it_fd it" and bs = "hint_log.log_bytes pes"
        and P = "\<lambda>u. reads_from (it_fd it) (hint_log.log_bytes pes) u \<and> fault_script u = []"])
    show "reads_from (it_fd it) (hint_log.log_bytes pes) w1 \<and> fault_script w1 = []"
      using o bytes nf1 by (simp add: hint_log_bytes)
    fix rec v v' b
    assume v: "reads_from (it_fd it) (hint_log.log_bytes pes) v \<and> fault_script v = []"
      and b: "recover_hint_body i rec v = Some (b, v')"
    have f: "kd_frame v v'"
      using b attempt_upsert_frame by (auto simp: recover_hint_body_def Let_def bind_eq_Some_conv)
    then show "reads_from (it_fd it) (hint_log.log_bytes pes) v' \<and> fault_script v' = []"
      using v kd_frame_reads [OF f] kd_frame_same(17) [OF f] by simp
  qed (use size ok o bytes nf in \<open>simp_all add: hint_log_bytes\<close>)
  then have "recover_hintfile i w = Some (CCASK_OK, sys_close (it_fd it) (set_errno CCASK_ERR_ITER_END u))"
    using w1 it u(1) by (simp add: recover_hintfile_def recs ccask_hintfile_iter_close_def)
  moreover have "recovered w (replay i pes (kd_lookup w))
      (sys_close (it_fd it) (set_errno CCASK_ERR_ITER_END u))"
    by (rule recover_close [OF grows_there [OF op(1)] ready op(3,2)]) (use there o u look1 in simp_all)
  ultimately show thesis by (rule that)
qed

text \<open>
  A file whose datafile is the log \<open>es\<close>, and whose hintfile, if it has one, lists the hints of \<open>es\<close>.
\<close>

definition file_logged :: "'a files_state_scheme \<Rightarrow> ccask_file \<Rightarrow> entry list \<Rightarrow> bool" where
  "file_logged w f es \<longleftrightarrow>
     lookup_inode w (data_path (data_dir w) (cf_id f)) \<noteq> None
     \<and> data_bytes w (cf_id f) = encode_log es \<and> (\<forall>e \<in> set es. ent_ok e) \<and> log_size es < 2 ^ 63
     \<and> (cf_has_hint f \<longrightarrow>
          lookup_inode w (hint_path (data_dir w) (cf_id f)) \<noteq> None
          \<and> bytes_at w (hint_path (data_dir w) (cf_id f)) = encode_hints (log_positions 0 es)
          \<and> (\<forall>pe \<in> set (log_positions 0 es). hint_ok pe) \<and> length (encode_hints (log_positions 0 es)) < 2 ^ 63)"

text \<open>Recovery through the hintfile or through the datafile gives the same map.\<close>

lemma recover_file_log:
  assumes "recovery_ready w" and "file_logged w f es"
  obtains w' where "(if cf_has_hint f then recover_hintfile (cf_id f) w else recover_datafile (cf_id f) w)
      = Some (CCASK_OK, w')"
    and "recovered w (replay (cf_id f) (log_positions 0 es) (kd_lookup w)) w'"
proof (cases "cf_has_hint f")
  case True
  from assms(2) True recover_hintfile_log [OF assms(1), of "cf_id f" "log_positions 0 es"] that
  show thesis by (auto simp: file_logged_def)
next
  case False
  from assms(2) False recover_datafile_log [OF assms(1), of "cf_id f" es] that
  show thesis by (auto simp: file_logged_def)
qed

lemma recovered_ready: "recovered w m w' \<Longrightarrow> recovery_ready w'"
  by (simp add: recovered_def recovery_ready_def)

lemma recovered_logged:
  assumes "recovered w m w'" and "file_logged w f es"
  shows "file_logged w' f es"
proof -
  have g: "grows {} {} w w'" and d: "data_dir w' = data_dir w"
    using assms(1) by (auto simp: recovered_def same_files_def)
  show ?thesis
    using assms(2) grows_bytes [OF g] grows_lookup [OF g] d
    unfolding file_logged_def data_bytes_def by (metis not_Some_eq)
qed

lemma recovered_trans:
  "recovered w m w' \<Longrightarrow> recovered w' m' w'' \<Longrightarrow> recovered w m' w''"
  using grows_trans_same same_files_trans unfolding recovered_def by blast

definition replay_files ::
  "(ccask_file \<times> entry list) list \<Rightarrow> (byte list \<Rightarrow> location option) \<Rightarrow> byte list \<Rightarrow> location option" where
  "replay_files fs m = fold (\<lambda>(f, es) m. replay (cf_id f) (log_positions 0 es) m) fs m"

text \<open>The loop of \<open>keydir_recover\<close> goes through the list backwards, from the oldest file.\<close>

lemma keydir_recover_from_logs:
  assumes "dll (file_heap w) None ps nxt"
    and "\<And>p. p \<in> set ps \<Longrightarrow> file_logged w (the (file_heap w p)) (L p)"
    and "recovery_ready w"
  shows "\<exists>w'. keydir_recover_from (last_of ps None) w = Some (CCASK_OK, w')
    \<and> recovered w (replay_files (map (\<lambda>p. (the (file_heap w p), L p)) (rev ps)) (kd_lookup w)) w'"
  using assms
proof (induction ps arbitrary: w nxt rule: rev_induct)
  case Nil
  have "grows {} {} w w" by (rule grows_same) simp_all
  then have "recovered w (kd_lookup w) w"
    using Nil.prems(3) by (auto simp: recovered_def recovery_ready_def)
  then show ?case by (simp add: keydir_recover_from.simps replay_files_def)
next
  case (snoc p ps)
  obtain f where f: "file_heap w p = Some f" using snoc.prems(1) dll_allocated by fastforce
  have prev: "cf_previous f = last_of ps None"
    using snoc.prems(1) f by simp
  have dll: "dll (file_heap w) None ps (Some p)" using snoc.prems(1) by simp
  have "file_logged w f (L p)" using snoc.prems(2) [of p] f by simp
  then obtain w1 where w1: "(if cf_has_hint f then recover_hintfile (cf_id f) w
      else recover_datafile (cf_id f) w) = Some (CCASK_OK, w1)"
    and r1: "recovered w (replay (cf_id f) (log_positions 0 (L p)) (kd_lookup w)) w1"
    using recover_file_log [OF snoc.prems(3)] by blast
  have heap: "file_heap w1 = file_heap w" using r1 by (simp add: recovered_def same_files_def)
  have "\<exists>w'. keydir_recover_from (last_of ps None) w1 = Some (CCASK_OK, w')
    \<and> recovered w1 (replay_files (map (\<lambda>p. (the (file_heap w1 p), L p)) (rev ps)) (kd_lookup w1)) w'"
    using dll heap snoc.prems(2) recovered_logged [OF r1] recovered_ready [OF r1]
    by (intro snoc.IH [of w1 "Some p"]) auto
  then obtain w' where w': "keydir_recover_from (last_of ps None) w1 = Some (CCASK_OK, w')"
    "recovered w1 (replay_files (map (\<lambda>p. (the (file_heap w1 p), L p)) (rev ps)) (kd_lookup w1)) w'"
    by blast
  have "kd_lookup w1 = replay (cf_id f) (log_positions 0 (L p)) (kd_lookup w)"
    using r1 by (simp add: recovered_def)
  with w' recovered_trans [OF r1 w'(2)] f w1 heap prev show ?case
    by (subst keydir_recover_from.simps) (auto simp: replay_files_def)
qed

lemma ccask_keydir_init_logs:
  assumes "posix_inv w" and "files_rep w ps" and "fault_script w = []"
    and "\<And>p. p \<in> set ps \<Longrightarrow> file_logged w (the (file_heap w p)) (L p)"
    and "\<And>p. kd_heap w p \<noteq> None \<Longrightarrow> p < kd_next_ptr w"
  obtains w' where "ccask_keydir_init w = Some (CCASK_OK, w')"
    and "recovered (w\<lparr>kd_table := None, kd_readers := 0\<rparr>)
      (replay_files (map (\<lambda>p. (the (file_heap w p), L p)) (rev ps)) Map.empty) w'"
proof -
  let ?w = "w\<lparr>kd_table := None, kd_readers := 0\<rparr>"
  have list: "files_list w ps" using assms(2) by (simp add: files_rep_def)
  have ready: "recovery_ready ?w"
    using assms(1,3,5) by (simp add: recovery_ready_def keydir_inv_def posix_inv_def)
  have logged: "file_logged ?w (the (file_heap ?w p)) (L p)" if "p \<in> set ps" for p
  proof -
    have "lookup_inode ?w q = lookup_inode w q" for q by (rule lookup_inode_cong) simp
    moreover have "bytes_at ?w q = bytes_at w q" for q by (rule bytes_at_cong) simp_all
    ultimately show ?thesis using assms(4) [OF that] by (simp add: file_logged_def data_bytes_def)
  qed
  have "dll (file_heap ?w) None ps None" using list by (simp add: files_list_def)
  from keydir_recover_from_logs [OF this logged ready]
  obtain w' where "keydir_recover_from (last_of ps None) ?w = Some (CCASK_OK, w')"
    and "recovered ?w (replay_files (map (\<lambda>p. (the (file_heap ?w p), L p)) (rev ps)) (kd_lookup ?w)) w'"
    by blast
  moreover have "files_tail ?w = last_of ps None" using list by (simp add: files_list_def)
  moreover have "kd_lookup ?w = Map.empty" by (simp add: kd_lookup_def fun_eq_iff)
  ultimately show thesis
    by (intro that [of w']) (simp_all add: ccask_keydir_init_def keydir_recover_def
        ccask_files_get_oldest_file_def)
qed

section \<open>Properties\<close>

definition demo_keydir :: "byte list \<Rightarrow> 'a \<Rightarrow> 'a keydir_state_scheme" where
  "demo_keydir bs x = demo_files bs \<lparr>kd_table = None, kd_heap = Map.empty, kd_next_ptr = 0, kd_readers = 0, \<dots> = x\<rparr>"

lemma demo_keydir_fields [simp]:
  "kd_table (demo_keydir bs x) = None" "kd_heap (demo_keydir bs x) = Map.empty"
  "kd_next_ptr (demo_keydir bs x) = 0" "kd_readers (demo_keydir bs x) = 0"
  "keydir_state.more (demo_keydir bs x) = x" "file_heap (demo_keydir bs x) = [0 \<mapsto> demo_node]"
  "fault_script (demo_keydir bs x) = []"
  by (simp_all add: demo_keydir_def demo_files_def)

lemma demo_keydir_inv: "keydir_inv (demo_keydir bs x)"
  by (simp add: keydir_inv_def)

lemma demo_keydir_lookup: "kd_lookup (demo_keydir bs x) = Map.empty"
  by (simp add: kd_lookup_def fun_eq_iff)

text \<open>
  C21: an upsert that succeeds keeps the directory consistent and changes the location of its key
  only; one that does not asks for a retry and changes nothing.
\<close>

theorem upsert_updates_map:
  assumes "keydir_inv w" and "unat ksize \<le> length key"
    and "ccask_keydir_upsert key ksize file_id pos vsize ts w = Some (st, w')"
  shows "keydir_inv w' \<and> st \<in> {CCASK_OK, CCASK_RETRY}
    \<and> kd_lookup w' = (if st = CCASK_OK
        then (kd_lookup w)(take (unat ksize) key \<mapsto>
          \<lparr>loc_file = file_id, loc_pos = pos, loc_size = vsize, loc_timestamp = ts\<rparr>) else kd_lookup w)"
proof -
  let ?k = "take (unat ksize) key"
  let ?l = "\<lparr>loc_file = file_id, loc_pos = pos, loc_size = vsize, loc_timestamp = ts\<rparr>"
  have n: "length ?k = unat ksize" using assms(2) by simp
  have "take (unat ksize) ?k = ?k" by simp
  then have "ccask_keydir_upsert ?k ksize file_id pos vsize ts w = ccask_keydir_upsert key ksize file_id pos vsize ts w"
    by (simp only: ccask_keydir_upsert_def ccask_keydir_find_def)
  moreover have "(of_nat (length ?k) :: u32) = ksize" unfolding n by simp
  ultimately have up: "kd_upsert ?k ?l w = Some (st, w')"
    using assms(3) by (simp add: kd_upsert_def)
  have "length ?k < 2 ^ 32" using n unsigned_less [of ksize] by simp
  then show ?thesis
    using kd_upsert_ok [OF assms(1), of ?k ?l w'] kd_upsert_retry [OF assms(1) up] up
    by (cases "st = CCASK_OK") simp_all
qed

theorem upsert_updates_map_witness:
  "\<exists>w'. ccask_keydir_upsert [1, 2] 2 5 6 7 8 (demo_keydir [] ()) = Some (CCASK_OK, w')
    \<and> kd_lookup w' [1, 2] = Some \<lparr>loc_file = 5, loc_pos = 6, loc_size = 7, loc_timestamp = 8\<rparr>"
proof -
  let ?l = "\<lparr>loc_file = 5, loc_pos = 6, loc_size = 7, loc_timestamp = 8\<rparr>"
  obtain w' where "kd_upsert [1, 2] ?l (demo_keydir [] ()) = Some (CCASK_OK, w')"
    using kd_upsert_no_fault [OF _ _ demo_keydir_inv, of "[]" "()" "[1, 2]" ?l] by auto
  then have w': "ccask_keydir_upsert [1, 2] 2 5 6 7 8 (demo_keydir [] ()) = Some (CCASK_OK, w')"
    by (simp add: kd_upsert_def)
  have "unat (2 :: u32) \<le> length [1, 2 :: byte]" by simp
  from upsert_updates_map [OF demo_keydir_inv this w'] w' show ?thesis by auto
qed

text \<open>
  C13: on datafiles that are logs (with hintfiles that list their records, where there are any), and
  without faults, \<open>ccask_keydir_init\<close> succeeds and leaves the locations that writing the records in
  their order leaves: the oldest file first, each file from its start.
\<close>

theorem init_replays_logs:
  assumes "files_ok w ps" and "fault_script w = []"
    and "\<forall>p \<in> set ps. file_logged w (the (file_heap w p)) (L p)"
    and "\<forall>p. kd_heap w p \<noteq> None \<longrightarrow> p < kd_next_ptr w"
  shows "\<exists>w'. ccask_keydir_init w = Some (CCASK_OK, w') \<and> keydir_inv w'
    \<and> kd_lookup w' = replay_files (map (\<lambda>p. (the (file_heap w p), L p)) (rev ps)) Map.empty"
proof -
  have "posix_inv w" "files_rep w ps" using assms(1) by (simp_all add: files_ok_def)
  then obtain w' where "ccask_keydir_init w = Some (CCASK_OK, w')"
    and "recovered (w\<lparr>kd_table := None, kd_readers := 0\<rparr>)
      (replay_files (map (\<lambda>p. (the (file_heap w p), L p)) (rev ps)) Map.empty) w'"
    using ccask_keydir_init_logs [OF _ _ assms(2), of ps L] assms(3,4) by blast
  then show ?thesis by (auto simp: recovered_def)
qed

lemma small_entry_facts:
  "ent_ok small_entry" "length (encode_entry small_entry) = 19" "ent_size small_entry = 19"
  "hint_ok (0, small_entry)" "length (encode_hint 0 small_entry) = 22"
  by (simp_all add: small_entry_def ent_ok_def ent_size_def hint_ok_def encode_entry_def encode_hint_def)

theorem init_replays_logs_witness:
  "\<exists>w'. ccask_keydir_init (demo_keydir (encode_log [small_entry]) ()) = Some (CCASK_OK, w')
    \<and> kd_lookup w' [1, 2] = Some \<lparr>loc_file = 0, loc_pos = 0, loc_size = 1, loc_timestamp = 7\<rparr>"
proof -
  let ?w = "demo_keydir (encode_log [small_entry]) ()"
  have log: "file_logged ?w demo_node [small_entry]"
    using small_entry_facts by (simp add: file_logged_def demo_keydir_def demo_data_bytes lookup_inode_def)
  have "\<exists>w'. ccask_keydir_init ?w = Some (CCASK_OK, w') \<and> keydir_inv w'
    \<and> kd_lookup w' = replay_files (map (\<lambda>p. (the (file_heap ?w p), [small_entry])) (rev [0])) Map.empty"
  proof (rule init_replays_logs)
    show "files_ok ?w [0]" by (simp add: demo_keydir_def demo_files_ok)
    show "\<forall>p \<in> set [0]. file_logged ?w (the (file_heap ?w p)) [small_entry]" using log by simp
  qed simp_all
  moreover have "replay_files (map (\<lambda>p. (the (file_heap ?w p), [small_entry])) (rev [0])) Map.empty [1, 2]
      = Some \<lparr>loc_file = 0, loc_pos = 0, loc_size = 1, loc_timestamp = 7\<rparr>"
    by (simp add: replay_files_def entry_location_def small_entry_def)
  ultimately show ?thesis by auto
qed


definition demo_hinted :: "unit keydir_state_scheme" where
  "demo_hinted = (demo_keydir (encode_log [small_entry]) ())
     \<lparr>dir_entries := [(data_path ''d'' 0, Regular 0), (hint_path ''d'' 0, Regular 1)],
      inode_data := (\<lambda>_. [])(0 := encode_log [small_entry], 1 := encode_hint 0 small_entry), next_inode := 2\<rparr>"


end
