(* ===== verification/Reader.thy ===== *)
theory Reader
  imports Files Records
begin

text \<open>
  src/reader.c: positioned reads of a record from a datafile, which open the file on demand, and the
  thread that closes the descriptors of idle files again.  The thread is a step that may be taken at
  any time between the calls.
\<close>

section \<open>Reading\<close>

text \<open>
  The part under the write lock: open the file and start the invalidator thread if none runs.
\<close>

definition reader_open_file ::
  "nat \<Rightarrow> 'a files_state_scheme \<Rightarrow> (ccask_status \<times> 'a files_state_scheme) option" where
  "reader_open_file p w = do {
     f \<leftarrow> file_heap w p;
     if 0 \<le> cf_fd f then Some (CCASK_OK, w)
     else let (fd, w1) = attempt_fd (ccask_files_get_datafile_fd (cf_id f)) w in
       if fd < 0 then Some (CCASK_FAIL, w1)
       else do {
         w2 \<leftarrow> write_file p (\<lambda>f. f\<lparr>cf_fd := fd\<rparr>) w1;
         if cf_is_fd_invalidator_running f then Some (CCASK_OK, w2)
         else let (res, w3) = attempt_pthread_create w2 in
           if res \<noteq> 0 then Some (CCASK_OK, w3)
           else do { w4 \<leftarrow> write_file p (\<lambda>f. f\<lparr>cf_is_fd_invalidator_running := True\<rparr>) w3;
                     Some (CCASK_OK, w4\<lparr>fd_invalidators := p # fd_invalidators w4\<rparr>) } } }"

text \<open>The buffers of the record are read up to the lengths they were allocated with.\<close>

definition record_with :: "byte list list \<Rightarrow> datafile_record \<Rightarrow> datafile_record" where
  "record_with bufs r =
     \<lparr>rec_header = (rec_header r)\<lparr>iov_base := bufs ! 0\<rparr>, rec_key = (rec_key r)\<lparr>iov_base := bufs ! 1\<rparr>,
      rec_value = (rec_value r)\<lparr>iov_base := bufs ! 2\<rparr>\<rparr>"

definition ccask_read_datafile_record ::
  "u64 \<Rightarrow> datafile_record \<Rightarrow> u64 \<Rightarrow> 'a files_state_scheme
     \<Rightarrow> ((ccask_status \<times> datafile_record) \<times> 'a files_state_scheme) option" where
  "ccask_read_datafile_record file_id r record_pos w = (case ccask_files_get_file file_id w of
      None \<Rightarrow> Some ((CCASK_FAIL, r), set_errno CCASK_ERR_NO_SUCH_DATAFILE w)
    | Some p \<Rightarrow> do {
        (ret, w1) \<leftarrow> reader_open_file p w;
        if ret \<noteq> CCASK_OK then Some ((ret, r), w1)
        else do {
          f \<leftarrow> file_heap w1 p;
          let ((n, bufs), w2) = safe_preadv (cf_fd f) (map iov_len (datafile_record_iov r)) (unat record_pos) w1;
          let (ret, w3) = (if status_code n < 0 then (CCASK_FAIL, set_errno CCASK_ERR_READ_FAILED w2)
                           else (CCASK_OK, w2));
          w4 \<leftarrow> write_file p (\<lambda>f. f\<lparr>cf_last_accessed := clock w3\<rparr>) w3;
          Some ((ret, record_with bufs r), w4) } })"


section \<open>The invalidator thread\<close>

definition FD_INVALIDATE_DURATION :: nat where
  "FD_INVALIDATE_DURATION = 5"

text \<open>
  One round of the endless loop of \<open>datafile_fd_invalidator_thread\<close>, after its sleep: whether the
  thread goes on, and the state.
\<close>

definition datafile_fd_invalidator_round ::
  "nat \<Rightarrow> 'a files_state_scheme \<Rightarrow> (bool \<times> 'a files_state_scheme) option" where
  "datafile_fd_invalidator_round p w = do {
     f \<leftarrow> file_heap w p;
     if \<not> cf_is_active f \<and> 0 \<le> cf_fd f \<and> cf_last_accessed f + FD_INVALIDATE_DURATION \<le> clock w
     then do { w1 \<leftarrow> write_file p (\<lambda>f. f\<lparr>cf_fd := -1, cf_is_fd_invalidator_running := False\<rparr>)
                        (sys_close (cf_fd f) w);
               Some (False, w1\<lparr>fd_invalidators := remove1 p (fd_invalidators w1)\<rparr>) }
     else Some (True, w) }"


section \<open>Changing one node\<close>

text \<open>A node may get a descriptor that is new, lose its descriptor, or change in other fields.\<close>

lemma file_nodes_replace:
  assumes "distinct (xs @ p # ys)"
  shows "file_nodes (h(p \<mapsto> g)) (xs @ p # ys) = file_nodes h xs @ unlinked g # file_nodes h ys"
  using assms by (auto simp: file_nodes_def)

lemma held_fds_append [simp]: "held_fds (xs @ ys) = held_fds xs @ held_fds ys"
  by (simp add: held_fds_def)

lemma in_held_fds: "fd \<in> set (held_fds fs) \<longleftrightarrow> 0 \<le> fd \<and> (\<exists>f \<in> set fs. cf_fd f = fd)"
  by (auto simp: held_fds_def)

lemma nodes_ok_below:
  assumes "nodes_ok dir w fs" and "posix_inv w" and "f \<in> set fs"
  shows "cf_fd f < next_fd w"
proof (cases "0 \<le> cf_fd f")
  case True
  have "node_ok dir w f" using assms(1,3) by (cases fs) (auto simp: nodes_ok_def)
  with True obtain d where "open_fds w (cf_fd f) = Some d" by (auto simp: node_ok_def)
  with assms(2) show ?thesis by (simp add: posix_inv_def)
next
  case False
  with assms(2) show ?thesis by (simp add: posix_inv_def)
qed

lemma nodes_ok_replace:
  assumes ok: "nodes_ok dir w (as @ f # bs)" and inv: "posix_inv w" and gr: "grows {} {} w w'"
    and same: "cf_id g = cf_id f" "cf_is_active g = cf_is_active f"
    and fd: "cf_fd g = cf_fd f \<or> cf_fd f < 0 \<and> opened_at (data_path dir (cf_id f)) b (cf_fd g) w w'"
  shows "nodes_ok dir w' (as @ g # bs)"
proof -
  have old: "node_ok dir w' h" if "h \<in> set (as @ f # bs)" for h
    using ok that node_ok_grows [OF _ gr inv] by (cases as) (auto simp: nodes_ok_def)
  have dist: "distinct (held_fds (as @ f # bs))"
    using ok by (cases as) (auto simp: nodes_ok_def)
  have g: "node_ok dir w' g"
    using fd old [of f] same(1) by (auto simp: node_ok_def opened_at_def)
  have "distinct (held_fds (as @ g # bs))"
  proof -
    have "distinct (held_fds (as @ [g] @ bs))"
    proof (cases "cf_fd g = cf_fd f")
      case True
      then have "held_fds (as @ [g] @ bs) = held_fds (as @ f # bs)" by (simp add: held_fds_def)
      with dist show ?thesis by simp
    next
      case False
      then have "next_fd w \<le> cf_fd g" using fd by (simp add: opened_at_def)
      moreover have "cf_fd h < next_fd w" if "h \<in> set as \<union> set bs" for h
        using nodes_ok_below [OF ok inv] that by auto
      ultimately have "cf_fd g \<notin> set (held_fds as) \<union> set (held_fds bs)"
        by (fastforce simp: in_held_fds)
      moreover have "distinct (held_fds as @ held_fds bs)"
        using dist held_fds_append [of as "[f] @ bs"] held_fds_append [of "[f]" bs] by auto
      ultimately show ?thesis by (auto simp: held_fds_def)
    qed
    then show ?thesis by simp
  qed
  note dist' = this
  show ?thesis
  proof (cases as)
    case Nil
    then have "0 \<le> cf_fd f" and act: "cf_is_active f"
      and "\<exists>d. open_fds w (cf_fd f) = Some d \<and> fd_writable d"
      using ok by (auto simp: nodes_ok_def)
    then have "cf_fd g = cf_fd f" "\<exists>d. open_fds w' (cf_fd f) = Some d \<and> fd_writable d"
      using fd grows_fds [OF gr inv] by auto
    moreover have "map_of (dir_entries w') q = map_of (dir_entries w) q" for q
      using gr by (simp add: grows_def)
    ultimately show ?thesis
      using ok old g same dist' Nil by (auto simp: nodes_ok_def)
  next
    case (Cons a as')
    then have "\<exists>d. open_fds w (cf_fd a) = Some d \<and> fd_writable d"
      using ok by (auto simp: nodes_ok_def)
    then have "\<exists>d. open_fds w' (cf_fd a) = Some d \<and> fd_writable d"
      using grows_fds [OF gr inv] by auto
    moreover have "map_of (dir_entries w') q = map_of (dir_entries w) q" for q
      using gr by (simp add: grows_def)
    ultimately show ?thesis
      using ok old g same dist' Cons by (auto simp: nodes_ok_def)
  qed
qed


text \<open>The same for the file table: one node changes, its identifier, links and activity do not.\<close>

lemma files_ok_write:
  assumes ok: "files_ok w ps" and p: "p \<in> set ps" and f: "file_heap w p = Some f"
    and g: "cf_id g = cf_id f" "cf_is_active g = cf_is_active f" "cf_next g = cf_next f"
      "cf_previous g = cf_previous f"
    and fd: "cf_fd g = cf_fd f \<or> cf_fd f < 0 \<and> opened_at (data_path (data_dir w) (cf_id f)) b (cf_fd g) w w'"
    and gr: "grows {} {} w w'" and inv': "posix_inv w'"
    and same: "files_head w' = files_head w" "files_tail w' = files_tail w" "file_table w' = file_table w"
      "next_file_ptr w' = next_file_ptr w" "data_dir w' = data_dir w"
    and heap: "file_heap w' = (file_heap w)(p \<mapsto> g)"
    and threads: "set (hint_pending w') \<union> set (fd_invalidators w') \<subseteq> set ps"
  shows "files_ok w' ps" and "\<And>q. q \<in> set ps \<Longrightarrow> id_of (file_heap w') q = id_of (file_heap w) q"
proof -
  have inv: "posix_inv w" and rep: "files_rep w ps"
    and nodes: "nodes_ok (data_dir w) w (file_nodes (file_heap w) ps)"
    using ok by (simp_all add: files_ok_def)
  have links: "\<exists>g. file_heap w' q = Some g \<and> cf_id g = cf_id h \<and> cf_next g = cf_next h
      \<and> cf_previous g = cf_previous h" if "q \<in> set ps" "file_heap w q = Some h" for q h
    using that f g heap by (cases "q = p") auto
  have alloc: "q < next_file_ptr w'" if "file_heap w' q \<noteq> None" for q
    using that rep f same(4) heap by (cases "q = p") (auto simp: files_rep_def)
  note rc = files_rep_cong [OF rep same(1-3) links alloc]
  show "\<And>q. q \<in> set ps \<Longrightarrow> id_of (file_heap w') q = id_of (file_heap w) q" by (rule rc(2))
  obtain as bs where ps: "ps = as @ p # bs" using p by (auto simp: in_set_conv_decomp)
  have dist: "distinct ps" using rep by (rule files_rep_distinct)
  have "file_nodes (file_heap w) ps = file_nodes (file_heap w) as @ unlinked f # file_nodes (file_heap w) bs"
    using f ps by (simp add: file_nodes_def)
  then have "nodes_ok (data_dir w) w'
      (file_nodes (file_heap w) as @ unlinked g # file_nodes (file_heap w) bs)"
    using nodes fd g by (intro nodes_ok_replace [OF _ inv gr, of _ _ "unlinked f"]) auto
  then have "nodes_ok (data_dir w') w' (file_nodes (file_heap w') ps)"
    using dist ps file_nodes_replace [of as p bs "file_heap w" g] heap same(5) by simp
  with rc(1) inv' threads show "files_ok w' ps" by (simp add: files_ok_def)
qed

text \<open>
  What a read leaves alone: the data of every file, and everything outside the nodes' descriptors
  and the thread list.
\<close>

definition reader_frame :: "nat list \<Rightarrow> 'a files_state_scheme \<Rightarrow> 'a files_state_scheme \<Rightarrow> bool" where
  "reader_frame ps w w' \<longleftrightarrow> files_ok w' ps \<and> grows {} {} w w'
     \<and> (\<forall>q \<in> set ps. id_of (file_heap w') q = id_of (file_heap w) q)
     \<and> data_dir w' = data_dir w \<and> max_active_file_size w' = max_active_file_size w
     \<and> files_state.more w' = files_state.more w
     \<and> files_head w' = files_head w \<and> hint_pending w' = hint_pending w
     \<and> has_hint_of (file_heap w') = has_hint_of (file_heap w)"

lemma reader_frame_trans:
  "reader_frame ps w w' \<Longrightarrow> reader_frame ps w' w'' \<Longrightarrow> reader_frame ps w w''"
  using grows_trans_same by (auto simp: reader_frame_def)

lemma grows_refl [simp]: "grows P F w w"
  by (rule grows_same) simp_all

lemma reader_frame_refl: "files_ok w ps \<Longrightarrow> reader_frame ps w w"
  by (simp add: reader_frame_def)

lemma reader_frame_io:
  assumes "files_ok w ps" and "io_frame w w'"
  shows "reader_frame ps w w'"
proof -
  have more: "posix.more w' = posix.more w" using assms(2) by (rule io_frame_more)
  have g: "grows {} {} w w'" using assms(2) by (intro grows_same) (simp_all add: io_frame_same)
  have inv: "posix_inv w'"
    using assms by (intro posix_inv_cong [of w w']) (simp_all add: io_frame_same files_ok_def)
  show ?thesis
    using files_ok_grows [OF assms(1) g inv more] g same_files_fields [OF more]
    by (simp add: reader_frame_def)
qed

lemma io_frame_grows: "io_frame w w' \<Longrightarrow> grows P F w w'"
  by (intro grows_same) (simp_all add: io_frame_same)

lemma reader_frame_write:
  assumes "files_ok w ps" and "p \<in> set ps"
    and "write_file p h w = Some w'"
    and "\<And>f. cf_id (h f) = cf_id f" "\<And>f. cf_is_active (h f) = cf_is_active f" "\<And>f. cf_next (h f) = cf_next f"
      "\<And>f. cf_previous (h f) = cf_previous f" "\<And>f. cf_fd (h f) = cf_fd f" "\<And>f. cf_has_hint (h f) = cf_has_hint f"
  shows "reader_frame ps w w'"
proof -
  obtain f where f: "file_heap w p = Some f" "w' = w\<lparr>file_heap := (file_heap w)(p \<mapsto> h f)\<rparr>"
    using assms(3) by (auto simp: write_file_def split: option.splits)
  have g: "grows {} {} w w'" using f by (intro grows_same) simp_all
  have inv: "posix_inv w'" using assms(1) f by (simp add: files_ok_def posix_inv_def)
  have "set (hint_pending w) \<union> set (fd_invalidators w) \<subseteq> set ps" using assms(1) by (simp add: files_ok_def)
  with files_ok_write [OF assms(1,2) f(1), of "h f" b w' for b] assms(4-8) g inv f(2)
    has_hint_of_same [of "file_heap w" p f "h f"] f(1) assms(9)
  show ?thesis by (simp add: reader_frame_def)
qed


section \<open>What a read returns\<close>

lemma files_ok_reads:
  assumes "files_ok w ps" and "p \<in> set ps" and "file_heap w p = Some f" and "0 \<le> cf_fd f"
  shows "reads_from (cf_fd f) (data_bytes w (cf_id f)) w"
proof -
  have "unlinked f \<in> set (file_nodes (file_heap w) ps)"
    using assms(2,3) by (force simp: file_nodes_def)
  then have "node_ok (data_dir w) w (unlinked f)"
    using assms(1) by (cases "file_nodes (file_heap w) ps") (auto simp: files_ok_def nodes_ok_def)
  then show ?thesis
    using assms(4) by (auto simp: node_ok_def reads_from_def data_bytes_def bytes_at_def)
qed

lemma files_ok_exists:
  assumes "files_ok w ps" and "p \<in> set ps"
  shows "lookup_inode w (data_path (data_dir w) (id_of (file_heap w) p)) \<noteq> None"
proof -
  obtain f where f: "file_heap w p = Some f"
    using assms files_rep_allocated by (force simp: files_ok_def)
  have "unlinked f \<in> set (file_nodes (file_heap w) ps)"
    using assms(2) f by (force simp: file_nodes_def)
  then have "node_ok (data_dir w) w (unlinked f)"
    using assms(1) by (cases "file_nodes (file_heap w) ps") (auto simp: files_ok_def nodes_ok_def)
  then show ?thesis using f by (auto simp: node_ok_def)
qed

lemma reader_frame_invalidators:
  assumes "reader_frame ps w u" and "set x \<subseteq> set ps"
  shows "reader_frame ps w (u\<lparr>fd_invalidators := x\<rparr>)"
proof -
  let ?v = "u\<lparr>fd_invalidators := x\<rparr>"
  have g: "grows {} {} u ?v" by (intro grows_same) simp_all
  have "posix_inv ?v" "files_rep ?v ps"
    using assms by (simp_all add: reader_frame_def files_ok_def posix_inv_def files_rep_def files_list_def)
  moreover have "nodes_ok (data_dir u) ?v (file_nodes (file_heap u) ps)"
  proof -
    have "lookup_inode ?v q = lookup_inode u q" for q by (rule lookup_inode_cong) simp
    then have "node_ok dir ?v = node_ok dir u" for dir by (simp add: node_ok_def fun_eq_iff)
    then have "nodes_ok (data_dir u) ?v fs = nodes_ok (data_dir u) u fs" for fs
      by (cases fs) (simp_all add: nodes_ok_def)
    moreover have "nodes_ok (data_dir u) u (file_nodes (file_heap u) ps)"
      using assms unfolding reader_frame_def files_ok_def by blast
    ultimately show ?thesis by blast
  qed
  ultimately have "files_ok ?v ps" using assms unfolding reader_frame_def files_ok_def by auto
  then show ?thesis using assms grows_trans_same [OF _ g] by (auto simp: reader_frame_def)
qed

lemma reader_open_file_result:
  assumes ok: "files_ok w ps" and p: "p \<in> set ps" and run: "reader_open_file p w = Some (st, w')"
  shows "reader_frame ps w w'"
    and "st = CCASK_OK \<Longrightarrow> \<exists>f. file_heap w' p = Some f \<and> 0 \<le> cf_fd f"
    and "fault_script w = [] \<Longrightarrow> st = CCASK_OK"
proof -
  have inv: "posix_inv w" and rep: "files_rep w ps"
    and threads: "set (hint_pending w) \<union> set (fd_invalidators w) \<subseteq> set ps"
    using ok by (simp_all add: files_ok_def)
  obtain f where f: "file_heap w p = Some f" using files_rep_allocated [OF rep p] by blast
  have "reader_frame ps w w' \<and> (st = CCASK_OK \<longrightarrow> (\<exists>f. file_heap w' p = Some f \<and> 0 \<le> cf_fd f))
    \<and> (fault_script w = [] \<longrightarrow> st = CCASK_OK)"
  proof (cases "0 \<le> cf_fd f")
    case True
    then show ?thesis using run f reader_frame_refl [OF ok] by (simp add: reader_open_file_def)
  next
    case closed: False
    obtain fd w1 where w1: "attempt_fd (ccask_files_get_datafile_fd (cf_id f)) w = (fd, w1)" by fastforce
    note o = attempt_open_result [OF w1 [unfolded ccask_files_get_datafile_fd_def] inv, simplified,
        unfolded creates_def, simplified, folded data_path_def]
    note same = same_files_fields [OF o(3)]
    have nf: "0 \<le> fd" if "fault_script w = []"
      using attempt_open_no_fault [OF that inv _ _ w1 [unfolded ccask_files_get_datafile_fd_def]]
        files_ok_exists [OF ok p] f by (simp add: data_path_def)
    show ?thesis
    proof (cases "fd < 0")
      case True
      then have "st = CCASK_FAIL" "w' = w1" using run f closed w1 by (auto simp: reader_open_file_def)
      moreover have "reader_frame ps w w1"
        using files_ok_grows [OF ok o(1,2,3)] o(1) same by (simp add: reader_frame_def)
      ultimately show ?thesis using nf True by auto
    next
      case False
      let ?w2 = "w1\<lparr>file_heap := (file_heap w)(p \<mapsto> f\<lparr>cf_fd := fd\<rparr>)\<rparr>"
      have g2: "grows {} {} w1 ?w2" by (intro grows_same) simp_all
      have op: "opened_at (data_path (data_dir w) (cf_id f)) False fd w ?w2"
      proof -
        have "lookup_inode ?w2 q = lookup_inode w1 q" for q by (rule lookup_inode_cong) simp
        then show ?thesis using o(4) False by (simp add: opened_at_def)
      qed
      have fr2: "reader_frame ps w ?w2"
        using files_ok_write [OF ok p f, of "f\<lparr>cf_fd := fd\<rparr>" False ?w2] op closed
          grows_trans_same [OF o(1) g2] o(2) same threads has_hint_of_same [of "file_heap w" p f "f\<lparr>cf_fd := fd\<rparr>"] f
        by (simp add: reader_frame_def posix_inv_def)
      then have ok2: "files_ok ?w2 ps" by (simp add: reader_frame_def)
      obtain res w3 where w3: "attempt_pthread_create ?w2 = (res, w3)" by fastforce
      then obtain fs where fs: "w3 = ?w2\<lparr>fault_script := fs\<rparr>" "length fs \<le> length (fault_script ?w2)"
        using attempt_pthread_create_frame by blast
      have fr3: "reader_frame ps w w3"
        using reader_frame_trans [OF fr2 reader_frame_io [OF ok2 io_frameI [OF fs]]] .
      then have ok3: "files_ok w3 ps" by (simp add: reader_frame_def)
      let ?w4 = "w3\<lparr>file_heap := (file_heap w3)(p \<mapsto> f\<lparr>cf_fd := fd, cf_is_fd_invalidator_running := True\<rparr>)\<rparr>"
      have wr4: "write_file p (\<lambda>f. f\<lparr>cf_is_fd_invalidator_running := True\<rparr>) w3 = Some ?w4"
        using fs by (simp add: write_file_def)
      have fr4: "reader_frame ps w ?w4"
        using reader_frame_trans [OF fr3 reader_frame_write [OF ok3 p wr4]] by simp
      have fr5: "reader_frame ps w (?w4\<lparr>fd_invalidators := p # fd_invalidators w3\<rparr>)"
        using ok3 p by (intro reader_frame_invalidators [OF fr4]) (simp add: files_ok_def)
      have "st = CCASK_OK \<and> (w' = ?w2 \<or> w' = w3 \<or> w' = ?w4\<lparr>fd_invalidators := p # fd_invalidators w3\<rparr>)"
        using run f closed w1 False w3 wr4 same
        by (auto simp: reader_open_file_def write_file_Some Let_def split: if_splits)
      then show ?thesis using fr2 fr3 fr5 fs False by auto
    qed
  qed
  then show "reader_frame ps w w'"
    and "st = CCASK_OK \<Longrightarrow> \<exists>f. file_heap w' p = Some f \<and> 0 \<le> cf_fd f"
    and "fault_script w = [] \<Longrightarrow> st = CCASK_OK"
    by blast+
qed


text \<open>
  Whatever the environment does, a read that returns CCASK_OK returns the bytes of the file at that
  position, cut into the buffers, and no file changes.  A read of a record that is there succeeds
  when there are no faults.
\<close>

lemma ccask_read_datafile_record_result:
  assumes ok: "files_ok w ps" and p: "p \<in> set ps" and id: "id_of (file_heap w) p = i"
    and run: "ccask_read_datafile_record i r pos w = Some ((st, r'), w')"
  shows "reader_frame ps w w'"
    and "st = CCASK_OK \<Longrightarrow> 0 < iov_len (rec_value r)
      \<and> unat pos + sum_list (map iov_len (datafile_record_iov r)) \<le> length (data_bytes w i)
      \<and> r' = record_with (chop (map iov_len (datafile_record_iov r)) (drop (unat pos) (data_bytes w i))) r"
    and "fault_script w = [] \<Longrightarrow> 0 < iov_len (rec_value r) \<Longrightarrow>
      unat pos + sum_list (map iov_len (datafile_record_iov r)) \<le> length (data_bytes w i) \<Longrightarrow> st = CCASK_OK"
proof -
  let ?lens = "map iov_len (datafile_record_iov r)"
  have rep: "files_rep w ps" using ok by (simp add: files_ok_def)
  have get: "ccask_files_get_file i w = Some p"
    using ccask_files_get_file_iff [OF rep] p id by blast
  obtain ret w1 where w1: "reader_open_file p w = Some (ret, w1)"
    using run get by (auto simp: ccask_read_datafile_record_def bind_eq_Some_conv)
  note op = reader_open_file_result [OF ok p w1]
  have fr1: "reader_frame ps w w1" by (rule op(1))
  then have ok1: "files_ok w1 ps" and g1: "grows {} {} w w1" and d1: "data_dir w1 = data_dir w"
    and id1: "id_of (file_heap w1) p = i"
    using p id by (simp_all add: reader_frame_def)
  have last: "last ?lens = iov_len (rec_value r)" "?lens \<noteq> []" by (simp_all add: datafile_record_iov_def)
  have "reader_frame ps w w' \<and> (st = CCASK_OK \<longrightarrow> 0 < iov_len (rec_value r)
      \<and> unat pos + sum_list ?lens \<le> length (data_bytes w i)
      \<and> r' = record_with (chop ?lens (drop (unat pos) (data_bytes w i))) r)
    \<and> (fault_script w = [] \<longrightarrow> 0 < iov_len (rec_value r) \<longrightarrow>
      unat pos + sum_list ?lens \<le> length (data_bytes w i) \<longrightarrow> st = CCASK_OK)"
  proof (cases "ret = CCASK_OK")
    case False
    then have "w' = w1" "st = ret" using run get w1 by (auto simp: ccask_read_datafile_record_def)
    with fr1 op(3) False show ?thesis by auto
  next
    case True
    obtain f where f: "file_heap w1 p = Some f" "0 \<le> cf_fd f" using op(2) [OF True] by blast
    have idf: "cf_id f = i" using id1 f by simp
    have bytes1: "data_bytes w1 i = data_bytes w i" using data_bytes_grows [OF g1 d1] .
    have rd: "reads_from (cf_fd f) (data_bytes w i) w1"
      using files_ok_reads [OF ok1 p f] idf bytes1 by simp
    then obtain d where d: "open_fds w1 (cf_fd f) = Some d" "inode_data w1 (fd_inode d) = data_bytes w i"
      by (auto simp: reads_from_def)
    obtain n bufs w2 where w2: "safe_preadv (cf_fd f) ?lens (unat pos) w1 = ((n, bufs), w2)"
      by (metis surj_pair)
    note pf = safe_preadv_frame [OF w2]
    have n: "n = CCASK_OK \<longleftrightarrow> \<not> status_code n < 0" using pf by (cases n) auto
    let ?w3 = "if status_code n < 0 then set_errno CCASK_ERR_READ_FAILED w2 else w2"
    have io3: "io_frame w1 ?w3" using pf io_frame_trans [OF _ io_frame_set_errno] by auto
    have fr3: "reader_frame ps w ?w3" using reader_frame_trans [OF fr1 reader_frame_io [OF ok1 io3]] .
    have heap3: "file_heap ?w3 = file_heap w1" using io_frame_more [OF io3] same_files_fields by blast
    have st: "st = (if status_code n < 0 then CCASK_FAIL else CCASK_OK)" "r' = record_with bufs r"
      and wr: "write_file p (\<lambda>f. f\<lparr>cf_last_accessed := clock ?w3\<rparr>) ?w3 = Some w'"
      using run get w1 True f w2
      by (auto simp: ccask_read_datafile_record_def bind_eq_Some_conv split: if_splits)
    have ok3: "files_ok ?w3 ps" using fr3 by (simp add: reader_frame_def)
    have "reader_frame ps w w'"
      using reader_frame_trans [OF fr3 reader_frame_write [OF ok3 p wr]] by simp
    moreover have "0 < iov_len (rec_value r) \<and> unat pos + sum_list ?lens \<le> length (data_bytes w i)
      \<and> r' = record_with (chop ?lens (drop (unat pos) (data_bytes w i))) r" if "st = CCASK_OK"
    proof -
      have "n = CCASK_OK" using that st(1) n by (auto split: if_splits)
      with w2 have "safe_preadv (cf_fd f) ?lens (unat pos) w1 = ((CCASK_OK, bufs), w2)" by simp
      from safe_preadv_ok [OF this] d
      have "0 < last ?lens" "unat pos + sum_list ?lens \<le> length (data_bytes w i)"
        "bufs = chop ?lens (take (sum_list ?lens) (drop (unat pos) (data_bytes w i)))"
        by force+
      then show ?thesis using last st(2) by (simp add: chop_take)
    qed
    moreover have "st = CCASK_OK" if "fault_script w = []" "0 < iov_len (rec_value r)"
      "unat pos + sum_list ?lens \<le> length (data_bytes w i)"
    proof -
      have "fault_script w1 = []" using grows_no_fault [OF g1 that(1)] .
      then have "n = CCASK_OK"
        using safe_preadv_no_fault [of w1 "cf_fd f" d ?lens "unat pos"] d f(2) last that w2 by simp
      then show ?thesis using st(1) by simp
    qed
    ultimately show ?thesis by blast
  qed
  then show "reader_frame ps w w'"
    and "st = CCASK_OK \<Longrightarrow> 0 < iov_len (rec_value r)
      \<and> unat pos + sum_list ?lens \<le> length (data_bytes w i)
      \<and> r' = record_with (chop ?lens (drop (unat pos) (data_bytes w i))) r"
    and "fault_script w = [] \<Longrightarrow> 0 < iov_len (rec_value r) \<Longrightarrow>
      unat pos + sum_list ?lens \<le> length (data_bytes w i) \<Longrightarrow> st = CCASK_OK"
    by blast+
qed

text \<open>A read always returns.\<close>

lemma ccask_read_datafile_record_returns:
  assumes ok: "files_ok w ps"
  shows "\<exists>x. ccask_read_datafile_record i r pos w = Some x"
proof (cases "ccask_files_get_file i w")
  case None
  then show ?thesis by (simp add: ccask_read_datafile_record_def)
next
  case (Some p)
  have inv: "posix_inv w" and rep: "files_rep w ps" using ok by (simp_all add: files_ok_def)
  have p: "p \<in> set ps" using Some ccask_files_get_file_iff [OF rep] by blast
  then obtain f where f: "file_heap w p = Some f" using files_rep_allocated [OF rep] by blast
  have "\<exists>x. reader_open_file p w = Some x"
  proof -
    obtain fd w1 where w1: "attempt_fd (ccask_files_get_datafile_fd (cf_id f)) w = (fd, w1)" by fastforce
    have h1: "file_heap w1 = file_heap w"
      using attempt_open_result(3) [OF w1 [unfolded ccask_files_get_datafile_fd_def] inv] same_files_fields
      by blast
    obtain res w3 where w3: "attempt_pthread_create (w1\<lparr>file_heap := (file_heap w)(p \<mapsto> f\<lparr>cf_fd := fd\<rparr>)\<rparr>) = (res, w3)"
      by fastforce
    then obtain fs where "w3 = w1\<lparr>file_heap := (file_heap w)(p \<mapsto> f\<lparr>cf_fd := fd\<rparr>), fault_script := fs\<rparr>"
      using attempt_pthread_create_frame by fastforce
    then show ?thesis
      using f w1 h1 w3 by (simp add: reader_open_file_def write_file_def)
  qed
  then obtain ret w1 where w1: "reader_open_file p w = Some (ret, w1)" by auto
  then have ok1: "files_ok w1 ps" using reader_open_file_result(1) [OF ok p w1] by (simp add: reader_frame_def)
  then obtain f1 where f1: "file_heap w1 p = Some f1"
    using p files_rep_allocated by (force simp: files_ok_def)
  obtain n bufs w2 where w2: "safe_preadv (cf_fd f1) (map iov_len (datafile_record_iov r)) (unat pos) w1
      = ((n, bufs), w2)" by (metis surj_pair)
  have "file_heap w2 = file_heap w1"
    using safe_preadv_frame [OF w2] io_frame_more same_files_fields by blast
  then show ?thesis
    using Some w1 f1 w2 by (simp add: ccask_read_datafile_record_def write_file_def set_errno_def)
qed

text \<open>The invalidator round closes an idle file and changes no data.\<close>

lemma nodes_ok_close:
  assumes ok: "nodes_ok dir w (as @ f # bs)" and inv: "posix_inv w" and gr: "grows {} {cf_fd f} w w'"
    and g: "cf_id g = cf_id f" "\<not> cf_is_active g" "cf_fd g = -1" and old: "\<not> cf_is_active f" "0 \<le> cf_fd f"
  shows "nodes_ok dir w' (as @ g # bs)"
proof -
  obtain a as' where as: "as = a # as'" using ok old by (cases as) (auto simp: nodes_ok_def)
  have dist: "distinct (held_fds as @ held_fds [f] @ held_fds bs)"
    using ok as held_fds_append [of as "[f] @ bs"] held_fds_append [of "[f]" bs]
    by (simp add: nodes_ok_def)
  have other: "cf_fd h \<noteq> cf_fd f" if "h \<in> set as \<union> set bs" for h
  proof
    assume eq: "cf_fd h = cf_fd f"
    then have "cf_fd f \<in> set (held_fds as) \<union> set (held_fds bs)"
      using that old(2) by (auto simp: in_held_fds)
    moreover have "cf_fd f \<in> set (held_fds [f])" using old(2) by (simp add: in_held_fds)
    ultimately show False using dist by auto
  qed
  have keep: "node_ok dir w' h" if "h \<in> set as \<union> set bs" for h
    using ok as that other [OF that] node_ok_grows [OF _ gr inv] by (auto simp: nodes_ok_def)
  have "node_ok dir w f" using ok as by (simp add: nodes_ok_def)
  then have "node_ok dir w' g" using g grows_lookup [OF gr] by (auto simp: node_ok_def)
  moreover have "distinct (held_fds (as @ g # bs))"
  proof -
    have "held_fds (as @ g # bs) = held_fds as @ held_fds bs" using g(3) by (simp add: held_fds_def)
    with dist show ?thesis by auto
  qed
  moreover have "\<exists>d. open_fds w' (cf_fd a) = Some d \<and> fd_writable d"
    using ok as other [of a] grows_fds [OF gr inv] by (fastforce simp: nodes_ok_def)
  moreover have "map_of (dir_entries w') q = map_of (dir_entries w) q" for q
    using gr by (simp add: grows_def)
  ultimately show ?thesis using ok as keep g(2) by (auto simp: nodes_ok_def)
qed

lemma datafile_fd_invalidator_round_result:
  assumes ok: "files_ok w ps" and p: "p \<in> set ps" and run: "datafile_fd_invalidator_round p w = Some (b, w')"
  shows "files_ok w' ps" and "\<And>i. data_bytes w' i = data_bytes w i"
    and "files_state.more w' = files_state.more w" and "data_dir w' = data_dir w"
    and "max_active_file_size w' = max_active_file_size w"
    and "\<And>q. q \<in> set ps \<Longrightarrow> id_of (file_heap w') q = id_of (file_heap w) q"
    and "\<exists>F. grows {} F w w'" and "files_head w' = files_head w" and "hint_pending w' = hint_pending w"
    and "has_hint_of (file_heap w') = has_hint_of (file_heap w)"
proof -
  have inv: "posix_inv w" and rep: "files_rep w ps"
    and nodes: "nodes_ok (data_dir w) w (file_nodes (file_heap w) ps)"
    and threads: "set (hint_pending w) \<union> set (fd_invalidators w) \<subseteq> set ps"
    using ok by (simp_all add: files_ok_def)
  obtain f where f: "file_heap w p = Some f" using files_rep_allocated [OF rep p] by blast
  have "files_ok w' ps \<and> (\<forall>i. data_bytes w' i = data_bytes w i)
    \<and> files_state.more w' = files_state.more w \<and> data_dir w' = data_dir w
    \<and> max_active_file_size w' = max_active_file_size w
    \<and> (\<forall>q \<in> set ps. id_of (file_heap w') q = id_of (file_heap w) q)
    \<and> (\<exists>F. grows {} F w w') \<and> files_head w' = files_head w \<and> hint_pending w' = hint_pending w
    \<and> has_hint_of (file_heap w') = has_hint_of (file_heap w)"
  proof (cases "\<not> cf_is_active f \<and> 0 \<le> cf_fd f \<and> cf_last_accessed f + FD_INVALIDATE_DURATION \<le> clock w")
    case False
    then have "w' = w" using run f by (auto simp: datafile_fd_invalidator_round_def split: if_splits)
    with ok show ?thesis by simp
  next
    case True
    let ?g = "f\<lparr>cf_fd := -1, cf_is_fd_invalidator_running := False\<rparr>"
    let ?c = "sys_close (cf_fd f) w"
    have w': "w' = ?c\<lparr>file_heap := (file_heap w)(p \<mapsto> ?g), fd_invalidators := remove1 p (fd_invalidators w)\<rparr>"
      using run f True
      by (auto simp: datafile_fd_invalidator_round_def write_file_def sys_close_def split: if_splits)
    have "grows {} {cf_fd f} ?c w'" unfolding w' by (intro grows_same) simp_all
    then have gr: "grows {} {cf_fd f} w w'" using grows_close grows_trans_same by blast
    have "posix_inv ?c" using inv by (rule posix_inv_close)
    then have inv': "posix_inv w'" unfolding w' by (simp add: posix_inv_def)
    have fields: "files_head w' = files_head w" "files_tail w' = files_tail w" "file_table w' = file_table w"
      "next_file_ptr w' = next_file_ptr w" "data_dir w' = data_dir w"
      "file_heap w' = (file_heap w)(p \<mapsto> ?g)" "files_state.more w' = files_state.more w"
      "max_active_file_size w' = max_active_file_size w"
      unfolding w' by (simp_all add: sys_close_def)
    have links: "\<exists>g. file_heap w' q = Some g \<and> cf_id g = cf_id h \<and> cf_next g = cf_next h
        \<and> cf_previous g = cf_previous h" if "q \<in> set ps" "file_heap w q = Some h" for q h
      using that f fields(6) by (cases "q = p") auto
    have alloc: "q < next_file_ptr w'" if "file_heap w' q \<noteq> None" for q
      using that rep f fields(4,6) by (cases "q = p") (auto simp: files_rep_def)
    have rc: "files_rep w' ps" "\<forall>q \<in> set ps. id_of (file_heap w') q = id_of (file_heap w) q"
      using files_rep_cong [OF rep fields(1-3) links alloc] by blast+
    obtain as bs where ps: "ps = as @ p # bs" using p by (auto simp: in_set_conv_decomp)
    have dist: "distinct ps" using rep by (rule files_rep_distinct)
    have eq: "file_nodes (file_heap w) ps = file_nodes (file_heap w) as @ unlinked f # file_nodes (file_heap w) bs"
      using f ps by (simp add: file_nodes_def)
    have "nodes_ok (data_dir w) w (file_nodes (file_heap w) as @ unlinked f # file_nodes (file_heap w) bs)"
      using nodes unfolding eq .
    note n = nodes_ok_close [OF this inv, where w' = w' and g = "unlinked ?g"]
    have n: "nodes_ok (data_dir w) w'
        (file_nodes (file_heap w) as @ unlinked ?g # file_nodes (file_heap w) bs)"
      by (rule n) (use gr True in \<open>simp_all\<close>)
    have "nodes_ok (data_dir w') w' (file_nodes (file_heap w') ps)"
    proof -
      have "file_nodes (file_heap w') ps
          = file_nodes (file_heap w) as @ unlinked ?g # file_nodes (file_heap w) bs"
        using dist unfolding ps fields(6) by (rule file_nodes_replace)
      with n show ?thesis by (simp only: fields(5))
    qed
    moreover have "set (hint_pending w') \<union> set (fd_invalidators w') \<subseteq> set ps"
      using threads set_remove1_subset [of p "fd_invalidators w"] unfolding w' by (auto simp: sys_close_def)
    ultimately have "files_ok w' ps" using rc(1) inv' by (simp only: files_ok_def)
    moreover have "hint_pending w' = hint_pending w" unfolding w' by (simp add: sys_close_def)
    moreover have "has_hint_of (file_heap w') = has_hint_of (file_heap w)"
      using has_hint_of_same [of "file_heap w" p f ?g] f by (simp only: fields(6)) simp
    ultimately show ?thesis using rc(2) data_bytes_grows [OF gr fields(5)] fields(1,5,7,8) gr by blast
  qed
  then show "files_ok w' ps" and "\<And>i. data_bytes w' i = data_bytes w i"
    and "files_state.more w' = files_state.more w" and "data_dir w' = data_dir w"
    and "max_active_file_size w' = max_active_file_size w"
    and "\<And>q. q \<in> set ps \<Longrightarrow> id_of (file_heap w') q = id_of (file_heap w) q"
    and "\<exists>F. grows {} F w w'" and "files_head w' = files_head w" and "hint_pending w' = hint_pending w"
    and "has_hint_of (file_heap w') = has_hint_of (file_heap w)"
    by blast+
qed

section \<open>Properties\<close>

text \<open>
  C20: a read of a record returns, whatever fails, and keeps the datafiles as they are; when it
  reports success the three buffers hold exactly the bytes at the position, and without faults it
  succeeds whenever they are there and the last buffer is not empty.
\<close>

theorem read_record_exact:
  assumes "files_ok w ps" and "p \<in> set ps" and "id_of (file_heap w) p = i"
  shows "\<exists>st r' w'. ccask_read_datafile_record i r pos w = Some ((st, r'), w')
    \<and> files_ok w' ps \<and> (\<forall>j. data_bytes w' j = data_bytes w j)
    \<and> (st = CCASK_OK \<longrightarrow>
         unat pos + sum_list (map iov_len (datafile_record_iov r)) \<le> length (data_bytes w i)
         \<and> r' = record_with (chop (map iov_len (datafile_record_iov r)) (drop (unat pos) (data_bytes w i))) r)
    \<and> (fault_script w = [] \<longrightarrow> 0 < iov_len (rec_value r) \<longrightarrow>
         unat pos + sum_list (map iov_len (datafile_record_iov r)) \<le> length (data_bytes w i) \<longrightarrow> st = CCASK_OK)"
proof -
  obtain st r' w' where run: "ccask_read_datafile_record i r pos w = Some ((st, r'), w')"
    using ccask_read_datafile_record_returns [OF assms(1), of i r pos] by auto
  note res = ccask_read_datafile_record_result [OF assms run]
  have "files_ok w' ps" "data_bytes w' j = data_bytes w j" for j
    using res(1) data_bytes_grows by (auto simp: reader_frame_def)
  with run res(2,3) show ?thesis by (intro exI [of _ st] exI [of _ r'] exI [of _ w']) simp
qed

theorem read_record_exact_witness:
  "\<exists>r' w'. ccask_read_datafile_record 0
      \<lparr>rec_header = empty_iov 16, rec_key = empty_iov 2, rec_value = empty_iov 1\<rparr> 0
      (demo_files (encode_entry small_entry) ()) = Some ((CCASK_OK, r'), w')
    \<and> iov_base (rec_key r') = [1, 2]"
proof -
  let ?r = "\<lparr>rec_header = empty_iov 16, rec_key = empty_iov 2, rec_value = empty_iov 1\<rparr>"
  let ?w = "demo_files (encode_entry small_entry) ()"
  have len: "length (encode_entry small_entry) = 19" by (simp add: encode_entry_def small_entry_def)
  have id: "id_of (file_heap ?w) 0 = 0" by simp
  have p: "0 \<in> set [0 :: nat]" by simp
  have sum: "sum_list (map iov_len (datafile_record_iov ?r)) = 19" by (simp add: datafile_record_iov_def empty_iov_def)
  obtain st r' w' where run: "ccask_read_datafile_record 0 ?r 0 ?w = Some ((st, r'), w')"
    and ok: "st = CCASK_OK" and r': "r' = record_with (chop (map iov_len (datafile_record_iov ?r)) (data_bytes ?w 0)) ?r"
    using read_record_exact [OF demo_files_ok p id, of ?r 0] sum len
    by (auto simp: demo_data_bytes empty_iov_def)
  have "iov_base (rec_key r') = [1, 2]"
    by (simp add: r' demo_data_bytes datafile_record_iov_def empty_iov_def record_with_def encode_entry_def
        small_entry_def)
  with run ok show ?thesis by blast
qed



end
