(* ===== verification/Ringbuf.thy ===== *)
theory Ringbuf
  imports Records
begin

text \<open>
  src/writer_ringbuf.c: the bounded queue between the threads that put records and the writer
  thread.  Each operation runs under the mutex and is one step; what an operation does when it has
  to wait (the mutex is held, or the queue is empty and not shut down) or when it is undefined (a
  capacity of 0) is not to return: \<open>None\<close>.  The locale \<open>bounded_queue\<close> is the contract of the queue
  and is interpreted on the buffer.
\<close>

section \<open>State and operations\<close>

text \<open>
  \<open>rb_locked\<close>: the mutex is held although no operation is running.  \<open>calloc\<close> gives slots with NULL
  pointers and zero lengths.
\<close>

record ringbuf =
  rb_buf :: "datafile_record list"
  rb_capacity :: u64
  rb_head :: u64
  rb_tail :: u64
  rb_shutdown :: bool
  rb_locked :: bool

definition null_record :: datafile_record where
  "null_record = \<lparr>rec_header = empty_iov 0, rec_key = empty_iov 0, rec_value = empty_iov 0\<rparr>"

text \<open>\<open>sizeof(ccask_datafile_record_t)\<close>, three \<open>struct iovec\<close> of 16 bytes.\<close>

definition RECORD_SLOT_SIZE :: nat where
  "RECORD_SLOT_SIZE = 48"

definition ccask_writer_ringbuf_init ::
  "u64 \<Rightarrow> 'a posix_scheme \<Rightarrow> (ccask_status \<times> ringbuf option) \<times> 'a posix_scheme" where
  "ccask_writer_ringbuf_init cap w =
     (let (ok, w1) = sys_malloc w in
      if \<not> ok then ((CCASK_FAIL, None), set_errno CCASK_ERR_NO_MEMORY w1)
      else let (ok, w2) = sys_malloc w1 in
           if \<not> ok \<or> 2 ^ 64 \<le> unat cap * RECORD_SLOT_SIZE
           then ((CCASK_FAIL, None), set_errno CCASK_ERR_NO_MEMORY w2)
           else ((CCASK_OK, Some \<lparr>rb_buf = replicate (unat cap) null_record, rb_capacity = cap,
                   rb_head = 0, rb_tail = 0, rb_shutdown = False, rb_locked = False\<rparr>), w2))"

definition ccask_writer_ringbuf_count :: "ringbuf \<Rightarrow> u64 option" where
  "ccask_writer_ringbuf_count rb =
     (if rb_locked rb then None
      else Some (if rb_tail rb \<le> rb_head rb then rb_head rb - rb_tail rb
                 else rb_capacity rb - (rb_tail rb - rb_head rb)))"

definition ccask_writer_ringbuf_start_shutdown :: "ringbuf \<Rightarrow> ringbuf option" where
  "ccask_writer_ringbuf_start_shutdown rb =
     (if rb_locked rb then None else Some (rb\<lparr>rb_shutdown := True\<rparr>))"

text \<open>
  A push that cannot allocate its record returns without unlocking the mutex; the slot at the head
  has been overwritten.
\<close>

definition ccask_writer_ringbuf_push ::
  "crc_fun \<Rightarrow> u32 \<Rightarrow> byte list \<Rightarrow> u32 \<Rightarrow> byte list option \<Rightarrow> u32 \<Rightarrow> ringbuf \<Rightarrow> 'a posix_scheme
     \<Rightarrow> (ccask_status \<times> ringbuf \<times> 'a posix_scheme) option" where
  "ccask_writer_ringbuf_push crc32 ts key ksize val vsize rb w =
     (if rb_locked rb \<or> rb_capacity rb = 0 then None
      else let nxt = (rb_head rb + 1) mod rb_capacity rb in
        if nxt = rb_tail rb then Some (CCASK_RETRY, rb, set_errno CCASK_ERR_RINGBUFFER_FULL w)
        else do {
          ((res, r), w1) \<leftarrow> ccask_create_datafile_record crc32 ts key ksize val vsize w;
          let rb1 = rb\<lparr>rb_buf := (rb_buf rb)[unat (rb_head rb) := r]\<rparr>;
          if res \<noteq> CCASK_OK then Some (CCASK_FAIL, rb1\<lparr>rb_locked := True\<rparr>, w1)
          else Some (CCASK_OK, rb1\<lparr>rb_head := nxt\<rparr>, w1) })"

text \<open>The slot keeps its shallow copy of the record that a pop returns.\<close>

definition ccask_writer_ringbuf_pop ::
  "ringbuf \<Rightarrow> (ccask_status \<times> datafile_record option \<times> ringbuf) option" where
  "ccask_writer_ringbuf_pop rb =
     (if rb_locked rb then None
      else if rb_tail rb = rb_head rb
      then (if rb_shutdown rb then Some (CCASK_FAIL, None, rb) else None)
      else if rb_capacity rb = 0 then None
      else Some (CCASK_OK, Some (rb_buf rb ! unat (rb_tail rb)),
                 rb\<lparr>rb_tail := (rb_tail rb + 1) mod rb_capacity rb\<rparr>))"


section \<open>A bounded queue\<close>

text \<open>
  The contract: the queue holds a list, entering appends to it unless it is full, leaving takes its
  first element.
\<close>

locale bounded_queue =
  fixes contents :: "'q \<Rightarrow> 'e list" and bound :: "'q \<Rightarrow> nat" and inv :: "'q \<Rightarrow> bool"
    and enq :: "'e \<Rightarrow> 'q \<Rightarrow> 'q option" and deq :: "'q \<Rightarrow> ('e \<times> 'q) option"
  assumes bounded: "inv q \<Longrightarrow> length (contents q) \<le> bound q"
    and enq_full: "inv q \<Longrightarrow> enq x q = None \<longleftrightarrow> length (contents q) = bound q"
    and enq_some: "inv q \<Longrightarrow> enq x q = Some q' \<Longrightarrow>
      inv q' \<and> contents q' = contents q @ [x] \<and> bound q' = bound q"
    and deq_none: "inv q \<Longrightarrow> deq q = None \<longleftrightarrow> contents q = []"
    and deq_some: "inv q \<Longrightarrow> deq q = Some (x, q') \<Longrightarrow>
      inv q' \<and> contents q = x # contents q' \<and> bound q' = bound q"
begin

text \<open>
  Any interleaving of entering (\<open>Some x\<close>) and leaving (\<open>None\<close>); a call that the queue refuses has no
  effect.  The result is the elements that entered and those that left, in order.
\<close>

fun schedule :: "'e option list \<Rightarrow> 'q \<Rightarrow> 'e list \<times> 'e list \<times> 'q" where
  "schedule [] q = ([], [], q)"
| "schedule (Some x # ops) q = (case enq x q of
      None \<Rightarrow> schedule ops q
    | Some q' \<Rightarrow> (let (ins, outs, r) = schedule ops q' in (x # ins, outs, r)))"
| "schedule (None # ops) q = (case deq q of
      None \<Rightarrow> schedule ops q
    | Some (x, q') \<Rightarrow> (let (ins, outs, r) = schedule ops q' in (ins, x # outs, r)))"

text \<open>What left, followed by what is still there, is what was there followed by what entered.\<close>

lemma schedule_fifo:
  assumes "schedule ops q = (ins, outs, q')" and "inv q"
  shows "contents q @ ins = outs @ contents q' \<and> inv q' \<and> bound q' = bound q"
  using assms
proof (induction ops q arbitrary: ins outs rule: schedule.induct)
  case (2 x ops q)
  then show ?case
    using enq_some [of q x] by (auto split: option.splits prod.splits)
next
  case (3 ops q)
  then show ?case
    using deq_some [of q] by (auto split: option.splits prod.splits)
qed simp

end


section \<open>The buffer implements the queue\<close>

definition ring_inv :: "ringbuf \<Rightarrow> bool" where
  "ring_inv rb \<longleftrightarrow> rb_head rb < rb_capacity rb \<and> rb_tail rb < rb_capacity rb
     \<and> length (rb_buf rb) = unat (rb_capacity rb)"

definition ring_count :: "ringbuf \<Rightarrow> nat" where
  "ring_count rb = (unat (rb_head rb) + unat (rb_capacity rb) - unat (rb_tail rb)) mod unat (rb_capacity rb)"

definition ring_contents :: "ringbuf \<Rightarrow> datafile_record list" where
  "ring_contents rb = map (\<lambda>i. rb_buf rb ! ((unat (rb_tail rb) + i) mod unat (rb_capacity rb))) [0..<ring_count rb]"

definition ring_bound :: "ringbuf \<Rightarrow> nat" where
  "ring_bound rb = unat (rb_capacity rb) - 1"

definition ring_enq :: "datafile_record \<Rightarrow> ringbuf \<Rightarrow> ringbuf option" where
  "ring_enq r rb = (let nxt = (rb_head rb + 1) mod rb_capacity rb in
     if nxt = rb_tail rb then None
     else Some (rb\<lparr>rb_buf := (rb_buf rb)[unat (rb_head rb) := r], rb_head := nxt\<rparr>))"

definition ring_deq :: "ringbuf \<Rightarrow> (datafile_record \<times> ringbuf) option" where
  "ring_deq rb = (if rb_tail rb = rb_head rb then None
     else Some (rb_buf rb ! unat (rb_tail rb), rb\<lparr>rb_tail := (rb_tail rb + 1) mod rb_capacity rb\<rparr>))"

text \<open>Indices as natural numbers.\<close>

lemma unat_succ_mod:
  assumes "(x :: u64) < c"
  shows "unat ((x + 1) mod c) = Suc (unat x) mod unat c"
proof -
  have "unat x < unat c" using assms by (simp add: word_less_nat_alt)
  moreover have "unat c < 2 ^ 64" using unsigned_less [of c, where ?'a = nat] by simp
  ultimately have "unat (x + 1) = Suc (unat x)" by (simp add: unat_word_ariths)
  then show ?thesis by (simp add: unat_mod)
qed

lemma succ_mod_cases: "h < c \<Longrightarrow> Suc h mod c = (if Suc h = c then 0 else Suc h)" for h c :: nat
  by auto

lemma ring_dist_cases:
  fixes h t c :: nat
  assumes "h < c" and "t < c"
  shows "(h + c - t) mod c = (if t \<le> h then h - t else h + c - t)"
proof (cases "t \<le> h")
  case True
  then have "h + c - t = (h - t) + c" by simp
  then have "(h + c - t) mod c = (h - t) mod c" by simp
  with True assms show ?thesis by simp
qed (use assms in simp)

lemma add_mod_cases: "t < c \<Longrightarrow> i < c \<Longrightarrow> (t + i) mod c = (if t + i < c then t + i else t + i - c)" for t i c :: nat
  by (simp add: mod_if)

lemma ring_inv_unat:
  assumes "ring_inv rb"
  shows "unat (rb_head rb) < unat (rb_capacity rb)" "unat (rb_tail rb) < unat (rb_capacity rb)"
    "length (rb_buf rb) = unat (rb_capacity rb)"
  using assms by (auto simp: ring_inv_def word_less_nat_alt)

lemma succ_mod_less: "(x :: u64) < c \<Longrightarrow> (x + 1) mod c < c"
  by (metis gr_zeroI mod_less_divisor not_less_zero unat_succ_mod word_less_nat_alt unat_gt_0)

lemma ring_enq_None:
  assumes "ring_inv rb"
  shows "ring_enq r rb = None \<longleftrightarrow> length (ring_contents rb) = ring_bound rb"
proof -
  note u = ring_inv_unat [OF assms]
  have "(rb_head rb + 1) mod rb_capacity rb = rb_tail rb
    \<longleftrightarrow> Suc (unat (rb_head rb)) mod unat (rb_capacity rb) = unat (rb_tail rb)"
    using assms unat_succ_mod [of "rb_head rb" "rb_capacity rb"] by (metis ring_inv_def word_unat_eq_iff)
  then show ?thesis
    using u by (auto simp: ring_enq_def ring_contents_def ring_bound_def ring_count_def Let_def
        ring_dist_cases succ_mod_cases split: if_splits)
qed

lemma ring_enq_Some:
  assumes inv: "ring_inv rb" and enq: "ring_enq r rb = Some rb'"
  shows "ring_inv rb'" and "ring_contents rb' = ring_contents rb @ [r]" and "ring_bound rb' = ring_bound rb"
proof -
  note u = ring_inv_unat [OF inv]
  let ?c = "unat (rb_capacity rb)" and ?t = "unat (rb_tail rb)" and ?h = "unat (rb_head rb)"
  have rb': "rb' = rb\<lparr>rb_buf := (rb_buf rb)[?h := r], rb_head := (rb_head rb + 1) mod rb_capacity rb\<rparr>"
    and ne: "(rb_head rb + 1) mod rb_capacity rb \<noteq> rb_tail rb"
    using enq by (auto simp: ring_enq_def Let_def split: if_splits)
  have lt: "rb_head rb < rb_capacity rb" using inv by (simp add: ring_inv_def)
  have h': "unat (rb_head rb') = Suc ?h mod ?c" using unat_succ_mod [OF lt] rb' by simp
  have ne': "Suc ?h mod ?c \<noteq> ?t" using ne unat_succ_mod [OF lt] by (metis word_unat_eq_iff)
  show "ring_inv rb'" using inv succ_mod_less [OF lt] by (simp add: rb' ring_inv_def)
  show "ring_bound rb' = ring_bound rb" by (simp add: rb' ring_bound_def)
  have same: "rb_capacity rb' = rb_capacity rb" "rb_tail rb' = rb_tail rb" by (simp_all add: rb')
  have cnt: "ring_count rb' = Suc (ring_count rb)"
    using u ne' unfolding ring_count_def h' same by (auto simp: ring_dist_cases succ_mod_cases split: if_splits)
  have last: "(?t + ring_count rb) mod ?c = ?h"
    using u by (auto simp: ring_count_def ring_dist_cases add_mod_cases)
  have old: "rb_buf rb' ! ((?t + i) mod ?c) = rb_buf rb ! ((?t + i) mod ?c)" if "i < ring_count rb" for i
  proof -
    have "(?t + i) mod ?c \<noteq> ?h"
      using u that by (auto simp: ring_count_def ring_dist_cases add_mod_cases split: if_splits)
    then show ?thesis by (simp add: rb')
  qed
  have new: "rb_buf rb' ! ?h = r" using u by (simp add: rb')
  show "ring_contents rb' = ring_contents rb @ [r]"
    using old new last unfolding ring_contents_def cnt same by simp
qed

lemma ring_deq_None: "ring_inv rb \<Longrightarrow> ring_deq rb = None \<longleftrightarrow> ring_contents rb = []"
  using ring_inv_unat [of rb]
  by (auto simp: ring_deq_def ring_contents_def ring_count_def ring_dist_cases word_unat_eq_iff)

lemma ring_deq_Some:
  assumes inv: "ring_inv rb" and deq: "ring_deq rb = Some (r, rb')"
  shows "ring_inv rb'" and "ring_contents rb = r # ring_contents rb'" and "ring_bound rb' = ring_bound rb"
proof -
  note u = ring_inv_unat [OF inv]
  let ?c = "unat (rb_capacity rb)" and ?t = "unat (rb_tail rb)" and ?h = "unat (rb_head rb)"
  have rb': "rb' = rb\<lparr>rb_tail := (rb_tail rb + 1) mod rb_capacity rb\<rparr>" and r: "r = rb_buf rb ! ?t"
    and ne: "rb_tail rb \<noteq> rb_head rb"
    using deq by (auto simp: ring_deq_def split: if_splits)
  have lt: "rb_tail rb < rb_capacity rb" using inv by (simp add: ring_inv_def)
  have t': "unat (rb_tail rb') = Suc ?t mod ?c" using unat_succ_mod [OF lt] rb' by simp
  have ne': "?t \<noteq> ?h" using ne by (simp add: word_unat_eq_iff)
  show "ring_inv rb'" using inv succ_mod_less [OF lt] by (simp add: rb' ring_inv_def)
  show "ring_bound rb' = ring_bound rb" by (simp add: rb' ring_bound_def)
  have same: "rb_capacity rb' = rb_capacity rb" "rb_head rb' = rb_head rb" "rb_buf rb' = rb_buf rb"
    by (simp_all add: rb')
  have cnt: "ring_count rb = Suc (ring_count rb')"
    using u ne' unfolding ring_count_def t' same by (auto simp: ring_dist_cases succ_mod_cases split: if_splits)
  have shift: "(Suc ?t mod ?c + i) mod ?c = (?t + Suc i) mod ?c" for i
    by (simp add: mod_add_left_eq)
  have "ring_contents rb = rb_buf rb ! ?t # map (\<lambda>i. rb_buf rb ! ((?t + Suc i) mod ?c)) [0..<ring_count rb']"
    using u unfolding ring_contents_def cnt by (simp add: upt_conv_Cons map_Suc_upt [symmetric] comp_def del: upt_Suc)
  then show "ring_contents rb = r # ring_contents rb'"
    unfolding ring_contents_def t' same shift r by simp
qed

interpretation ring: bounded_queue ring_contents ring_bound ring_inv ring_enq ring_deq
proof unfold_locales
  fix q x q'
  show "ring_inv q \<Longrightarrow> length (ring_contents q) \<le> ring_bound q"
    using ring_inv_unat [of q] by (auto simp: ring_contents_def ring_count_def ring_bound_def ring_dist_cases)
  show "ring_inv q \<Longrightarrow> (ring_enq x q = None) = (length (ring_contents q) = ring_bound q)"
    by (rule ring_enq_None)
  show "ring_inv q \<Longrightarrow> ring_enq x q = Some q' \<Longrightarrow>
      ring_inv q' \<and> ring_contents q' = ring_contents q @ [x] \<and> ring_bound q' = ring_bound q"
    using ring_enq_Some by blast
  show "ring_inv q \<Longrightarrow> (ring_deq q = None) = (ring_contents q = [])"
    by (rule ring_deq_None)
  show "ring_inv q \<Longrightarrow> ring_deq q = Some (x, q') \<Longrightarrow>
      ring_inv q' \<and> ring_contents q = x # ring_contents q' \<and> ring_bound q' = ring_bound q"
    using ring_deq_Some by blast
qed


section \<open>The operations in terms of the queue\<close>

lemma ring_inv_cap: "ring_inv rb \<Longrightarrow> rb_capacity rb \<noteq> 0"
  by (auto simp: ring_inv_def)

lemma ccask_writer_ringbuf_init_result:
  assumes "ccask_writer_ringbuf_init cap w = ((st, rbo), w')"
  shows "io_frame w w'" and "st = CCASK_OK \<or> st = CCASK_FAIL \<and> rbo = None"
    and "st = CCASK_OK \<Longrightarrow> \<exists>rb. rbo = Some rb \<and> rb_capacity rb = cap \<and> \<not> rb_locked rb \<and> \<not> rb_shutdown rb
      \<and> ring_contents rb = [] \<and> (cap \<noteq> 0 \<longrightarrow> ring_inv rb)"
proof -
  obtain b1 w1 b2 w2 where m: "sys_malloc w = (b1, w1)" "sys_malloc w1 = (b2, w2)" by fastforce
  have io: "io_frame w w1" "io_frame w w2"
    using sys_malloc_io [OF m(1)] sys_malloc_io [OF m(2)] io_frame_trans by blast+
  then show "io_frame w w'"
    using assms m by (auto simp: ccask_writer_ringbuf_init_def Let_def split: if_splits intro: io_frame_trans)
  show "st = CCASK_OK \<or> st = CCASK_FAIL \<and> rbo = None"
    using assms by (auto simp: ccask_writer_ringbuf_init_def Let_def split: prod.splits if_splits)
  show "st = CCASK_OK \<Longrightarrow> \<exists>rb. rbo = Some rb \<and> rb_capacity rb = cap \<and> \<not> rb_locked rb \<and> \<not> rb_shutdown rb
      \<and> ring_contents rb = [] \<and> (cap \<noteq> 0 \<longrightarrow> ring_inv rb)"
    using assms by (auto simp: ccask_writer_ringbuf_init_def Let_def ring_contents_def ring_count_def
        ring_inv_def word_gt_0 split: prod.splits if_splits)
qed

lemma ccask_writer_ringbuf_push_cases:
  assumes "ccask_writer_ringbuf_push crc32 ts key ksize val vsize rb w = Some (st, rb', w')"
    and "buffers_ok key ksize val vsize"
  obtains (full) "st = CCASK_RETRY" and "rb' = rb" and "w' = set_errno CCASK_ERR_RINGBUFFER_FULL w"
      and "ring_enq (ent_record (new_entry crc32 ts key ksize val vsize)) rb = None"
  | (failed) "st = CCASK_FAIL" and "rb_locked rb'" and "io_frame w w'" and "fault_script w \<noteq> []"
      and "rb_head rb' = rb_head rb" and "rb_tail rb' = rb_tail rb" and "rb_capacity rb' = rb_capacity rb"
      and "\<exists>r. rb_buf rb' = (rb_buf rb)[unat (rb_head rb) := r]" and "rb_shutdown rb' = rb_shutdown rb"
  | (pushed) "st = CCASK_OK" and "io_frame w w'"
      and "ring_enq (ent_record (new_entry crc32 ts key ksize val vsize)) rb = Some rb'"
proof -
  let ?r = "ent_record (new_entry crc32 ts key ksize val vsize)"
  obtain ok u where m: "sys_mallocs 3 w = (ok, u)" by fastforce
  have io: "io_frame w u" using m by (rule sys_mallocs_io)
  have io': "io_frame w (set_errno e u)" for e using io io_frame_set_errno by (rule io_frame_trans)
  have nf: "fault_script w = [] \<Longrightarrow> ok"
    using m by (auto simp: numeral_3_eq_3 sys_malloc_no_fault)
  show thesis
    using assms(1) that io io' nf m
    by (fastforce simp: ccask_writer_ringbuf_push_def ring_enq_def Let_def bind_eq_Some_conv
        ccask_create_datafile_record_result [OF assms(2)] io_frame_set_errno split: if_splits)
qed

lemma ccask_writer_ringbuf_pop_cases:
  assumes "ccask_writer_ringbuf_pop rb = Some (st, r, rb')"
  obtains (shutdown) "st = CCASK_FAIL" and "r = None" and "rb' = rb" and "rb_shutdown rb" and "ring_deq rb = None"
  | (popped) x where "st = CCASK_OK" and "r = Some x" and "ring_deq rb = Some (x, rb')"
  using assms that
  by (auto simp: ccask_writer_ringbuf_pop_def ring_deq_def split: if_splits)

section \<open>Runs of pushes and pops\<close>

text \<open>
  A sequence of calls, in the order in which they get the mutex; a call that would wait is left out.
  The result: the records whose push returned CCASK_OK, those that were popped, and the final state.
\<close>

datatype ring_op = Push u32 "byte list" u32 "byte list option" u32 | Pop

definition ring_step ::
  "crc_fun \<Rightarrow> ring_op \<Rightarrow> ringbuf \<Rightarrow> 'a posix_scheme
     \<Rightarrow> datafile_record list \<times> datafile_record list \<times> ringbuf \<times> 'a posix_scheme" where
  "ring_step crc32 x rb w = (case x of
      Push ts key ksize val vsize \<Rightarrow>
        (case ccask_writer_ringbuf_push crc32 ts key ksize val vsize rb w of
           None \<Rightarrow> ([], [], rb, w)
         | Some (st, rb', w') \<Rightarrow>
             (if st = CCASK_OK then [ent_record (new_entry crc32 ts key ksize val vsize)] else [], [], rb', w'))
    | Pop \<Rightarrow>
        (case ccask_writer_ringbuf_pop rb of
           None \<Rightarrow> ([], [], rb, w)
         | Some (st, r, rb') \<Rightarrow> ([], (case r of None \<Rightarrow> [] | Some r \<Rightarrow> [r]), rb', w)))"

fun ring_run ::
  "crc_fun \<Rightarrow> ring_op list \<Rightarrow> ringbuf \<Rightarrow> 'a posix_scheme
     \<Rightarrow> datafile_record list \<times> datafile_record list \<times> ringbuf \<times> 'a posix_scheme" where
  "ring_run crc32 [] rb w = ([], [], rb, w)"
| "ring_run crc32 (x # xs) rb w =
     (let (i, out, rb1, w1) = ring_step crc32 x rb w;
          (ins, outs, rb2, w2) = ring_run crc32 xs rb1 w1
      in (i @ ins, out @ outs, rb2, w2))"

fun op_ok :: "ring_op \<Rightarrow> bool" where
  "op_ok (Push ts key ksize val vsize) = buffers_ok key ksize val vsize"
| "op_ok Pop = True"

text \<open>A failed push changes only a slot that is not in use.\<close>

lemma ring_failed_contents:
  assumes inv: "ring_inv rb" and "rb_buf rb' = (rb_buf rb)[unat (rb_head rb) := r]"
    and "rb_head rb' = rb_head rb" "rb_tail rb' = rb_tail rb" "rb_capacity rb' = rb_capacity rb"
  shows "ring_inv rb'" and "ring_contents rb' = ring_contents rb" and "ring_bound rb' = ring_bound rb"
proof -
  note u = ring_inv_unat [OF inv]
  show "ring_inv rb'" using inv assms by (simp add: ring_inv_def)
  show "ring_bound rb' = ring_bound rb" using assms by (simp add: ring_bound_def)
  have cnt: "ring_count rb' = ring_count rb" using assms by (simp add: ring_count_def)
  have "rb_buf rb' ! ((unat (rb_tail rb) + i) mod unat (rb_capacity rb))
      = rb_buf rb ! ((unat (rb_tail rb) + i) mod unat (rb_capacity rb))" if "i < ring_count rb" for i
  proof -
    have "(unat (rb_tail rb) + i) mod unat (rb_capacity rb) \<noteq> unat (rb_head rb)"
      using u that by (auto simp: ring_count_def ring_dist_cases add_mod_cases split: if_splits)
    then show ?thesis using assms by simp
  qed
  then show "ring_contents rb' = ring_contents rb"
    unfolding ring_contents_def cnt assms(4,5) by simp
qed

lemma ring_step_fifo:
  assumes step: "ring_step crc32 x rb w = (i, out, rb', w')" and inv: "ring_inv rb" and x: "op_ok x"
  shows "ring_contents rb @ i = out @ ring_contents rb' \<and> ring_inv rb' \<and> ring_bound rb' = ring_bound rb"
proof (cases x)
  case (Push ts key ksize val vsize)
  show ?thesis
  proof (cases "ccask_writer_ringbuf_push crc32 ts key ksize val vsize rb w")
    case None
    with step inv Push show ?thesis by (simp add: ring_step_def)
  next
    case (Some y)
    have out: "out = []" using step Push Some by (auto simp: ring_step_def split: prod.splits)
    obtain st where push: "ccask_writer_ringbuf_push crc32 ts key ksize val vsize rb w = Some (st, rb', w')"
      and i: "i = (if st = CCASK_OK then [ent_record (new_entry crc32 ts key ksize val vsize)] else [])"
      using step Push Some by (auto simp: ring_step_def split: prod.splits)
    have b: "buffers_ok key ksize val vsize" using x Push by simp
    show ?thesis
    proof (cases rule: ccask_writer_ringbuf_push_cases [OF push b, case_names full failed pushed])
      case full
      with inv i out show ?thesis by simp
    next
      case failed
      obtain r where "rb_buf rb' = (rb_buf rb)[unat (rb_head rb) := r]" using failed by blast
      from ring_failed_contents [OF inv this failed(5-7)] failed(1) i out show ?thesis by simp
    next
      case pushed
      from ring.enq_some [OF inv pushed(3)] pushed(1) i out show ?thesis by simp
    qed
  qed
next
  case Pop
  show ?thesis
  proof (cases "ccask_writer_ringbuf_pop rb")
    case None
    with step inv Pop show ?thesis by (simp add: ring_step_def)
  next
    case (Some y)
    obtain st r rb2 where y: "y = (st, r, rb2)" by (metis prod_cases3)
    note popped = Some [unfolded y]
    have pop: "ccask_writer_ringbuf_pop rb = Some (st, r, rb')"
      and io: "i = []" "out = (case r of None \<Rightarrow> [] | Some r \<Rightarrow> [r])"
      using step Pop popped by (simp_all add: ring_step_def)
    from pop show ?thesis
    proof (cases rule: ccask_writer_ringbuf_pop_cases)
      case shutdown
      with inv io show ?thesis by simp
    next
      case (popped z)
      from ring.deq_some [OF inv popped(3)] popped(2) io show ?thesis by simp
    qed
  qed
qed

lemma ring_run_fifo:
  assumes "ring_run crc32 xs rb w = (ins, outs, rb', w')" and "ring_inv rb" and "\<forall>x \<in> set xs. op_ok x"
  shows "ring_contents rb @ ins = outs @ ring_contents rb' \<and> ring_inv rb' \<and> ring_bound rb' = ring_bound rb"
  using assms
proof (induction xs arbitrary: rb w ins outs)
  case (Cons x xs)
  obtain i out rb1 w1 where s: "ring_step crc32 x rb w = (i, out, rb1, w1)" by (metis prod_cases4)
  obtain ins1 outs1 where r: "ring_run crc32 xs rb1 w1 = (ins1, outs1, rb', w')"
    and io: "ins = i @ ins1" "outs = out @ outs1"
    using Cons.prems(1) s by (auto simp: Let_def split: prod.splits)
  have "op_ok x" using Cons.prems(3) by simp
  note step = ring_step_fifo [OF s Cons.prems(2) this]
  then have "ring_contents rb1 @ ins1 = outs1 @ ring_contents rb' \<and> ring_inv rb' \<and> ring_bound rb' = ring_bound rb1"
    using Cons.IH [OF r] Cons.prems(3) by simp
  with step io show ?case by (metis append.assoc)
qed simp

section \<open>Properties\<close>

text \<open>
  C15: for every interleaving of pushes and pops, faults included, the records that were popped,
  followed by those still in the buffer, are the records that were in it followed by those whose push
  succeeded: nothing is lost, duplicated or reordered, and the buffer never holds more than one less
  than its capacity.
\<close>

theorem ringbuf_fifo:
  assumes "ring_run crc32 xs rb w = (ins, outs, rb', w')" and "ring_inv rb" and "\<forall>x \<in> set xs. op_ok x"
  shows "ring_contents rb @ ins = outs @ ring_contents rb'
    \<and> length (ring_contents rb') \<le> unat (rb_capacity rb) - 1"
  using ring_run_fifo [OF assms] ring.bounded [of rb'] by (simp add: ring_bound_def)

definition empty_ring :: "u64 \<Rightarrow> ringbuf" where
  "empty_ring cap = \<lparr>rb_buf = replicate (unat cap) null_record, rb_capacity = cap, rb_head = 0, rb_tail = 0,
     rb_shutdown = False, rb_locked = False\<rparr>"

theorem ringbuf_fifo_witness:
  "ring_contents (empty_ring 3) @ fst (ring_run (\<lambda>c b. c) [Push 1 [1] 1 (Some [2]) 1, Pop, Pop] (empty_ring 3) quiet_posix)
    = fst (snd (ring_run (\<lambda>c b. c) [Push 1 [1] 1 (Some [2]) 1, Pop, Pop] (empty_ring 3) quiet_posix))
      @ ring_contents (fst (snd (snd (ring_run (\<lambda>c b. c) [Push 1 [1] 1 (Some [2]) 1, Pop, Pop] (empty_ring 3) quiet_posix))))"
proof -
  obtain ins outs rb' w' where run: "ring_run (\<lambda>c b. c) [Push 1 [1] 1 (Some [2]) 1, Pop, Pop] (empty_ring 3) quiet_posix
      = (ins, outs, rb', w')" by (metis prod_cases4)
  have "ring_inv (empty_ring 3)" by (simp add: ring_inv_def empty_ring_def)
  from ringbuf_fifo [OF run this] run show ?thesis by (simp add: buffers_ok_def bytes_of_def)
qed

text \<open>
  C28: the count that the buffer reports is the number of records in it.
\<close>

theorem ringbuf_count_exact:
  assumes "ring_inv rb" and "\<not> rb_locked rb"
  shows "\<exists>n. ccask_writer_ringbuf_count rb = Some n \<and> unat n = length (ring_contents rb)"
proof -
  note u = ring_inv_unat [OF assms(1)]
  have sub: "unat (x - y) = unat x - unat y" if "y \<le> x" for x y :: u64
    using that by (simp add: unat_sub)
  show ?thesis
  proof (cases "rb_tail rb \<le> rb_head rb")
    case True
    then show ?thesis
      using u assms(2) sub [OF True] ring_dist_cases [OF u(1,2)]
      by (simp add: ccask_writer_ringbuf_count_def ring_contents_def ring_count_def word_le_nat_alt)
  next
    case False
    then have lt: "rb_head rb \<le> rb_tail rb" "rb_tail rb - rb_head rb \<le> rb_capacity rb"
      using sub [of "rb_head rb" "rb_tail rb"] u by (simp_all add: word_le_nat_alt)
    show ?thesis
      using u assms(2) False sub [OF lt(1)] sub [OF lt(2)] ring_dist_cases [OF u(1,2)]
      by (simp add: ccask_writer_ringbuf_count_def ring_contents_def ring_count_def word_le_nat_alt)
  qed
qed

theorem ringbuf_count_exact_witness:
  "\<exists>n. ccask_writer_ringbuf_count (empty_ring 3) = Some n \<and> unat n = length (ring_contents (empty_ring 3))"
  by (rule ringbuf_count_exact) (simp_all add: empty_ring_def ring_inv_def)

text \<open>
  C29: a push that cannot allocate its record leaves the mutex locked: from then on every push, pop,
  count and shutdown of the buffer waits for ever.
\<close>

theorem failed_push_blocks:
  assumes "ccask_writer_ringbuf_push crc32 ts key ksize val vsize rb w = Some (CCASK_FAIL, rb', w')"
    and "buffers_ok key ksize val vsize"
  shows "ccask_writer_ringbuf_push crc32 ts2 key2 ksize2 val2 vsize2 rb' u = None
    \<and> ccask_writer_ringbuf_pop rb' = None \<and> ccask_writer_ringbuf_count rb' = None
    \<and> ccask_writer_ringbuf_start_shutdown rb' = None"
proof -
  have "rb_locked rb'" by (cases rule: ccask_writer_ringbuf_push_cases [OF assms]) auto
  then show ?thesis
    by (simp add: ccask_writer_ringbuf_push_def ccask_writer_ringbuf_pop_def ccask_writer_ringbuf_count_def
        ccask_writer_ringbuf_start_shutdown_def)
qed

theorem failed_push_blocks_witness:
  "\<exists>rb' w'. ccask_writer_ringbuf_push (\<lambda>c b. c) 1 [1] 1 (Some [2]) 1 (empty_ring 3) (quiet_posix\<lparr>fault_script := [Fault ENOMEM]\<rparr>)
      = Some (CCASK_FAIL, rb', w') \<and> ccask_writer_ringbuf_pop rb' = None"
proof -
  have b: "buffers_ok [1] 1 (Some [2]) 1" by (simp add: buffers_ok_def bytes_of_def)
  obtain rb' w' where p: "ccask_writer_ringbuf_push (\<lambda>c b. c) 1 [1] 1 (Some [2]) 1 (empty_ring 3)
      (quiet_posix\<lparr>fault_script := [Fault ENOMEM]\<rparr>) = Some (CCASK_FAIL, rb', w')"
    by (simp add: ccask_writer_ringbuf_push_def empty_ring_def ccask_create_datafile_record_result [OF b]
        numeral_3_eq_3 sys_malloc_def next_fault_def quiet_posix_def)
  from p failed_push_blocks [OF p b] show ?thesis by blast
qed

end
