(* ===== verification/Appending.thy ===== *)
theory Appending
  imports Iterator Reader
begin

text \<open>
  Writing records to the end of a file: the effect of \<open>safe_writev\<close> on the file of a path, and the
  frame that the generator thread and the writer share.
\<close>

definition appends :: "string \<Rightarrow> byte list \<Rightarrow> 'a posix_scheme \<Rightarrow> 'a posix_scheme \<Rightarrow> bool" where
  "appends path bs w w' \<longleftrightarrow> (\<exists>i fs offs e. lookup_inode w path = Some i
     \<and> w' = w\<lparr>inode_data := (inode_data w)(i := inode_data w i @ bs),
              fault_script := fs, fd_offsets := offs, ccask_errno := e\<rparr>
     \<and> length fs \<le> length (fault_script w))"

lemma appends_fields [frame_simps]:
  assumes "appends path bs w w'"
  shows "dir_entries w' = dir_entries w" "next_inode w' = next_inode w" "open_fds w' = open_fds w"
    "next_fd w' = next_fd w" "clock w' = clock w" "posix.more w' = posix.more w"
    "lookup_inode w' q = lookup_inode w q" "posix_inv w' = posix_inv w" "fd_on q fd w' = fd_on q fd w"
    "length (fault_script w') \<le> length (fault_script w)"
  using assms by (auto simp: appends_def lookup_inode_def posix_inv_def fd_on_def)

lemma appends_bytes:
  assumes "appends path bs w w'" and "posix_inv w"
  shows "bytes_at w' q = (if q = path then bytes_at w q @ bs else bytes_at w q)"
proof -
  obtain i fs offs e where i: "lookup_inode w path = Some i"
    and w': "w' = w\<lparr>inode_data := (inode_data w)(i := inode_data w i @ bs),
      fault_script := fs, fd_offsets := offs, ccask_errno := e\<rparr>"
    using assms(1) by (auto simp: appends_def)
  have same: "lookup_inode w' q = lookup_inode w q" by (simp add: w' lookup_inode_def)
  show ?thesis
  proof (cases "lookup_inode w q")
    case None
    with i same show ?thesis by (auto simp: bytes_at_def)
  next
    case (Some j)
    have "j = i \<longleftrightarrow> q = path" using Some i lookup_inode_inj [OF assms(2)] by auto
    with Some i same show ?thesis by (auto simp: bytes_at_def w')
  qed
qed

lemma appends_reads:
  assumes "appends path bs w w'" and "posix_inv w" and "fd_on q fd w" and "q \<noteq> path"
  shows "reads_from fd (bytes_at w q) w'"
  using fd_on_reads [of q fd w'] appends_fields(9) [OF assms(1)] appends_bytes [OF assms(1,2)] assms(3,4)
  by metis

lemma appends_io:
  assumes "appends path bs w u" and "io_frame u w'"
  shows "appends path bs w w'"
proof -
  obtain i fs offs e where u: "lookup_inode w path = Some i"
    "u = w\<lparr>inode_data := (inode_data w)(i := inode_data w i @ bs),
      fault_script := fs, fd_offsets := offs, ccask_errno := e\<rparr>" "length fs \<le> length (fault_script w)"
    using assms(1) by (auto simp: appends_def)
  obtain gs e' where w': "w' = u\<lparr>fault_script := gs, ccask_errno := e'\<rparr>" "length gs \<le> length (fault_script u)"
    using assms(2) by (auto simp: io_frame_def)
  have "w' = w\<lparr>inode_data := (inode_data w)(i := inode_data w i @ bs),
      fault_script := gs, fd_offsets := offs, ccask_errno := e'\<rparr>"
    using u w' by (cases w) simp
  moreover have "length gs \<le> length (fault_script w)" using u w' by simp
  ultimately show ?thesis using u(1) unfolding appends_def by blast
qed

lemma appends_trans:
  assumes "appends path as w u" and "appends path bs u w'"
  shows "appends path (as @ bs) w w'"
proof -
  obtain i fs offs e where u: "lookup_inode w path = Some i"
    "u = w\<lparr>inode_data := (inode_data w)(i := inode_data w i @ as),
      fault_script := fs, fd_offsets := offs, ccask_errno := e\<rparr>" "length fs \<le> length (fault_script w)"
    using assms(1) by (auto simp: appends_def)
  have "lookup_inode u path = Some i" using u by (simp add: lookup_inode_def)
  then obtain gs offs' e' where w': "w' = u\<lparr>inode_data := (inode_data u)(i := inode_data u i @ bs),
      fault_script := gs, fd_offsets := offs', ccask_errno := e'\<rparr>" "length gs \<le> length (fault_script u)"
    using assms(2) by (auto simp: appends_def)
  have "w' = w\<lparr>inode_data := (inode_data w)(i := inode_data w i @ as @ bs),
      fault_script := gs, fd_offsets := offs', ccask_errno := e'\<rparr>"
    using u w' by (cases w) simp
  moreover have "length gs \<le> length (fault_script w)" using u w' by simp
  ultimately show ?thesis using u(1) unfolding appends_def by fastforce
qed

lemma appends_refl:
  assumes "lookup_inode w path \<noteq> None"
  shows "appends path [] w w"
  using assms unfolding appends_def
  by (auto intro!: exI [of _ "fault_script w"] exI [of _ "fd_offsets w"] exI [of _ "ccask_errno w"])

lemma appends_no_fault: "appends path bs w w' \<Longrightarrow> fault_script w = [] \<Longrightarrow> fault_script w' = []"
  using appends_fields(10) by fastforce

text \<open>Writing leaves the open files where they are, for everything that does not look at contents.\<close>

lemma appended_appends:
  assumes "appended fd bs k w w'" and "fd_on path fd w"
  shows "appends path (take k bs) w w'"
  using assms unfolding appended_def appends_def fd_on_def by fastforce

lemma safe_writev_appends:
  assumes "safe_writev fd iov w = Some (st, w')" and "\<forall>v \<in> set iov. wf_iov v" and "fd_on path fd w"
  obtains k where "appends path (take k (iov_bytes iov)) w w'"
    and "st = CCASK_OK \<Longrightarrow> appends path (iov_bytes iov) w w'" and "st = CCASK_OK \<or> st = CCASK_FAIL"
proof -
  obtain k where k: "appended fd (iov_bytes iov) k w w'" "st = CCASK_OK \<Longrightarrow> k = length (iov_bytes iov)"
    "st \<noteq> CCASK_RETRY"
    using safe_writev_result [OF assms(1,2)] by metis
  show thesis
  proof (rule that [of k])
    show "appends path (take k (iov_bytes iov)) w w'" using appended_appends [OF k(1) assms(3)] .
    then show "st = CCASK_OK \<Longrightarrow> appends path (iov_bytes iov) w w'" using k(2) by simp
    show "st = CCASK_OK \<or> st = CCASK_FAIL" using k(3) by (cases st) simp_all
  qed
qed

lemma safe_writev_ok:
  assumes "fault_script w = []" and "fd_on path fd w" and "fd_writable (the (open_fds w fd))"
    and "iov \<noteq> []" and "iov_open_end iov" and "\<forall>v \<in> set iov. wf_iov v"
    and "length (bytes_at w path) + length (iov_bytes iov) \<le> max_file_size"
  obtains w' where "safe_writev fd iov w = Some (CCASK_OK, w')" and "appends path (iov_bytes iov) w w'"
proof -
  obtain d where d: "open_fds w fd = Some d" "lookup_inode w path = Some (fd_inode d)" "0 \<le> fd"
    using assms(2) by (auto simp: fd_on_def)
  have "bytes_at w path = inode_data w (fd_inode d)" using d by (simp add: bytes_at_def)
  then obtain w' where w': "safe_writev fd iov w = Some (CCASK_OK, w')"
    using safe_writev_no_fault [OF assms(1) d(3,1) _ assms(4-6)] assms(3,7) d by simp
  obtain k where "CCASK_OK = CCASK_OK \<Longrightarrow> appends path (iov_bytes iov) w w'"
    using safe_writev_appends [OF w' assms(6,2)] by metis
  with w' that show thesis by blast
qed


section \<open>Everything but some files\<close>

text \<open>
  \<open>besides H w w'\<close>: from \<open>w\<close> to \<open>w'\<close> only the files of \<open>H\<close> were created, written or removed, and no
  descriptor that was open has been closed.
\<close>

definition besides :: "string set \<Rightarrow> 'a posix_scheme \<Rightarrow> 'b posix_scheme \<Rightarrow> bool" where
  "besides H w w' \<longleftrightarrow>
     (\<forall>q. q \<notin> H \<longrightarrow> map_of (dir_entries w') q = map_of (dir_entries w) q \<and> bytes_at w' q = bytes_at w q)
     \<and> (\<forall>fd. fd < next_fd w \<longrightarrow> open_fds w' fd = open_fds w fd)
     \<and> next_fd w \<le> next_fd w' \<and> posix_inv w' \<and> clock w' = clock w
     \<and> length (fault_script w') \<le> length (fault_script w)"

lemma bytes_at_entry:
  assumes "map_of (dir_entries w') q = map_of (dir_entries w) q" and "inode_data w' = inode_data w"
  shows "bytes_at w' q = bytes_at w q"
proof -
  have "lookup_inode w' q = lookup_inode w q" using assms(1) by (simp add: lookup_inode_def)
  with assms(2) show ?thesis by (cases "lookup_inode w q") (simp_all add: bytes_at_def)
qed

lemma besides_refl: "posix_inv w \<Longrightarrow> besides H w w"
  by (simp add: besides_def)

lemma besides_trans: "besides H w u \<Longrightarrow> besides H u w' \<Longrightarrow> besides H w w'"
  by (simp add: besides_def)

lemma besides_mono: "besides G w w' \<Longrightarrow> G \<subseteq> H \<Longrightarrow> besides H w w'"
  unfolding besides_def by blast

lemma besides_posix_inv: "besides H w w' \<Longrightarrow> posix_inv w'"
  by (simp add: besides_def)

lemma besides_grows: "grows P {} w w' \<Longrightarrow> P \<subseteq> H \<Longrightarrow> posix_inv w' \<Longrightarrow> besides H w w'"
  unfolding grows_def besides_def by blast

lemma besides_appends:
  assumes "appends path bs w w'" and "path \<in> H" and "posix_inv w"
  shows "besides H w w'"
  using assms appends_bytes [OF assms(1,3)] by (auto simp: besides_def appends_fields [OF assms(1)])

lemma besides_io: "io_frame w w' \<Longrightarrow> posix_inv w \<Longrightarrow> besides H w w'"
  using bytes_at_cong [of w' w] posix_inv_cong [of w w'] by (simp add: besides_def frame_simps)

lemma besides_same:
  assumes "besides H w u" and "dir_entries w' = dir_entries u" "inode_data w' = inode_data u"
    "open_fds w' = open_fds u" "next_fd w' = next_fd u" "fault_script w' = fault_script u" "clock w' = clock u"
    "next_inode w' = next_inode u"
  shows "besides H w w'"
proof -
  have "posix_inv w'" using assms(1,2,4,5,8) by (auto simp: besides_def posix_inv_def)
  moreover have "bytes_at w' q = bytes_at u q" for q
    using assms(2,3) bytes_at_cong by blast
  ultimately show ?thesis using assms by (simp add: besides_def)
qed

lemma besides_close:
  assumes "besides H w w'" and "next_fd w \<le> fd"
  shows "besides H w (sys_close fd w')"
proof -
  have "dir_entries (sys_close fd w') = dir_entries w'" "inode_data (sys_close fd w') = inode_data w'"
    by (simp_all add: sys_close_def)
  then have "bytes_at (sys_close fd w') q = bytes_at w' q" for q using bytes_at_cong by metis
  moreover have "posix_inv (sys_close fd w')" using assms(1) posix_inv_close by (auto simp: besides_def)
  ultimately show ?thesis
    using assms by (simp add: besides_def) (simp add: sys_close_def)
qed

lemma sys_unlink_besides:
  assumes "sys_unlink path w = (r, w')" and "posix_inv w" and "set_option path \<subseteq> H"
  shows "besides H w w'" and "posix.more w' = posix.more w"
proof -
  obtain f u where f: "next_fault w = (f, u)" by fastforce
  then obtain fs where u: "u = w\<lparr>fault_script := fs\<rparr>" "length fs \<le> length (fault_script w)"
    using next_faultE by blast
  have "besides H w w' \<and> posix.more w' = posix.more w"
  proof (cases "w' = u")
    case True
    with u assms(2) show ?thesis by (auto intro: besides_io io_frameI)
  next
    case False
    then obtain p where p: "path = Some p"
      and w': "w' = u\<lparr>dir_entries := filter (\<lambda>(q, n). q \<noteq> p) (dir_entries u)\<rparr>"
      using assms(1) f by (auto simp: sys_unlink_def split: fault.splits option.splits node.splits)
    have look: "map_of (dir_entries w') q = map_of (dir_entries w) q" if "q \<noteq> p" for q
      using that map_of_filter_key [of p "dir_entries w"] by (simp add: w' u(1))
    have bytes: "bytes_at w' q = bytes_at w q" if "q \<noteq> p" for q
      by (rule bytes_at_entry [OF look [OF that]]) (simp add: w' u(1))
    have "posix_inv w'"
      using assms(2) inode_names_filter
      by (auto simp: posix_inv_def w' u(1) in_inode_names distinct_map_filter)
    have "p \<in> H" using assms(3) p by simp
    then have "\<forall>q. q \<notin> H \<longrightarrow> map_of (dir_entries w') q = map_of (dir_entries w) q \<and> bytes_at w' q = bytes_at w q"
      using look bytes by metis
    moreover have "open_fds w' = open_fds w" "next_fd w' = next_fd w" "clock w' = clock w"
      "length (fault_script w') \<le> length (fault_script w)" "posix.more w' = posix.more w"
      using u by (simp_all add: w')
    ultimately show ?thesis using \<open>posix_inv w'\<close> by (simp add: besides_def)
  qed
  then show "besides H w w'" and "posix.more w' = posix.more w" by blast+
qed

lemma ccask_files_delete_result:
  assumes "ccask_files_delete i ext w = (st, w')" and "posix_inv w" and "ext \<noteq> FILE_UNKNOWN"
  shows "besides {ext_path (data_dir w) i ext} w w'" and "posix.more w' = posix.more w"
proof -
  let ?H = "{ext_path (data_dir w) i ext}"
  obtain path u where u: "build_filepath (data_dir w) i ext w = (path, u)" by fastforce
  then obtain fs where fs: "u = w\<lparr>fault_script := fs\<rparr>" "length fs \<le> length (fault_script w)"
    and path: "set_option path \<subseteq> ?H"
    using build_filepath_frame [OF u] by (cases path) (auto simp: ext_path_def)
  have "sys_unlink path u = (fst (sys_unlink path u), w')"
    using assms(1) u by (auto simp: ccask_files_delete_def split: prod.splits sum.splits)
  note un = sys_unlink_besides [OF this _ path]
  have "besides ?H w u" using fs assms(2) by (auto intro: besides_io io_frameI)
  with un fs assms(2) show "besides ?H w w'" and "posix.more w' = posix.more w"
    using besides_trans by auto
qed

lemma attempt_delete_result:
  assumes "ccask_attempt n CCASK_RETRY (ccask_files_delete i ext) w = (st, w')" and "posix_inv w"
    and "ext \<noteq> FILE_UNKNOWN"
  shows "besides {ext_path (data_dir w) i ext} w w'" and "posix.more w' = posix.more w"
proof -
  let ?P = "\<lambda>u. besides {ext_path (data_dir w) i ext} w u \<and> posix.more u = posix.more w"
  have "?P w'"
  proof (rule ccask_attempt_inv [OF assms(1), where P = ?P])
    show "?P w" using assms(2) by (simp add: besides_refl)
    show "?P u'" if "?P u" "ccask_files_delete i ext u = (s, u')" for u s u'
    proof -
      have "data_dir u = data_dir w" using that(1) same_files_fields(2) by blast
      with that ccask_files_delete_result [OF that(2) _ assms(3)] show ?thesis
        using besides_trans besides_posix_inv by fastforce
    qed
  qed
  then show "besides {ext_path (data_dir w) i ext} w w'" and "posix.more w' = posix.more w" by blast+
qed

text \<open>The file table stays intact when only other files than datafiles change.\<close>

lemma files_ok_besides:
  assumes ok: "files_ok w ps" and b: "besides H w w'" and H: "range (data_path (data_dir w)) \<inter> H = {}"
    and more: "posix.more w' = posix.more w"
  shows "files_ok w' ps" and "data_bytes w' i = data_bytes w i"
proof -
  note same = same_files_fields [OF more]
  have dirs: "map_of (dir_entries w') (data_path (data_dir w) j) = map_of (dir_entries w) (data_path (data_dir w) j)" for j
    using b H by (auto simp: besides_def)
  then have look: "lookup_inode w' (data_path (data_dir w) j) = lookup_inode w (data_path (data_dir w) j)" for j
    by (simp add: lookup_inode_def)
  have fds: "open_fds w' fd = Some d" if "open_fds w fd = Some d" for fd d
    using b that ok by (auto simp: besides_def files_ok_def posix_inv_def)
  have node: "node_ok (data_dir w) w' f" if "node_ok (data_dir w) w f" for f
    using that fds by (fastforce simp: node_ok_def look)
  have "nodes_ok (data_dir w) w (file_nodes (file_heap w) ps)" using ok by (simp add: files_ok_def)
  then have "nodes_ok (data_dir w) w' (file_nodes (file_heap w) ps)"
    using node fds dirs unfolding nodes_ok_def by (fastforce split: list.splits)
  moreover have "files_rep w' ps"
    using ok same by (simp add: files_ok_def files_rep_def files_list_def)
  ultimately show "files_ok w' ps" using ok b same by (simp add: files_ok_def besides_def)
  show "data_bytes w' i = data_bytes w i" using b H same by (auto simp: besides_def data_bytes_def)
qed

text \<open>Writing to any file keeps the file table.\<close>

lemma files_ok_appends:
  assumes ok: "files_ok w ps" and a: "appends path bs w w'"
  shows "files_ok w' ps"
proof -
  note same = same_files_fields [OF appends_fields(6) [OF a]]
  have "node_ok (data_dir w) w' f = node_ok (data_dir w) w f" for f
    by (simp add: node_ok_def appends_fields [OF a])
  then have "nodes_ok (data_dir w) w' fs = nodes_ok (data_dir w) w fs" for fs
    by (simp add: nodes_ok_def appends_fields [OF a] split: list.splits)
  with ok same show ?thesis
    by (simp add: files_ok_def files_rep_def files_list_def appends_fields [OF a])
qed

end
