(* ===== verification/Hint.thy ===== *)
theory Hint
  imports Appending
begin

text \<open>
  src/hint.c: the threads that write the hintfile of a datafile that has been rotated away.  A thread
  is started by \<open>ccask_hintfile_generate\<close> (theory \<open>Files\<close>) and is pending until it runs; here is what
  it does, the start of the generator and its shutdown, which waits for the threads.
\<close>

section \<open>The generator thread\<close>

definition ccask_hintfile_generator_init :: "'a files_state_scheme \<Rightarrow> 'a files_state_scheme" where
  "ccask_hintfile_generator_init w = w\<lparr>hint_threads := []\<rparr>"

text \<open>
  One round of the loop: the hint of one record is written, or the loop gives up (\<open>False\<close>).  When the
  very first allocation of the round fails, the clean-up frees the key buffer of the round before
  again (or an uninitialised pointer), which is undefined.
\<close>

definition hint_body ::
  "int \<Rightarrow> datafile_record \<times> u64 \<Rightarrow> 'a posix_scheme \<Rightarrow> (bool \<times> 'a posix_scheme) option" where
  "hint_body hintfile_fd r w =
     (let header = ccask_get_datafile_record_header (fst r);
          key = ccask_get_datafile_record_key (fst r)
      in do {
        ((res, h), w1) \<leftarrow> ccask_create_hintfile_record (timestamp header) (key_size header)
                            (value_size header) (snd r) key w;
        if res \<noteq> CCASK_OK then (if fst (sys_malloc w) then Some (False, w1) else None)
        else do {
          (res, w2) \<leftarrow> safe_writev hintfile_fd (hintfile_record_iov h) w1;
          Some (res = CCASK_OK, w2) } })"

text \<open>
  The thread.  If the datafile cannot be opened the hintfile stays behind, empty and with an open
  descriptor.  If the loop gave up, the hintfile is deleted; any other end of the loop counts as
  success.
\<close>

definition hintfile_generator_thread ::
  "nat \<Rightarrow> 'a files_state_scheme \<Rightarrow> 'a files_state_scheme option" where
  "hintfile_generator_thread file w = do {
     f \<leftarrow> file_heap w file;
     case attempt_fd (ccask_files_get_hintfile_fd (cf_id f)) w of
       (hintfile_fd, w1) \<Rightarrow>
         if hintfile_fd < 0 then Some w1
         else (case ccask_datafile_iter_open (cf_id f) w1 of
             (None, w2) \<Rightarrow> Some w2
           | (Some it, w2) \<Rightarrow> do {
               (ok, w3) \<leftarrow> iter_loop ccask_datafile_iter_next (hint_body hintfile_fd) it w2;
               let w4 = sys_close hintfile_fd (ccask_datafile_iter_close it w3);
               if ok then write_file file (\<lambda>g. g\<lparr>cf_has_hint := True\<rparr>) w4
               else Some (snd (ccask_attempt 5 CCASK_RETRY (ccask_files_delete (cf_id f) FILE_HINT) w4)) }) }"

text \<open>A pending thread runs.\<close>

definition hint_thread_run :: "nat \<Rightarrow> 'a files_state_scheme \<Rightarrow> 'a files_state_scheme option" where
  "hint_thread_run file w =
     (if file \<in> set (hint_pending w)
      then hintfile_generator_thread file (w\<lparr>hint_pending := remove1 file (hint_pending w)\<rparr>)
      else None)"

text \<open>The shutdown joins the threads, newest first: one that has not run yet runs now.\<close>

fun hint_join_all :: "nat list \<Rightarrow> 'a files_state_scheme \<Rightarrow> 'a files_state_scheme option" where
  "hint_join_all [] w = Some w"
| "hint_join_all (file # rest) w = do {
     w' \<leftarrow> (if file \<in> set (hint_pending w) then hint_thread_run file w else Some w);
     hint_join_all rest w' }"

definition ccask_hintfile_generator_shutdown :: "'a files_state_scheme \<Rightarrow> 'a files_state_scheme option" where
  "ccask_hintfile_generator_shutdown w = hint_join_all (hint_threads w) w"


section \<open>What one round writes\<close>

lemma log_positions_nth:
  "k < length es \<Longrightarrow> log_positions pos es ! k = (pos + log_size (take k es), es ! k)"
proof (induction es arbitrary: pos k)
  case (Cons e es)
  then show ?case by (cases k) (simp_all add: add.assoc)
qed simp

lemma length_log_positions [simp]: "length (log_positions pos es) = length es"
  by (induction es arbitrary: pos) simp_all

text \<open>The hints of a log.\<close>

definition hints_of :: "entry list \<Rightarrow> byte list" where
  "hints_of es = encode_hints (log_positions 0 es)"

lemma take_log_positions: "take k (log_positions pos es) = log_positions pos (take k es)"
proof (induction es arbitrary: pos k)
  case (Cons e es)
  then show ?case by (cases k) simp_all
qed simp

lemma hints_of_Suc:
  assumes "k < length es"
  shows "hints_of (take (Suc k) es) = hints_of (take k es) @ encode_hint (log_size (take k es)) (es ! k)"
proof -
  have "take (Suc k) es = take k es @ [es ! k]" using assms by (rule take_Suc_conv_app_nth)
  then show ?thesis by (simp add: hints_of_def)
qed

definition hintable :: "entry \<Rightarrow> bool" where
  "hintable e \<longleftrightarrow> 20 + length (ent_key e) < 2 ^ 32 \<and> ent_key e \<noteq> []"

lemma hintable_hint_ok: "hint_ok (pos, e) = hintable e"
  by (simp add: hint_ok_def hintable_def)

lemma hint_record_open_end: "ent_key e \<noteq> [] \<Longrightarrow> iov_open_end (hintfile_record_iov (hint_record pos e))"
  by (simp add: iov_open_end_def hintfile_record_iov_def hint_record_def)

lemma hint_body_entry:
  assumes "hintable e"
  shows "hint_body fd (ent_record e, of_nat pos) w =
    (let (ok, u) = sys_mallocs 2 w in
     if ok then do { (res, w') \<leftarrow> safe_writev fd (hintfile_record_iov (hint_record pos e)) u;
                     Some (res = CCASK_OK, w') }
     else if fst (sys_malloc w) then Some (False, set_errno CCASK_ERR_NO_MEMORY u) else None)"
proof -
  have len: "length (ent_key e) < 2 ^ 32" using assms by (simp add: hintable_def)
  note c = ccask_create_hintfile_record_result [OF len refl, of pos w]
  show ?thesis
    by (cases "sys_mallocs 2 w") (simp add: hint_body_def c Let_def)
qed

text \<open>Whatever record the iterator delivers, only the hintfile grows.\<close>

lemma hint_body_appends:
  assumes "hint_body fd r w = Some (b, w')" and "fd_on path fd w"
  shows "\<exists>bs. appends path bs w w'"
proof -
  let ?hdr = "ccask_get_datafile_record_header (fst r)" and ?key = "ccask_get_datafile_record_key (fst r)"
  obtain ok u where u: "sys_mallocs 2 w = (ok, u)" by fastforce
  have io: "io_frame w u" using u by (rule sys_mallocs_io)
  have there: "lookup_inode w path \<noteq> None" using assms(2) by (auto simp: fd_on_def)
  note still = appends_io [OF appends_refl [OF there]]
  show ?thesis
  proof (cases ok)
    case False
    then have "w' = set_errno CCASK_ERR_NO_MEMORY u"
      using assms(1) u by (auto simp: hint_body_def ccask_create_hintfile_record_def
          ccask_allocate_hintfile_record_def Let_def split: if_splits)
    with still [OF io_frame_trans [OF io io_frame_set_errno]] show ?thesis by blast
  next
    case True
    let ?h = "\<lambda>kb. \<lparr>hint_header = \<lparr>iov_base = hintfile_header_bytes (timestamp ?hdr) (key_size ?hdr) (value_size ?hdr) (snd r),
        iov_len = HINTFILE_RECORD_HEADER_SIZE\<rparr>, hint_key = \<lparr>iov_base = kb, iov_len = unat (key_size ?hdr)\<rparr>\<rparr>"
    let ?kb = "take (unat (key_size ?hdr)) ?key"
    have "unat (key_size ?hdr) \<le> length ?key \<and> (\<exists>st. safe_writev fd (hintfile_record_iov (?h ?kb)) u = Some (st, w'))"
      using assms(1) u True
      by (auto simp: hint_body_def ccask_create_hintfile_record_def ccask_allocate_hintfile_record_def
          empty_iov_def memcpy_from_def bind_eq_Some_conv Let_def split: if_splits)
    then obtain kb st where kb: "length kb = unat (key_size ?hdr)"
      and st: "safe_writev fd (hintfile_record_iov (?h kb)) u = Some (st, w')" by force
    have "\<forall>v \<in> set (hintfile_record_iov (?h kb)). wf_iov v"
      using kb by (simp add: hintfile_record_iov_def wf_iov_def hintfile_header_bytes_def
          HINTFILE_RECORD_HEADER_SIZE_def)
    moreover have "fd_on path fd u" using assms(2) io by (simp add: fd_on_def frame_simps lookup_inode_def)
    ultimately obtain k where "appends path (take k (iov_bytes (hintfile_record_iov (?h kb)))) u w'"
      using safe_writev_appends [OF st] by blast
    with appends_trans [OF still [OF io]] show ?thesis by fastforce
  qed
qed

lemma hint_body_entry_result:
  assumes "hint_body fd (ent_record e, of_nat pos) w = Some (True, w')" and "hintable e" and "fd_on path fd w"
  shows "appends path (encode_hint pos e) w w'"
proof -
  obtain ok u where u: "sys_mallocs 2 w = (ok, u)" by fastforce
  have io: "io_frame w u" using u by (rule sys_mallocs_io)
  have there: "lookup_inode w path \<noteq> None" using assms(3) by (auto simp: fd_on_def)
  have "fd_on path fd u" using assms(3) io by (simp add: fd_on_def frame_simps lookup_inode_def)
  note sw = safe_writev_appends [OF _ hint_record_facts(2) this, of pos e]
  have app: "appends path bs w v" if "appends path bs u v" for bs v
    using appends_trans [OF appends_io [OF appends_refl [OF there] io] that] by simp
  show ?thesis
    using assms(1) u app sw unfolding hint_body_entry [OF assms(2)]
    by (auto simp: bind_eq_Some_conv hint_record_facts split: if_splits)
qed


section \<open>What the loop writes\<close>

lemma hints_of_Nil [simp]: "hints_of [] = []"
  by (simp add: hints_of_def)

text \<open>On any datafile the loop only appends to the hintfile.\<close>

lemma generator_loop_appends:
  assumes run: "iter_loop ccask_datafile_iter_next (hint_body fd) it w = Some (b, w')" and hfd: "fd_on hp fd w"
  obtains bs where "appends hp bs w w'"
proof -
  let ?P = "\<lambda>u. \<exists>bs. appends hp bs w u"
  have "lookup_inode w hp \<noteq> None" using hfd by (auto simp: fd_on_def)
  then have "?P w" using appends_refl by blast
  then have "?P w'"
  proof (rule iter_loop_inv [where P = ?P, OF run])
    show "?P u'" if "?P u" "ccask_datafile_iter_next it u = (y, u')" for it u y u'
      using that(1) appends_io ccask_datafile_iter_next_frame [OF that(2)] by blast
    show "?P u'" if P: "?P u" and body: "hint_body fd r u = Some (b, u')" for r u b u'
    proof -
      obtain bs where bs: "appends hp bs w u" using P by blast
      then have "fd_on hp fd u" using hfd by (simp add: frame_simps)
      from hint_body_appends [OF body this] appends_trans [OF bs] show ?thesis by blast
    qed
  qed
  then show thesis using that by blast
qed

text \<open>With any faults: the hints of some first records of the log, and nothing else.\<close>

lemma generator_loop_prefix:
  assumes run: "iter_loop ccask_datafile_iter_next (hint_body fd) it w = Some (b, w')"
    and inv: "posix_inv w" and hfd: "fd_on hp fd w" and dfd: "fd_on dp (it_fd it) w" and ne: "hp \<noteq> dp"
    and bytes: "bytes_at w dp = encode_log es" and ok: "\<forall>e \<in> set es. ent_ok e \<and> hintable e"
    and size: "log_size es < 2 ^ 63" and off: "it_offset it = 0"
  obtains bs where "appends hp bs w w'" and "b \<Longrightarrow> \<exists>k \<le> length es. bs = hints_of (take k es)"
proof -
  let ?Q = "\<lambda>k u. appends hp (hints_of (take k es)) w u"
  let ?R = "\<lambda>u. \<exists>bs. appends hp bs w u"
  have there: "lookup_inode w hp \<noteq> None" using hfd by (auto simp: fd_on_def)
  have rd: "reads_from (it_fd it) (encode_log es) u" if "appends hp bs w u" for bs u
    using appends_reads [OF that inv dfd] ne bytes by simp
  have step: "(b \<longrightarrow> ?Q (Suc k) u') \<and> ?R u'"
    if "k < length es" "?Q k u" "hint_body fd (data_log.log_records 0 es ! k) u = Some (b, u')" for k u u' b
  proof -
    have "fd_on hp fd u" using hfd that(2) by (simp add: frame_simps)
    moreover have "hint_body fd (ent_record (es ! k), of_nat (log_size (take k es))) u = Some (b, u')"
      using that by (simp add: data_log.log_records_nth data_log_bytes)
    moreover have "hintable (es ! k)" using ok that(1) by simp
    ultimately have "(b \<longrightarrow> appends hp (encode_hint (log_size (take k es)) (es ! k)) u u') \<and> (\<exists>bs. appends hp bs u u')"
      by (cases b) (auto dest: hint_body_entry_result intro: hint_body_appends)
    then show ?thesis using appends_trans [OF that(2)] hints_of_Suc [OF that(1)] by auto
  qed
  have "if b then \<exists>k \<le> length es. ?Q k w' else ?R w'"
  proof (rule data_log.iter_loop_prefix [OF run, where pre = "[]" and es = es and fd = "it_fd it" and k = 0
        and Q = ?Q and R = ?R])
    show "reads_from (it_fd it) ([] @ data_log.log_bytes es) w"
      using rd [OF appends_refl [OF there]] by (simp add: data_log_bytes)
    show "?Q 0 w" using appends_refl [OF there] by simp
    show "?Q k u'" if "?Q k u" "io_frame u u'" for k u u' using appends_io that by blast
    show "?Q (Suc k) u' \<and> reads_from (it_fd it) ([] @ data_log.log_bytes es) u'"
      if "k < length es" "?Q k u" "hint_body fd (data_log.log_records (length ([] :: byte list)) es ! k) u = Some (True, u')" for k u u'
      using step [of k u True u'] that rd by (fastforce simp: data_log_bytes)
    show "?R u'"
      if "k < length es" "?Q k u" "hint_body fd (data_log.log_records (length ([] :: byte list)) es ! k) u = Some (False, u')" for k u u'
      using step [of k u False u'] that by simp
  qed (use size ok off in \<open>simp_all add: data_log_bytes\<close>)
  then show thesis using that by (cases b) auto
qed

text \<open>Without faults: the hints of all of them.\<close>

lemma hint_body_ok:
  assumes "fault_script w = []" and "fd_on hp fd w" and "fd_writable (the (open_fds w fd))"
    and "hintable e" and "length (bytes_at w hp) + length (encode_hint pos e) \<le> max_file_size"
  obtains w' where "hint_body fd (ent_record e, of_nat pos) w = Some (True, w')"
    and "appends hp (encode_hint pos e) w w'"
proof -
  have m: "sys_mallocs 2 w = (True, w)"
    using assms(1) by (simp add: numeral_2_eq_2 sys_malloc_no_fault)
  have ne: "hintfile_record_iov (hint_record pos e) \<noteq> []" "ent_key e \<noteq> []"
    using assms(4) by (simp_all add: hintfile_record_iov_def hintable_def)
  obtain w' where "safe_writev fd (hintfile_record_iov (hint_record pos e)) w = Some (CCASK_OK, w')"
    and "appends hp (iov_bytes (hintfile_record_iov (hint_record pos e))) w w'"
    using safe_writev_ok [OF assms(1-3) ne(1) hint_record_open_end [OF ne(2)] hint_record_facts(2)] assms(5)
    by (auto simp: hint_record_facts)
  then show thesis
    using that [of w'] m by (simp add: hint_body_entry [OF assms(4)] hint_record_facts)
qed

lemma run_hint_bodies:
  assumes "fault_script w = []" and "posix_inv w" and "fd_on hp fd w" and "fd_writable (the (open_fds w fd))"
    and "\<forall>e \<in> set es. hintable e"
    and "length (bytes_at w hp) + length (encode_hints (log_positions pos es)) \<le> max_file_size"
  shows "\<exists>w'. run_body (hint_body fd) (data_log.log_records pos es) w = Some (True, w')
    \<and> appends hp (encode_hints (log_positions pos es)) w w'"
  using assms
proof (induction es arbitrary: pos w)
  case Nil
  then have "lookup_inode w hp \<noteq> None" by (auto simp: fd_on_def)
  then show ?case using appends_refl by (simp add: data_log.log_records_simps)
next
  case (Cons e es)
  obtain u where u: "hint_body fd (ent_record e, of_nat pos) w = Some (True, u)"
    and app: "appends hp (encode_hint pos e) w u"
    using hint_body_ok [OF Cons.prems(1,3,4), of e pos] Cons.prems(5,6) by auto
  have "\<exists>w'. run_body (hint_body fd) (data_log.log_records (pos + ent_size e) es) u = Some (True, w')
      \<and> appends hp (encode_hints (log_positions (pos + ent_size e) es)) u w'"
    by (rule Cons.IH)
       (use Cons.prems app appends_no_fault [OF app] appends_bytes [OF app Cons.prems(2)]
         in \<open>simp_all add: appends_fields [OF app]\<close>)
  then show ?case
    using u appends_trans [OF app] by (fastforce simp: data_log.log_records_simps)
qed

lemma generator_loop_ok:
  assumes nf: "fault_script w = []" and inv: "posix_inv w" and hfd: "fd_on hp fd w"
    and wr: "fd_writable (the (open_fds w fd))" and dfd: "fd_on dp (it_fd it) w" and ne: "hp \<noteq> dp"
    and bytes: "bytes_at w dp = encode_log es" and ok: "\<forall>e \<in> set es. ent_ok e \<and> hintable e"
    and size: "log_size es < 2 ^ 63" and it: "it_offset it = 0" "it_total_size it = of_nat (log_size es)"
    and room: "length (bytes_at w hp) + length (hints_of es) \<le> max_file_size"
  obtains w' where "iter_loop ccask_datafile_iter_next (hint_body fd) it w = Some (True, w')"
    and "appends hp (hints_of es) w w'"
proof -
  let ?P = "\<lambda>u. \<exists>bs. appends hp bs w u"
  have there: "lookup_inode w hp \<noteq> None" using hfd by (auto simp: fd_on_def)
  have hints: "\<forall>e \<in> set es. hintable e" using ok by blast
  obtain u where u: "run_body (hint_body fd) (data_log.log_records 0 es) w = Some (True, u)"
    and app: "appends hp (hints_of es) w u"
    using run_hint_bodies [OF nf inv hfd wr hints, of 0] room by (auto simp: hints_of_def)
  have "iter_loop ccask_datafile_iter_next (hint_body fd) it w
    = map_option (\<lambda>(b, u). (b, if b then set_errno CCASK_ERR_ITER_END u else u))
        (run_body (hint_body fd) (data_log.log_records (length ([] :: byte list)) es) w)"
  proof (rule data_log.iter_loop_log [where fd = "it_fd it" and bs = "data_log.log_bytes es" and P = ?P
        and R = "set (data_log.log_records (length ([] :: byte list)) es)"])
    show "?P w" using appends_refl [OF there] by blast
    show "reads_from (it_fd it) (data_log.log_bytes es) v \<and> fault_script v = []" if "?P v" for v
      using that appends_reads [OF _ inv dfd] ne bytes appends_no_fault [OF _ nf]
      by (auto simp: data_log_bytes)
    show "?P v'" if r: "r \<in> set (data_log.log_records (length ([] :: byte list)) es)" and v: "?P v"
      and run: "hint_body fd r v = Some (b, v')" for r v v' b
    proof -
      obtain bs where bs: "appends hp bs w v" using v by blast
      then have "fd_on hp fd v" using hfd by (simp add: frame_simps)
      moreover obtain pos e where "r = (ent_record e, of_nat pos)" "e \<in> set es"
      proof -
        obtain k where k: "k < length es" "r = data_log.log_records 0 es ! k"
          using r by (auto simp: in_set_conv_nth data_log_records)
        then show thesis using that [of "es ! k" "log_size (take k es)"]
          by (simp add: data_log.log_records_nth data_log_bytes)
      qed
      ultimately have "\<exists>cs. appends hp cs v v'"
        using hint_body_appends run by blast
      then show ?thesis using appends_trans [OF bs] by blast
    qed
  qed (use size ok it in \<open>simp_all add: data_log_bytes\<close>)
  with u have "iter_loop ccask_datafile_iter_next (hint_body fd) it w = Some (True, set_errno CCASK_ERR_ITER_END u)"
    by simp
  moreover have "appends hp (hints_of es) w (set_errno CCASK_ERR_ITER_END u)"
    using appends_io [OF app io_frame_set_errno] .
  ultimately show thesis by (rule that)
qed


section \<open>What the thread does\<close>

lemma hint_path_data_path: "hint_path dir i \<noteq> data_path dir j"
  by (simp add: hint_path_def data_path_def ext_path_inj)

lemma data_paths_no_hint: "range (data_path dir) \<inter> {hint_path dir i} = {}"
  by (auto simp: hint_path_def data_path_def ext_path_inj)

lemma fd_on_opened: "opened_at path wr fd w w' \<Longrightarrow> 0 \<le> fd \<Longrightarrow> fd_on path fd w' \<and> next_fd w \<le> fd
    \<and> fd_writable (the (open_fds w' fd)) = wr"
  by (auto simp: opened_at_def fd_on_def)

lemma fd_on_grows: "fd_on path fd w \<Longrightarrow> grows {} {} w w' \<Longrightarrow> posix_inv w \<Longrightarrow> fd_on path fd w'"
  using grows_fds [of "{}" "{}" w w' fd] grows_lookup [of "{}" "{}" w w' path] by (fastforce simp: fd_on_def)

text \<open>The effect on the files, before the node is marked: the hintfile and nothing else.\<close>

lemma generator_thread_files:
  assumes run: "hintfile_generator_thread p w = Some w'" and inv: "posix_inv w"
    and f: "file_heap w p = Some f"
  obtains (unmarked) "besides {hint_path (data_dir w) (cf_id f)} w w'" and "posix.more w' = posix.more w"
  | (marked) u bs where "besides {hint_path (data_dir w) (cf_id f)} w u" and "posix.more u = posix.more w"
      and "w' = u\<lparr>file_heap := (file_heap u)(p \<mapsto> f\<lparr>cf_has_hint := True\<rparr>)\<rparr>"
      and "bytes_at u (hint_path (data_dir w) (cf_id f)) = bytes_at w (hint_path (data_dir w) (cf_id f)) @ bs"
      and "\<And>es. data_bytes w (cf_id f) = encode_log es \<Longrightarrow> \<forall>e \<in> set es. ent_ok e \<and> hintable e \<Longrightarrow>
        log_size es < 2 ^ 63 \<Longrightarrow> \<exists>k \<le> length es. bs = hints_of (take k es)"
proof -
  let ?hp = "hint_path (data_dir w) (cf_id f)" and ?dp = "data_path (data_dir w) (cf_id f)"
  obtain fd w1 where w1: "attempt_fd (ccask_files_get_hintfile_fd (cf_id f)) w = (fd, w1)" by fastforce
  note o = attempt_open_result [OF w1 [unfolded ccask_files_get_hintfile_fd_def] inv]
  have b1: "besides {?hp} w w1" and m1: "posix.more w1 = posix.more w" and inv1: "posix_inv w1"
    and g1: "grows {?hp} {} w w1"
    using o(1-3) besides_grows [OF o(1)] by (simp_all add: creates_def hint_path_def)
  show thesis
  proof (cases "fd < 0")
    case True
    then have "w' = w1" using run f w1 by (simp add: hintfile_generator_thread_def)
    with b1 m1 show thesis by (intro unmarked) simp_all
  next
    case False
    have hfd: "fd_on ?hp fd w1" and fresh: "next_fd w \<le> fd"
      using fd_on_opened [of ?hp True fd w w1] o(4) False by (simp_all add: hint_path_def)
    have d1: "data_dir w1 = data_dir w" using same_files_fields(2) [OF m1] .
    obtain r w2 where w2: "ccask_datafile_iter_open (cf_id f) w1 = (r, w2)" by fastforce
    note op = ccask_datafile_iter_open_result [OF w2 inv1]
    have b2: "besides {?hp} w w2" and m2: "posix.more w2 = posix.more w"
      using besides_trans [OF b1 besides_grows [OF op(1)]] op m1 by auto
    show thesis
    proof (cases r)
      case None
      then have "w' = w2" using run f w1 w2 False by (simp add: hintfile_generator_thread_def)
      with b2 m2 show thesis by (intro unmarked) simp_all
    next
      case (Some it)
      have itf: "it_offset it = 0" "next_fd w1 \<le> it_fd it" "fd_on ?dp (it_fd it) w2"
        using op(4) [OF Some] d1
        by (auto simp: iter_opened_def)
      have by2: "bytes_at w2 ?dp = data_bytes w (cf_id f)"
        using grows_bytes [OF g1] grows_bytes [OF op(1)] by (simp add: data_bytes_def)
      have hfd2: "fd_on ?hp fd w2" using fd_on_grows [OF hfd op(1) inv1] .
      obtain b w3 where w3: "iter_loop ccask_datafile_iter_next (hint_body fd) it w2 = Some (b, w3)"
        and w': "(if b then write_file p (\<lambda>g. g\<lparr>cf_has_hint := True\<rparr>) (sys_close fd (ccask_datafile_iter_close it w3))
          else Some (snd (ccask_attempt 5 CCASK_RETRY (ccask_files_delete (cf_id f) FILE_HINT)
                 (sys_close fd (ccask_datafile_iter_close it w3))))) = Some w'"
        using run f w1 w2 False Some by (auto simp: hintfile_generator_thread_def Let_def bind_eq_Some_conv)
      obtain bs where bs: "appends ?hp bs w2 w3" by (rule generator_loop_appends [OF w3 hfd2])
      have log: "\<exists>k \<le> length es. bs = hints_of (take k es)" if m: "b" and d: "data_bytes w (cf_id f) = encode_log es"
        and e: "\<forall>e \<in> set es. ent_ok e \<and> hintable e" and s: "log_size es < 2 ^ 63" for es
      proof -
        have "bytes_at w2 ?dp = encode_log es" using by2 d by simp
        then have "\<exists>cs. appends ?hp cs w2 w3 \<and> (\<exists>k \<le> length es. cs = hints_of (take k es))"
          by (rule generator_loop_prefix [OF w3 op(2) hfd2 itf(3) hint_path_data_path _ e s itf(1)]) (use m in blast)
        then obtain cs where cs: "appends ?hp cs w2 w3" "\<exists>k \<le> length es. cs = hints_of (take k es)" by blast
        have "bytes_at w3 ?hp = bytes_at w2 ?hp @ bs" "bytes_at w3 ?hp = bytes_at w2 ?hp @ cs"
          using appends_bytes [OF bs op(2), of ?hp] appends_bytes [OF cs(1) op(2), of ?hp] by simp_all
        then have "bs = cs" by simp
        then show ?thesis using cs(2) by simp
      qed
      let ?w4 = "sys_close fd (ccask_datafile_iter_close it w3)"
      have "besides {?hp} w w3" using besides_trans [OF b2 besides_appends [OF bs _ op(2)]] by simp
      moreover have "next_fd w \<le> it_fd it" using itf(2) b1 by (simp add: besides_def)
      ultimately have b4: "besides {?hp} w ?w4"
        using fresh by (simp add: ccask_datafile_iter_close_def besides_close)
      have m4: "posix.more ?w4 = posix.more w"
        using m2 appends_fields(6) [OF bs] by (simp add: ccask_datafile_iter_close_def sys_close_def)
      show thesis
      proof (cases b)
        case True
        have "bytes_at ?w4 ?hp = bytes_at w3 ?hp"
          by (rule bytes_at_cong) (simp_all add: ccask_datafile_iter_close_def sys_close_def)
        also have "\<dots> = bytes_at w ?hp @ bs"
          using appends_bytes [OF bs op(2)] grows_bytes [OF g1] grows_bytes [OF op(1)] by simp
        finally have by4: "bytes_at ?w4 ?hp = bytes_at w ?hp @ bs" .
        have "file_heap ?w4 p = Some f" using same_files_fields(6) [OF m4] f by simp
        then have "w' = ?w4\<lparr>file_heap := (file_heap ?w4)(p \<mapsto> f\<lparr>cf_has_hint := True\<rparr>)\<rparr>"
          using w' True by (simp add: write_file_def)
        with b4 m4 by4 log [OF True] show thesis by (intro marked)
      next
        case False
        obtain st where "ccask_attempt 5 CCASK_RETRY (ccask_files_delete (cf_id f) FILE_HINT) ?w4 = (st, w')"
          using w' False by (cases "ccask_attempt 5 CCASK_RETRY (ccask_files_delete (cf_id f) FILE_HINT) ?w4") simp
        note del = attempt_delete_result [OF this besides_posix_inv [OF b4]]
        have "data_dir ?w4 = data_dir w" using same_files_fields(2) [OF m4] .
        then have "besides {?hp} w w'" "posix.more w' = posix.more w"
          using besides_trans [OF b4] del m4 by (simp_all add: hint_path_def)
        then show thesis by (rule unmarked)
      qed
    qed
  qed
qed


text \<open>
  Whatever happens, the file table and all datafiles are kept; a node that is marked as having a
  hintfile has the hints of some first records of its datafile in it.
\<close>

lemma hintfile_generator_thread_result:
  assumes run: "hintfile_generator_thread p w = Some w'" and ok: "files_ok w ps" and p: "p \<in> set ps"
    and f: "file_heap w p = Some f"
  shows "files_ok w' ps" and "data_bytes w' i = data_bytes w i"
    and "files_state.more w' = files_state.more w" and "data_dir w' = data_dir w"
    and "max_active_file_size w' = max_active_file_size w"
    and "\<not> cf_has_hint f \<Longrightarrow> file_heap w' p = Some g \<Longrightarrow> cf_has_hint g \<Longrightarrow>
      data_bytes w (cf_id f) = encode_log es \<Longrightarrow> \<forall>e \<in> set es. ent_ok e \<and> hintable e \<Longrightarrow> log_size es < 2 ^ 63 \<Longrightarrow>
      \<exists>k \<le> length es. bytes_at w' (hint_path (data_dir w) (cf_id f))
        = bytes_at w (hint_path (data_dir w) (cf_id f)) @ hints_of (take k es)"
    and "q \<in> set ps \<Longrightarrow> id_of (file_heap w') q = id_of (file_heap w) q"
proof -
  let ?hp = "hint_path (data_dir w) (cf_id f)"
  have inv: "posix_inv w" using ok by (simp add: files_ok_def)
  have "files_ok w' ps \<and> data_bytes w' i = data_bytes w i \<and> files_state.more w' = files_state.more w
    \<and> data_dir w' = data_dir w \<and> max_active_file_size w' = max_active_file_size w
    \<and> (\<not> cf_has_hint f \<longrightarrow> file_heap w' p = Some g \<longrightarrow> cf_has_hint g \<longrightarrow>
      data_bytes w (cf_id f) = encode_log es \<longrightarrow> (\<forall>e \<in> set es. ent_ok e \<and> hintable e) \<longrightarrow> log_size es < 2 ^ 63 \<longrightarrow>
      (\<exists>k \<le> length es. bytes_at w' ?hp = bytes_at w ?hp @ hints_of (take k es)))
    \<and> (q \<in> set ps \<longrightarrow> id_of (file_heap w') q = id_of (file_heap w) q)"
  proof (cases rule: generator_thread_files [OF run inv f, case_names unmarked marked])
    case unmarked
    note k = files_ok_besides [OF ok unmarked(1) data_paths_no_hint unmarked(2)]
    from k same_files_fields [OF unmarked(2)] f show ?thesis by auto
  next
    case (marked u bs)
    note same = same_files_fields [OF marked(2)]
    note k = files_ok_besides [OF ok marked(1) data_paths_no_hint marked(2)]
    have fu: "file_heap u p = Some f" using same f by simp
    have gr: "grows {} {} u w'" unfolding marked(3) by (rule grows_same) simp_all
    have inv': "posix_inv w'" using besides_posix_inv [OF marked(1)] unfolding marked(3) by (simp add: posix_inv_def)
    have "files_ok w' ps \<and> (\<forall>q \<in> set ps. id_of (file_heap w') q = id_of (file_heap u) q)"
    proof -
      have "files_ok w' ps"
        by (rule files_ok_write(1) [OF k(1) p fu, where g = "f\<lparr>cf_has_hint := True\<rparr>" and b = True])
           (use gr inv' marked(3) k(1) in \<open>simp_all add: files_ok_def\<close>)
      moreover have "id_of (file_heap w') q = id_of (file_heap u) q" if "q \<in> set ps" for q
        using fu by (cases "q = p") (simp_all add: marked(3) id_of_def)
      ultimately show ?thesis by blast
    qed
    moreover have "data_bytes w' i = data_bytes u i" "bytes_at w' ?hp = bytes_at u ?hp"
      using data_bytes_grows [OF gr] grows_bytes [OF gr] by (simp_all add: marked(3))
    moreover have "files_state.more w' = files_state.more u" "data_dir w' = data_dir u"
      "max_active_file_size w' = max_active_file_size u"
      by (simp_all add: marked(3))
    ultimately show ?thesis using k(2) same marked(4) marked(5) [of es] by auto
  qed
  then show "files_ok w' ps" and "data_bytes w' i = data_bytes w i"
    and "files_state.more w' = files_state.more w" and "data_dir w' = data_dir w"
    and "max_active_file_size w' = max_active_file_size w"
    and "\<not> cf_has_hint f \<Longrightarrow> file_heap w' p = Some g \<Longrightarrow> cf_has_hint g \<Longrightarrow>
      data_bytes w (cf_id f) = encode_log es \<Longrightarrow> \<forall>e \<in> set es. ent_ok e \<and> hintable e \<Longrightarrow> log_size es < 2 ^ 63 \<Longrightarrow>
      \<exists>k \<le> length es. bytes_at w' ?hp = bytes_at w ?hp @ hints_of (take k es)"
    and "q \<in> set ps \<Longrightarrow> id_of (file_heap w') q = id_of (file_heap w) q"
    by blast+
qed


text \<open>Without faults the thread returns, and a hintfile that did not exist holds all hints.\<close>

lemma hintfile_generator_thread_no_fault:
  assumes nf: "fault_script w = []" and ok: "files_ok w ps" and p: "p \<in> set ps"
    and f: "file_heap w p = Some f" and bytes: "data_bytes w (cf_id f) = encode_log es"
    and es: "\<forall>e \<in> set es. ent_ok e \<and> hintable e" and size: "log_size es < 2 ^ 63"
    and new: "map_of (dir_entries w) (hint_path (data_dir w) (cf_id f)) = None"
    and room: "length (hints_of es) \<le> max_file_size"
  obtains w' where "hintfile_generator_thread p w = Some w'"
    and "file_heap w' p = Some (f\<lparr>cf_has_hint := True\<rparr>)"
    and "bytes_at w' (hint_path (data_dir w) (cf_id f)) = hints_of es"
    and "lookup_inode w' (hint_path (data_dir w) (cf_id f)) \<noteq> None" and "fault_script w' = []"
proof -
  let ?hp = "hint_path (data_dir w) (cf_id f)" and ?dp = "data_path (data_dir w) (cf_id f)"
  have inv: "posix_inv w" using ok by (simp add: files_ok_def)
  obtain fd w1 where w1: "attempt_fd (ccask_files_get_hintfile_fd (cf_id f)) w = (fd, w1)" by fastforce
  note w1' = w1 [unfolded ccask_files_get_hintfile_fd_def]
  note o = attempt_open_result [OF w1' inv]
  have g1: "grows {?hp} {} w w1" and m1: "posix.more w1 = posix.more w" and inv1: "posix_inv w1"
    using o(1-3) by (simp_all add: creates_def hint_path_def)
  have fd: "0 \<le> fd"
    using attempt_open_no_fault [OF nf inv _ _ w1'] new by (simp add: hint_path_def)
  have hfd: "fd_on ?hp fd w1" and wr1: "fd_writable (the (open_fds w1 fd))"
    using fd_on_opened [of ?hp True fd w w1] o(4) fd by (simp_all add: hint_path_def)
  note same1 = same_files_fields [OF m1]
  have nf1: "fault_script w1 = []" using grows_no_fault [OF g1 nf] .
  obtain r w2 where w2: "ccask_datafile_iter_open (cf_id f) w1 = (r, w2)" by fastforce
  note op = ccask_datafile_iter_open_result [OF w2 inv1]
  have "r \<noteq> None"
  proof -
    obtain fd' u where u: "attempt_fd (ccask_files_get_datafile_fd (cf_id f)) w1 = (fd', u)" by fastforce
    have "lookup_inode w ?dp \<noteq> None" using files_ok_exists [OF ok p] f by (simp add: id_of_def)
    then have "lookup_inode w1 ?dp \<noteq> None" using grows_lookup [OF g1] by fastforce
    then have "0 \<le> fd'"
      using attempt_open_no_fault [OF nf1 inv1 _ _ u [unfolded ccask_files_get_datafile_fd_def]] same1
      by (simp add: data_path_def)
    with w2 u show ?thesis by (auto simp: ccask_datafile_iter_open_def split: prod.splits)
  qed
  then obtain it where it: "r = Some it" by auto
  have dp1: "bytes_at w1 ?dp = encode_log es"
    using bytes grows_bytes [OF g1] by (simp add: data_bytes_def)
  have itf: "it_offset it = 0" "fd_on ?dp (it_fd it) w2" "it_total_size it = of_nat (log_size es)"
    using op(4) [OF it] same1 nf1 dp1 by (auto simp: iter_opened_def)
  have hfd2: "fd_on ?hp fd w2" using fd_on_grows [OF hfd op(1) inv1] .
  have wr2: "fd_writable (the (open_fds w2 fd))"
  proof -
    obtain d where "open_fds w1 fd = Some d" using hfd by (auto simp: fd_on_def)
    with grows_fds [OF op(1) inv1] wr1 show ?thesis by simp
  qed
  have "lookup_inode w ?hp = None" using new by (simp add: lookup_inode_def)
  then have hp2: "bytes_at w2 ?hp = []"
    using grows_bytes [OF g1] grows_bytes [OF op(1)] by (simp add: bytes_at_def)
  have nf2: "fault_script w2 = []" using grows_no_fault [OF op(1) nf1] .
  have dp2: "bytes_at w2 ?dp = encode_log es" using dp1 grows_bytes [OF op(1)] by simp
  have room2: "length (bytes_at w2 ?hp) + length (hints_of es) \<le> max_file_size" using hp2 room by simp
  obtain w3 where w3: "iter_loop ccask_datafile_iter_next (hint_body fd) it w2 = Some (True, w3)"
    and app: "appends ?hp (hints_of es) w2 w3"
    by (rule generator_loop_ok [OF nf2 op(2) hfd2 wr2 itf(2) hint_path_data_path dp2 es size itf(1,3) room2])
  let ?w4 = "sys_close fd (ccask_datafile_iter_close it w3)"
  have "posix.more ?w4 = posix.more w"
    using m1 op(3) appends_fields(6) [OF app] by (simp add: ccask_datafile_iter_close_def sys_close_def)
  then have "file_heap ?w4 p = Some f" using same_files_fields(6) f by metis
  then have "hintfile_generator_thread p w
      = Some (?w4\<lparr>file_heap := (file_heap ?w4)(p \<mapsto> f\<lparr>cf_has_hint := True\<rparr>)\<rparr>)" (is "_ = Some ?w5")
    using f w1 w2 fd it w3 by (simp add: hintfile_generator_thread_def write_file_def Let_def)
  moreover have "bytes_at ?w5 ?hp = bytes_at w3 ?hp"
    by (rule bytes_at_cong) (simp_all add: ccask_datafile_iter_close_def sys_close_def)
  moreover have "bytes_at w3 ?hp = hints_of es" using appends_bytes [OF app op(2)] hp2 by simp
  moreover have "lookup_inode ?w5 ?hp = lookup_inode w3 ?hp"
    by (rule lookup_inode_cong) (simp add: ccask_datafile_iter_close_def sys_close_def)
  moreover have "lookup_inode w3 ?hp \<noteq> None" using hfd2 by (auto simp: fd_on_def appends_fields [OF app])
  moreover have "fault_script ?w5 = []"
    using appends_no_fault [OF app nf2] by (simp add: ccask_datafile_iter_close_def sys_close_def)
  ultimately show thesis using that by simp
qed

section \<open>Properties\<close>

text \<open>
  C17: whatever fails, the generator thread keeps all datafiles, whatever they hold; and if it marks
  a file that is a log as hinted, the hintfile has grown by the hints of a first part of the records,
  in their order.
\<close>

theorem hint_thread_writes_prefix:
  assumes "hintfile_generator_thread p w = Some w'" and "files_ok w ps" and "p \<in> set ps"
    and "file_heap w p = Some f" and "\<not> cf_has_hint f"
  shows "files_ok w' ps \<and> (\<forall>i. data_bytes w' i = data_bytes w i)
    \<and> (\<forall>g es. file_heap w' p = Some g \<longrightarrow> cf_has_hint g \<longrightarrow> data_bytes w (cf_id f) = encode_log es \<longrightarrow>
         (\<forall>e \<in> set es. ent_ok e \<and> hintable e) \<longrightarrow> log_size es < 2 ^ 63 \<longrightarrow>
         (\<exists>k \<le> length es. bytes_at w' (hint_path (data_dir w) (cf_id f))
           = bytes_at w (hint_path (data_dir w) (cf_id f)) @ hints_of (take k es)))"
  using hintfile_generator_thread_result [OF assms(1-4)] assms(5) by blast


lemma demo_hint_setting:
  "data_bytes (demo_files (encode_log [small_entry]) x) (cf_id demo_node) = encode_log [small_entry]"
  "\<forall>e \<in> set [small_entry]. ent_ok e \<and> hintable e" "log_size [small_entry] < 2 ^ 63"
  "map_of (dir_entries (demo_files bs x)) (hint_path (data_dir (demo_files bs x)) (cf_id demo_node)) = None"
  "length (hints_of [small_entry]) \<le> max_file_size" "0 \<in> set [0 :: nat]"
  "file_heap (demo_files bs x) 0 = Some demo_node"
  by (simp_all add: demo_data_bytes small_entry_def ent_ok_def ent_size_def hintable_def hints_of_def
      encode_hints_def encode_hint_def max_file_size_def hint_path_data_path)


theorem hint_thread_writes_prefix_witness:
  "\<exists>w' k. hintfile_generator_thread 0 (demo_files (encode_log [small_entry]) ()) = Some w'
    \<and> bytes_at w' (hint_path ''d'' 0) = hints_of (take k [small_entry])"
proof -
  have nf: "fault_script (demo_files (encode_log [small_entry]) ()) = []" and nh: "\<not> cf_has_hint demo_node" by simp_all
  obtain w' where w': "hintfile_generator_thread 0 (demo_files (encode_log [small_entry]) ()) = Some w'"
    and m: "file_heap w' 0 = Some (demo_node\<lparr>cf_has_hint := True\<rparr>)"
    using hintfile_generator_thread_no_fault [OF nf demo_files_ok demo_hint_setting(6,7,1-5)] by blast
  have "bytes_at (demo_files (encode_log [small_entry]) ()) (hint_path ''d'' 0) = []"
    using demo_hint_setting(4) [of "encode_log [small_entry]" "()"] by (simp add: bytes_at_def lookup_inode_def)
  with hint_thread_writes_prefix [OF w' demo_files_ok demo_hint_setting(6,7) nh] w' m demo_hint_setting(1-3)
  show ?thesis by fastforce
qed

end
