(* ===== verification/Writer.thy ===== *)
theory Writer
  imports Ringbuf Hint Keydir
begin

text \<open>
  src/writer.c: writing a record to the active datafile, with rotation when it is full, and the
  writer thread that drains the ring buffer.
\<close>

section \<open>State and operations\<close>

text \<open>\<open>wr_thread\<close>: the writer thread has been started and has not been joined.\<close>

record writer_state = keydir_state +
  wr_ringbuf :: "ringbuf option"
  wr_thread :: bool

text \<open>
  The result of the rotation is ignored.  A record that is larger than a whole datafile makes the
  function rotate for ever.
\<close>

partial_function (option) ccask_write_record_blocking ::
  "datafile_record \<Rightarrow> 'a keydir_state_scheme \<Rightarrow> (ccask_status \<times> 'a keydir_state_scheme) option" where
  "ccask_write_record_blocking record w = do {
     file \<leftarrow> ccask_files_get_active_file w;
     f \<leftarrow> file_heap w file;
     case sys_lseek_end (cf_fd f) w of
       (Inl e, w1) \<Rightarrow> Some (CCASK_FAIL, w1)
     | (Inr pos, w1) \<Rightarrow>
         (if max_active_file_size w1 < of_nat pos + ccask_get_datafile_record_total_size record
          then do {
            (rotated, w2) \<leftarrow> ccask_files_rotate w1;
            ccask_write_record_blocking record w2 }
          else do {
            (res, w2) \<leftarrow> safe_writev (cf_fd f) (datafile_record_iov record) w1;
            if res \<noteq> CCASK_OK then Some (CCASK_FAIL, w2)
            else let header = ccask_get_datafile_record_header record;
                     key = ccask_get_datafile_record_key record
                 in do {
                   (res, w3) \<leftarrow> ccask_attempt_opt 5 CCASK_RETRY
                     (ccask_keydir_upsert key (key_size header) (cf_id f) (of_nat pos)
                        (value_size header) (timestamp header)) w2;
                   Some (if res \<noteq> CCASK_OK then CCASK_FAIL else CCASK_OK, w3) } }) }"

text \<open>
  One round of \<open>writer_thread_main\<close>: whether the thread goes on.  The status of the write is ignored.
  \<open>None\<close> when the round has to wait or does not return.
\<close>

definition writer_thread_round :: "'a writer_state_scheme \<Rightarrow> (bool \<times> 'a writer_state_scheme) option" where
  "writer_thread_round w = do {
     rb \<leftarrow> wr_ringbuf w;
     (res, record, rb') \<leftarrow> ccask_writer_ringbuf_pop rb;
     let w1 = w\<lparr>wr_ringbuf := Some rb'\<rparr>;
     if res \<noteq> CCASK_OK then Some (False, w1)
     else do {
       r \<leftarrow> record;
       (st, w2) \<leftarrow> ccask_write_record_blocking r w1;
       Some (True, w2) } }"

text \<open>The thread after the shutdown of the buffer has begun: it drains the buffer and ends.\<close>

partial_function (option) writer_thread_main :: "'a writer_state_scheme \<Rightarrow> 'a writer_state_scheme option" where
  "writer_thread_main w = do {
     (go, w') \<leftarrow> writer_thread_round w;
     if go then writer_thread_main w' else Some w' }"

text \<open>The mutex and the array are destroyed with the buffer; no thread uses them any more.\<close>

definition ccask_writer_ringbuf_destroy :: "'a writer_state_scheme \<Rightarrow> 'a writer_state_scheme" where
  "ccask_writer_ringbuf_destroy w = w\<lparr>wr_ringbuf := None\<rparr>"

definition ccask_writer_start :: "u64 \<Rightarrow> 'a writer_state_scheme \<Rightarrow> ccask_status \<times> 'a writer_state_scheme" where
  "ccask_writer_start cap w =
     (case ccask_writer_ringbuf_init cap w of
        ((st, rb), w1) \<Rightarrow>
          if st \<noteq> CCASK_OK then (CCASK_FAIL, w1\<lparr>wr_ringbuf := rb\<rparr>)
          else (case attempt_pthread_create (w1\<lparr>wr_ringbuf := rb\<rparr>) of
             (res, w2) \<Rightarrow>
               if res \<noteq> 0
               then (CCASK_FAIL, set_errno CCASK_ERR_COULDNT_START_THREAD (ccask_writer_ringbuf_destroy w2))
               else (CCASK_OK, w2\<lparr>wr_thread := True\<rparr>)))"

text \<open>
  \<open>ccask_writer_stop\<close>: the buffer is shut down, and the join waits until the thread has drained it.
  The buffer is freed.
\<close>

definition ccask_writer_stop :: "'a writer_state_scheme \<Rightarrow> 'a writer_state_scheme option" where
  "ccask_writer_stop w = do {
     rb \<leftarrow> wr_ringbuf w;
     rb' \<leftarrow> ccask_writer_ringbuf_start_shutdown rb;
     w' \<leftarrow> writer_thread_main (w\<lparr>wr_ringbuf := Some rb'\<rparr>);
     Some ((ccask_writer_ringbuf_destroy w')\<lparr>wr_thread := False\<rparr>) }"


section \<open>The active file\<close>

lemma files_ok_active:
  assumes ok: "files_ok w (p # ps)"
  obtains f where "ccask_files_get_active_file w = Some p" and "file_heap w p = Some f"
    and "fd_on (data_path (data_dir w) (cf_id f)) (cf_fd f) w" and "fd_writable (the (open_fds w (cf_fd f)))"
    and "id_of (file_heap w) p = cf_id f"
proof -
  obtain f where f: "file_heap w p = Some f"
    using ok files_rep_allocated by (force simp: files_ok_def)
  have nodes: "nodes_ok (data_dir w) w (unlinked f # file_nodes (file_heap w) ps)"
    using ok f by (simp add: files_ok_def)
  then have "node_ok (data_dir w) w (unlinked f)" "0 \<le> cf_fd f"
    "\<exists>d. open_fds w (cf_fd f) = Some d \<and> fd_writable d"
    by (simp_all add: nodes_ok_def)
  then have "fd_on (data_path (data_dir w) (cf_id f)) (cf_fd f) w" "fd_writable (the (open_fds w (cf_fd f)))"
    by (auto simp: node_ok_def fd_on_def)
  moreover have "ccask_files_get_active_file w = Some p"
    using ok files_list_head by (auto simp: files_ok_def files_rep_def ccask_files_get_active_file_def)
  ultimately show thesis using that f by simp
qed

lemma lseek_appends:
  assumes "sys_lseek_end fd w = (r, w')" and "fd_on path fd w"
  shows "appends path [] w w'" and "r = Inr pos \<Longrightarrow> pos = length (bytes_at w path)"
proof -
  obtain f u where f: "next_fault w = (f, u)" by fastforce
  then obtain fs where u: "u = w\<lparr>fault_script := fs\<rparr>" "length fs \<le> length (fault_script w)"
    using next_faultE by blast
  obtain d where d: "open_fds w fd = Some d" "lookup_inode w path = Some (fd_inode d)"
    using assms(2) by (auto simp: fd_on_def)
  have "\<exists>offs. w' = w\<lparr>fault_script := fs, fd_offsets := offs\<rparr> \<and> (\<forall>pos. r = Inr pos \<longrightarrow> pos = length (inode_data w (fd_inode d)))"
  proof (cases f)
    case (Fault e)
    with assms(1) f u show ?thesis
      by (intro exI [of _ "fd_offsets w"]) (auto simp: sys_lseek_end_def)
  qed (use assms(1) f u d in \<open>auto simp: sys_lseek_end_def Let_def\<close>)
  then obtain offs where w': "w' = w\<lparr>fault_script := fs, fd_offsets := offs\<rparr>"
    and r: "\<forall>pos. r = Inr pos \<longrightarrow> pos = length (inode_data w (fd_inode d))" by blast
  show "appends path [] w w'"
    unfolding appends_def using d(2) u(2) w'
    by (intro exI [of _ "fd_inode d"] exI [of _ fs] exI [of _ offs] exI [of _ "ccask_errno w"]) (cases w; simp)
  show "r = Inr pos \<Longrightarrow> pos = length (bytes_at w path)" using r d(2) by (simp add: bytes_at_def)
qed


section \<open>What writing a record does\<close>

text \<open>
  The outcome of writing the entry \<open>e\<close>: the file table has at most new active files in front, some
  first bytes of the record have been appended to the active datafile, and the directory is updated
  exactly when the result is CCASK_OK, which means that the whole record has been written.
\<close>

definition write_outcome ::
  "entry \<Rightarrow> ccask_status \<Rightarrow> nat list \<Rightarrow> 'a keydir_state_scheme \<Rightarrow> 'a keydir_state_scheme \<Rightarrow> bool" where
  "write_outcome e st ps w w' \<longleftrightarrow> (\<exists>qs bs i.
     files_ok w' (qs @ ps) \<and> keydir_inv w' \<and> data_dir w' = data_dir w
     \<and> max_active_file_size w' = max_active_file_size w \<and> kd_readers w' = kd_readers w
     \<and> keydir_state.more w' = keydir_state.more w \<and> length (fault_script w') \<le> length (fault_script w)
     \<and> (\<forall>p \<in> set ps. id_of (file_heap w') p = id_of (file_heap w) p)
     \<and> i = id_of (file_heap w') (hd (qs @ ps))
     \<and> (\<forall>j. data_bytes w' j = data_bytes w j @ (if j = i then bs else []))
     \<and> length bs \<le> ent_size e
     \<and> (bs \<noteq> [] \<longrightarrow> length (data_bytes w i) + ent_size e \<le> unat (max_active_file_size w))
     \<and> (st = CCASK_OK \<longrightarrow> bs = encode_entry e)
     \<and> st \<noteq> CCASK_RETRY
     \<and> kd_lookup w' = (if st = CCASK_OK
         then (kd_lookup w)(ent_key e \<mapsto> entry_location i (length (data_bytes w i)) e) else kd_lookup w))"

text \<open>Preparations that add no data do not change what the outcome says.\<close>

lemma write_outcome_after:
  assumes out: "write_outcome e st (rs @ ps) u w'"
    and data: "\<And>j. data_bytes u j = data_bytes w j" and look: "kd_lookup u = kd_lookup w"
    and ids: "\<And>p. p \<in> set ps \<Longrightarrow> id_of (file_heap u) p = id_of (file_heap w) p"
    and same: "data_dir u = data_dir w" "max_active_file_size u = max_active_file_size w"
      "kd_readers u = kd_readers w" "keydir_state.more u = keydir_state.more w"
      "length (fault_script u) \<le> length (fault_script w)"
  shows "write_outcome e st ps w w'"
proof -
  obtain qs bs i where o: "files_ok w' (qs @ rs @ ps)" "keydir_inv w'" "data_dir w' = data_dir u"
    "max_active_file_size w' = max_active_file_size u" "kd_readers w' = kd_readers u"
    "keydir_state.more w' = keydir_state.more u" "length (fault_script w') \<le> length (fault_script u)"
    "\<forall>p \<in> set (rs @ ps). id_of (file_heap w') p = id_of (file_heap u) p"
    "i = id_of (file_heap w') (hd (qs @ rs @ ps))"
    "\<forall>j. data_bytes w' j = data_bytes u j @ (if j = i then bs else [])" "length bs \<le> ent_size e"
    "bs \<noteq> [] \<longrightarrow> length (data_bytes u i) + ent_size e \<le> unat (max_active_file_size u)"
    "st = CCASK_OK \<longrightarrow> bs = encode_entry e" "st \<noteq> CCASK_RETRY"
    "kd_lookup w' = (if st = CCASK_OK
         then (kd_lookup u)(ent_key e \<mapsto> entry_location i (length (data_bytes u i)) e) else kd_lookup u)"
    using out unfolding write_outcome_def by blast
  show ?thesis
    unfolding write_outcome_def
    by (rule exI [of _ "qs @ rs"], rule exI [of _ bs], rule exI [of _ i])
       (use o data look ids same in simp_all)
qed


lemma more_kd:
  assumes "files_state.more w' = files_state.more w"
  shows "kd_table w' = kd_table w" "kd_heap w' = kd_heap w" "kd_next_ptr w' = kd_next_ptr w"
    "kd_readers w' = kd_readers w" "keydir_state.more w' = keydir_state.more w"
  using assms by (cases w; cases w'; simp)+

lemma more_kd_inv:
  assumes "files_state.more w' = files_state.more w"
  shows "keydir_inv w' = keydir_inv w" and "kd_lookup w' = kd_lookup w"
  using more_kd [OF assms] by (simp_all add: keydir_inv_def kd_lookup_def fun_eq_iff)

lemma data_bytes_appends:
  assumes "appends (data_path (data_dir w) i) bs w w'" and "posix_inv w"
  shows "data_bytes w' j = data_bytes w j @ (if j = i then bs else [])"
  using appends_bytes [OF assms] same_files_fields(2) [OF appends_fields(6) [OF assms(1)]]
  by (simp add: data_bytes_def)

text \<open>The update of the directory after the record has been written.\<close>

lemma write_outcome_here:
  assumes ok: "files_ok w (p # ps)" and kdi: "keydir_inv w" and i: "i = id_of (file_heap w) p"
    and a: "appends (data_path (data_dir w) i) bs w u" and kf: "kd_frame u w'" and kdi': "keydir_inv w'"
    and bs: "length bs \<le> ent_size e" "bs \<noteq> [] \<longrightarrow> length (data_bytes w i) + ent_size e \<le> unat (max_active_file_size w)"
    and st: "st = CCASK_OK \<longrightarrow> bs = encode_entry e" "st \<noteq> CCASK_RETRY"
    and look: "kd_lookup w' = (if st = CCASK_OK
         then (kd_lookup w)(ent_key e \<mapsto> entry_location i (length (data_bytes w i)) e) else kd_lookup w)"
  shows "write_outcome e st (p # ps) w w'"
proof -
  have inv: "posix_inv w" using ok by (simp add: files_ok_def)
  note sa = same_files_fields [OF appends_fields(6) [OF a]]
  note sk = kd_frame_same [OF kf]
  have "files_ok u (p # ps)" using ok a by (rule files_ok_appends)
  moreover have "nodes_ok d w' fs = nodes_ok d u fs" for d fs
    using sk(1,4) by (simp add: nodes_ok_def node_ok_def lookup_inode_def split: list.splits)
  ultimately have "files_ok w' (p # ps)"
    using sk same_files_rep [OF kd_frame_files [OF kf]] kd_frame_posix_inv [OF kf]
    by (simp add: files_ok_def)
  moreover have "data_bytes w' j = data_bytes w j @ (if j = i then bs else [])" for j
    using data_bytes_appends [OF a inv] bytes_at_cong [OF sk(1,2)] sk by (simp add: data_bytes_def)
  moreover have "id_of (file_heap w') q = id_of (file_heap w) q" for q using sa sk by simp
  moreover have "kd_readers w' = kd_readers w" "keydir_state.more w' = keydir_state.more w"
    using more_kd [OF sa(11)] sk by simp_all
  moreover have "length (fault_script w') \<le> length (fault_script w)"
    using appends_fields(10) [OF a] kd_frame_grows [OF kf] by (simp add: grows_def)
  ultimately show ?thesis
    unfolding write_outcome_def
    by (intro exI [of _ "[]"] exI [of _ bs] exI [of _ i]) (use kdi' bs st look i sa sk in simp_all)
qed

text \<open>
  One call, without the recursive one.  The offset and the size of the record do not overflow.
\<close>

lemma record_fits:
  assumes "pos \<le> max_file_size" and "ent_size e < 2 ^ 32"
  shows "max_active < of_nat pos + ccask_get_datafile_record_total_size (ent_record e)
    \<longleftrightarrow> unat max_active < pos + ent_size e"
proof -
  have "ccask_get_datafile_record_total_size (ent_record e) = of_nat (ent_size e)"
    by (simp add: ccask_get_datafile_record_total_size_def ent_record_def ent_size_def)
  moreover have "unat (of_nat (pos + ent_size e) :: u64) = pos + ent_size e"
    using assms by (intro unat_of_nat_64) (simp add: max_file_size_def)
  ultimately show ?thesis by (simp add: word_less_nat_alt flip: of_nat_add)
qed

text \<open>What the recursion needs: there is a next file number, or the active file is still empty.\<close>

definition write_ready :: "entry \<Rightarrow> nat \<Rightarrow> 'a keydir_state_scheme \<Rightarrow> bool" where
  "write_ready e p w \<longleftrightarrow> keydir_inv w \<and> ent_ok e
     \<and> ent_size e \<le> unat (max_active_file_size w)
     \<and> length (data_bytes w (id_of (file_heap w) p)) \<le> max_file_size
     \<and> (id_of (file_heap w) p + 1 \<noteq> 0 \<or> data_bytes w (id_of (file_heap w) p) = [])"

lemma active_newer_absent:
  assumes "files_ok w (p # ps)" and "id_of (file_heap w) p < j"
  shows "map_of (dir_entries w) (data_path (data_dir w) j) = None"
proof -
  obtain f where f: "file_heap w p = Some f" using files_ok_active [OF assms(1)] by metis
  have "nodes_ok (data_dir w) w (unlinked f # file_nodes (file_heap w) ps)"
    using assms(1) f by (simp add: files_ok_def)
  with assms(2) f show ?thesis by (simp add: nodes_ok_def)
qed

lemma active_newer_empty:
  "files_ok w (p # ps) \<Longrightarrow> id_of (file_heap w) p < j \<Longrightarrow> data_bytes w j = []"
  by (simp add: active_newer_absent data_bytes_def bytes_at_def lookup_inode_def)

text \<open>A rotation, whatever its result, leaves the state ready for the next attempt.\<close>

lemma rotate_ready:
  assumes rot: "ccask_files_rotate w = Some (x, u)" and ok: "files_ok w (p # ps)"
    and ready: "write_ready e p w" and room: "id_of (file_heap w) p + 1 \<noteq> 0"
  obtains rs q qs where "rs @ p # ps = q # qs" and "files_ok u (q # qs)" and "write_ready e q u"
    and "\<And>j. data_bytes u j = data_bytes w j" and "files_state.more u = files_state.more w"
    and "\<And>r. r \<in> set (p # ps) \<Longrightarrow> id_of (file_heap u) r = id_of (file_heap w) r"
    and "data_dir u = data_dir w" and "max_active_file_size u = max_active_file_size w"
    and "length (fault_script u) \<le> length (fault_script w)"
proof (cases rule: ccask_files_rotate_result [OF ok rot room, case_names failed rotated])
  case failed
  have "data_bytes u j = data_bytes w j" for j using data_bytes_grows [OF failed(3,5)] .
  moreover have "write_ready e p u"
    using ready failed(4,6) calculation more_kd_inv(1) [OF failed(7)] by (simp add: write_ready_def)
  moreover have "length (fault_script u) \<le> length (fault_script w)" using failed(3) by (simp add: grows_def)
  ultimately show thesis using that [of "[]" p ps] failed by simp
next
  case (rotated q f)
  have idp: "id_of (file_heap w) p = cf_id f" using rotated(3) by simp
  have data: "data_bytes u j = data_bytes w j" for j using data_bytes_grows [OF rotated(4,8)] .
  have "cf_id f < cf_id f + 1" using room idp u64_less_inc by simp
  then have "data_bytes w (cf_id f + 1) = []" using active_newer_empty [OF ok] idp by simp
  then have "write_ready e q u"
    using ready rotated(5,9) data more_kd_inv(1) [OF rotated(10)] by (simp add: write_ready_def)
  moreover have "length (fault_script u) \<le> length (fault_script w)" using rotated(4) by (simp add: grows_def)
  ultimately show thesis using that [of "[q]" q "p # ps"] rotated data by simp
qed

text \<open>The part after the check of the size.\<close>

lemma write_tail:
  assumes ok: "files_ok w (p # ps)" and ready: "write_ready e p w" and f: "file_heap w p = Some f"
    and fdon: "fd_on (data_path (data_dir w) (cf_id f)) (cf_fd f) w"
    and a: "appends (data_path (data_dir w) (cf_id f)) [] w w1"
    and pos: "pos = length (data_bytes w (cf_id f))"
    and fit: "pos + ent_size e \<le> unat (max_active_file_size w)"
    and sw: "safe_writev (cf_fd f) (datafile_record_iov (ent_record e)) w1 = Some (x, w2)"
    and tail: "(if x \<noteq> CCASK_OK then Some (CCASK_FAIL, w2)
      else do { (y, w3) \<leftarrow> ccask_attempt_opt 5 CCASK_RETRY
                  (kd_upsert (ent_key e) (entry_location (cf_id f) pos e)) w2;
                Some (if y \<noteq> CCASK_OK then CCASK_FAIL else CCASK_OK, w3) }) = Some (st, w')"
  shows "write_outcome e st (p # ps) w w'"
proof -
  let ?dp = "data_path (data_dir w) (cf_id f)"
  have kdi: "keydir_inv w" and key: "length (ent_key e) < 2 ^ 32"
    using ready by (simp_all add: write_ready_def ent_ok_def ent_size_def)
  have fd1: "fd_on ?dp (cf_fd f) w1" using fdon by (simp add: appends_fields [OF a])
  obtain k where k: "appends ?dp (take k (encode_entry e)) w1 w2"
    "x = CCASK_OK \<Longrightarrow> appends ?dp (encode_entry e) w1 w2"
    using safe_writev_appends [OF sw ent_record_wf fd1] by auto
  note a2 = appends_trans [OF a k(1), simplified]
  have more2: "posix.more w2 = posix.more w" using appends_fields(6) [OF a2] .
  note kd2 = more_kd_inv [OF same_files_fields(11) [OF more2]]
  have i: "cf_id f = id_of (file_heap w) p" using f by simp
  show ?thesis
  proof (cases "x = CCASK_OK")
    case False
    then have st: "st = CCASK_FAIL" "w' = w2" using tail by simp_all
    show ?thesis
      by (rule write_outcome_here [OF ok kdi i a2]) (use st fit pos kdi kd2 in \<open>simp_all add: i\<close>)
  next
    case True
    obtain y where y: "ccask_attempt_opt 5 CCASK_RETRY (kd_upsert (ent_key e) (entry_location (cf_id f) pos e)) w2
        = Some (y, w')" and st: "st = (if y \<noteq> CCASK_OK then CCASK_FAIL else CCASK_OK)"
      using tail True by (auto simp: bind_eq_Some_conv)
    have kf: "kd_frame w2 w'" using y attempt_upsert_frame by (simp add: kd_upsert_def [abs_def])
    have kdi2: "keydir_inv w2" using kdi kd2 by simp
    note up = kd.attempt_upsert [OF y kdi2 key]
    note a3 = appends_trans [OF a k(2) [OF True], simplified]
    show ?thesis
      by (rule write_outcome_here [OF ok kdi i a3 kf up(1)]) (use st fit pos up(2) kd2 in \<open>simp_all add: i\<close>)
  qed
qed

lemma write_result:
  assumes run: "ccask_write_record_blocking (ent_record e) w = Some (st, w')"
    and ok: "files_ok w (p # ps)" and ready: "write_ready e p w"
  shows "write_outcome e st (p # ps) w w'"
proof -
  have "\<forall>p ps. r = ent_record e \<longrightarrow> files_ok v (p # ps) \<longrightarrow> write_ready e p v
      \<longrightarrow> write_outcome e (fst res) (p # ps) v (snd res)"
    if "ccask_write_record_blocking r v = Some res" for r v res
    apply (rule ccask_write_record_blocking.raw_induct [where P = "\<lambda>r v res. \<forall>p ps. r = ent_record e
        \<longrightarrow> files_ok v (p # ps) \<longrightarrow> write_ready e p v \<longrightarrow> write_outcome e (fst res) (p # ps) v (snd res)",
        OF _ that])
    apply (intro allI impI)
    subgoal premises prems for self r v res p ps
    proof -
      note IH = prems(1) and body = prems(2) and r = prems(3) and ok = prems(4) and ready = prems(5)
      obtain st w' where res: "res = (st, w')" by fastforce
      obtain f where act: "ccask_files_get_active_file v = Some p" and f: "file_heap v p = Some f"
        and fdon: "fd_on (data_path (data_dir v) (cf_id f)) (cf_fd f) v" and idf: "id_of (file_heap v) p = cf_id f"
        using files_ok_active [OF ok] by metis
      let ?dp = "data_path (data_dir v) (cf_id f)"
      obtain sk w1 where sk: "sys_lseek_end (cf_fd f) v = (sk, w1)" by fastforce
      note ls = lseek_appends [OF sk fdon]
      note more1 = same_files_fields [OF appends_fields(6) [OF ls(1)]]
      note kd1 = more_kd_inv [OF more1(11)]
      have kdi: "keydir_inv v" using ready by (simp add: write_ready_def)
      have inv: "posix_inv v" using ok by (simp add: files_ok_def)
      show ?thesis
      proof (cases sk)
        case (Inl err)
        then have "st = CCASK_FAIL" "w' = w1" using body act f sk res by simp_all
        with res show ?thesis
          using write_outcome_here [OF ok kdi _ ls(1) kd_frame_refl, of e CCASK_FAIL] idf kdi kd1 by simp
      next
        case (Inr pos)
        have pos: "pos = length (data_bytes v (cf_id f))" using ls(2) [OF Inr] by (simp add: data_bytes_def)
        have fits: "max_active_file_size v < of_nat pos + ccask_get_datafile_record_total_size r
            \<longleftrightarrow> unat (max_active_file_size v) < pos + ent_size e"
          unfolding r by (rule record_fits) (use ready pos idf in \<open>simp_all add: write_ready_def ent_ok_def\<close>)
        show ?thesis
        proof (cases "unat (max_active_file_size v) < pos + ent_size e")
          case True
          then obtain x u where x: "ccask_files_rotate w1 = Some (x, u)" "self r u = Some res"
            using body act f sk Inr fits more1(1) by (auto simp: bind_eq_Some_conv)
          have ok1: "files_ok w1 (p # ps)" using files_ok_appends [OF ok ls(1)] .
          have data1: "data_bytes w1 j = data_bytes v j" for j
            using data_bytes_appends [OF ls(1) inv] by simp
          have ready1: "write_ready e p w1" and room: "id_of (file_heap w1) p + 1 \<noteq> 0"
            using ready True pos idf data1 more1 kd1 by (auto simp: write_ready_def)
          obtain rs q qs where rs: "rs @ p # ps = q # qs" and ok2: "files_ok u (q # qs)" "write_ready e q u"
            and u: "\<And>j. data_bytes u j = data_bytes w1 j" "files_state.more u = files_state.more w1"
              "\<And>r. r \<in> set (p # ps) \<Longrightarrow> id_of (file_heap u) r = id_of (file_heap w1) r"
              "data_dir u = data_dir w1" "max_active_file_size u = max_active_file_size w1"
              "length (fault_script u) \<le> length (fault_script w1)"
            using rotate_ready [OF x(1) ok1 ready1 room] by blast
          have "write_outcome e st (rs @ p # ps) u w'"
            using IH [OF x(2)] r ok2 rs res by auto
          then show ?thesis
            unfolding res fst_conv snd_conv
            by (rule write_outcome_after)
               (use u data1 more1 kd1 more_kd [OF u(2)] more_kd [OF more1(11)] more_kd_inv [OF u(2)]
                 appends_fields(10) [OF ls(1)] in simp_all)
        next
          case False
          then obtain x w2 where sw: "safe_writev (cf_fd f) (datafile_record_iov (ent_record e)) w1 = Some (x, w2)"
            and tail: "(if x \<noteq> CCASK_OK then Some (CCASK_FAIL, w2)
              else do { (y, w3) \<leftarrow> ccask_attempt_opt 5 CCASK_RETRY
                          (kd_upsert (ent_key e) (entry_location (cf_id f) pos e)) w2;
                        Some (if y \<noteq> CCASK_OK then CCASK_FAIL else CCASK_OK, w3) }) = Some (st, w')"
            using body act f sk Inr fits more1(1) r res
            by (auto simp: bind_eq_Some_conv kd_upsert_def [abs_def] entry_location_def ent_header_def Let_def
                split: if_splits)
          show ?thesis
            unfolding res fst_conv snd_conv
            by (rule write_tail [OF ok ready f fdon ls(1) pos _ sw tail]) (use False in simp)
        qed
      qed
    qed
    done
  then show ?thesis using assms by fastforce
qed


section \<open>Without faults a record that fits a datafile is written\<close>

lemma ent_record_open_end: "ent_ok e \<Longrightarrow> iov_open_end (datafile_record_iov (ent_record e))"
  by (simp add: ent_ok_def iov_open_end_def datafile_record_iov_def ent_record_def)

text \<open>An update that returns succeeds; it waits while a key iterator is open.\<close>

lemma attempt_upsert_calm:
  assumes "fault_script w = []" and "keydir_inv w" and "length k < 2 ^ 32"
    and "ccask_attempt_opt 5 CCASK_RETRY (kd_upsert k l) w = Some (st, w')"
  shows "st = CCASK_OK"
proof (cases "kd_readers w = 0")
  case True
  obtain u where "kd_upsert k l w = Some (CCASK_OK, u)" using kd_upsert_no_fault [OF assms(1) True assms(2,3)] by blast
  then have "ccask_attempt_opt 5 CCASK_RETRY (kd_upsert k l) w = Some (CCASK_OK, u)"
    by (intro ccask_attempt_opt_done) simp_all
  with assms(4) show ?thesis by simp
next
  case False
  then have "kd_upsert k l w = None" by (simp add: kd_upsert_def ccask_keydir_upsert_def kd_wrlock_def)
  with assms(4) show ?thesis by (simp add: numeral_eq_Suc)
qed

text \<open>The record fits the active file: the call is the append and the update of the directory.\<close>

lemma write_here_calm:
  assumes ok: "files_ok w (p # ps)" and ready: "write_ready e p w" and nf: "fault_script w = []"
    and max: "unat (max_active_file_size w) \<le> max_file_size"
    and fit: "length (data_bytes w (id_of (file_heap w) p)) + ent_size e \<le> unat (max_active_file_size w)"
  obtains u l where "ccask_write_record_blocking (ent_record e) w = do {
      (y, w3) \<leftarrow> ccask_attempt_opt 5 CCASK_RETRY (kd_upsert (ent_key e) l) u;
      Some (if y \<noteq> CCASK_OK then CCASK_FAIL else CCASK_OK, w3) }"
    and "appends (data_path (data_dir w) (id_of (file_heap w) p)) (encode_entry e) w u"
proof -
  obtain f where act: "ccask_files_get_active_file w = Some p" and f: "file_heap w p = Some f"
    and fdon: "fd_on (data_path (data_dir w) (cf_id f)) (cf_fd f) w"
    and wr: "fd_writable (the (open_fds w (cf_fd f)))" and idf: "id_of (file_heap w) p = cf_id f"
    using files_ok_active [OF ok] by metis
  let ?dp = "data_path (data_dir w) (cf_id f)" and ?pos = "length (data_bytes w (cf_id f))"
  have e: "ent_ok e" using ready by (simp add: write_ready_def)
  have inv: "posix_inv w" using ok by (simp add: files_ok_def)
  obtain d where d: "open_fds w (cf_fd f) = Some d" "lookup_inode w ?dp = Some (fd_inode d)"
    using fdon by (auto simp: fd_on_def)
  obtain w1 where sk: "sys_lseek_end (cf_fd f) w = (Inr ?pos, w1)"
    using sys_lseek_end_no_fault [OF nf d(1)] d by (simp add: data_bytes_def bytes_at_def)
  note a = lseek_appends(1) [OF sk fdon]
  note same1 = same_files_fields [OF appends_fields(6) [OF a]]
  have data1: "bytes_at w1 ?dp = data_bytes w (cf_id f)"
    using appends_bytes [OF a inv] by (simp add: data_bytes_def)
  have nf1: "fault_script w1 = []" using appends_no_fault [OF a nf] .
  have fd1: "fd_on ?dp (cf_fd f) w1" and wr1: "fd_writable (the (open_fds w1 (cf_fd f)))"
    using fdon wr by (simp_all add: appends_fields [OF a])
  have ne: "datafile_record_iov (ent_record e) \<noteq> []" by (simp add: datafile_record_iov_def)
  have room: "length (bytes_at w1 ?dp) + length (iov_bytes (datafile_record_iov (ent_record e))) \<le> max_file_size"
    using fit max idf by (simp add: data1)
  obtain w2 where w2: "safe_writev (cf_fd f) (datafile_record_iov (ent_record e)) w1 = Some (CCASK_OK, w2)"
    and a2: "appends ?dp (iov_bytes (datafile_record_iov (ent_record e))) w1 w2"
    using safe_writev_ok [OF nf1 fd1 wr1 ne ent_record_open_end [OF e] ent_record_wf room] by blast
  have "\<not> max_active_file_size w < of_nat ?pos + ccask_get_datafile_record_total_size (ent_record e)"
    using record_fits [of ?pos e "max_active_file_size w"] ready fit idf
    by (simp add: write_ready_def ent_ok_def)
  then have "ccask_write_record_blocking (ent_record e) w = do {
      (y, w3) \<leftarrow> ccask_attempt_opt 5 CCASK_RETRY (kd_upsert (ent_key e) (entry_location (cf_id f) ?pos e)) w2;
      Some (if y \<noteq> CCASK_OK then CCASK_FAIL else CCASK_OK, w3) }"
    using act f sk w2 same1(1)
    by (subst ccask_write_record_blocking.simps)
       (simp add: kd_upsert_def [abs_def] entry_location_def ent_header_def Let_def)
  moreover have "appends ?dp (encode_entry e) w w2" using appends_trans [OF a a2] by simp
  ultimately show thesis using that idf by simp
qed

text \<open>It does not fit: the call is the same call after a rotation, and then the record fits.\<close>

lemma write_rotate_calm:
  assumes ok: "files_ok w (p # ps)" and ready: "write_ready e p w" and nf: "fault_script w = []"
    and big: "\<not> length (data_bytes w (id_of (file_heap w) p)) + ent_size e \<le> unat (max_active_file_size w)"
  obtains q u F where "ccask_write_record_blocking (ent_record e) w = ccask_write_record_blocking (ent_record e) u"
    and "files_ok u (q # p # ps)" and "write_ready e q u" and "fault_script u = []"
    and "length (data_bytes u (id_of (file_heap u) q)) + ent_size e \<le> unat (max_active_file_size u)"
    and "grows {data_path (data_dir w) (id_of (file_heap w) p + 1)} F w u"
    and "data_dir u = data_dir w" and "max_active_file_size u = max_active_file_size w"
    and "files_state.more u = files_state.more w"
    and "hint_pending u = hint_pending w \<or> hint_pending u = p # hint_pending w"
    and "id_of (file_heap u) q = id_of (file_heap w) p + 1" and "has_hint_of (file_heap u) = has_hint_of (file_heap w)"
    and "\<not> has_hint_of (file_heap u) q"
proof -
  obtain f where act: "ccask_files_get_active_file w = Some p" and f: "file_heap w p = Some f"
    and fdon: "fd_on (data_path (data_dir w) (cf_id f)) (cf_fd f) w" and idf: "id_of (file_heap w) p = cf_id f"
    using files_ok_active [OF ok] by metis
  let ?dp = "data_path (data_dir w) (cf_id f)" and ?pos = "length (data_bytes w (cf_id f))"
  have inv: "posix_inv w" using ok by (simp add: files_ok_def)
  obtain d where d: "open_fds w (cf_fd f) = Some d" "lookup_inode w ?dp = Some (fd_inode d)"
    using fdon by (auto simp: fd_on_def)
  obtain w1 where sk: "sys_lseek_end (cf_fd f) w = (Inr ?pos, w1)"
    using sys_lseek_end_no_fault [OF nf d(1)] d by (simp add: data_bytes_def bytes_at_def)
  note a = lseek_appends(1) [OF sk fdon]
  note same1 = same_files_fields [OF appends_fields(6) [OF a]]
  note kd1 = more_kd [OF same1(11)] more_kd_inv [OF same1(11)]
  have ok1: "files_ok w1 (p # ps)" using files_ok_appends [OF ok a] .
  have nf1: "fault_script w1 = []" using appends_no_fault [OF a nf] .
  have data1: "data_bytes w1 j = data_bytes w j" for j using data_bytes_appends [OF a inv] by simp
  have g1: "grows {} {} w w1"
    using appends_bytes [OF a inv] appends_fields [OF a] by (simp add: grows_def)
  have ready1: "write_ready e p w1" and room: "id_of (file_heap w1) p + 1 \<noteq> 0"
    using ready big idf data1 same1 kd1 by (auto simp: write_ready_def)
  obtain u where rot: "ccask_files_rotate w1 = Some (CCASK_OK, u)"
    using ccask_files_rotate_no_fault [OF ok1 room nf1] by blast
  have over: "max_active_file_size w1 < of_nat ?pos + ccask_get_datafile_record_total_size (ent_record e)"
    using record_fits [of ?pos e "max_active_file_size w"] ready big idf same1
    by (simp add: write_ready_def ent_ok_def)
  have step: "ccask_write_record_blocking (ent_record e) w = ccask_write_record_blocking (ent_record e) u"
    using act f sk over rot by (subst ccask_write_record_blocking.simps) simp
  show thesis
  proof (cases rule: ccask_files_rotate_result [OF ok1 rot room, case_names failed rotated])
    case failed
    then show thesis by simp
  next
    case (rotated q g)
    have idg: "id_of (file_heap w1) p = cf_id g" using rotated(3) by simp
    have data: "data_bytes u j = data_bytes w1 j" for j using data_bytes_grows [OF rotated(4,8)] .
    have "cf_id g < cf_id g + 1" using room idg u64_less_inc by simp
    then have empty: "data_bytes u (id_of (file_heap u) q) = []"
      using active_newer_empty [OF ok1] idg data rotated(5) by simp
    have rq: "write_ready e q u"
      using ready1 empty rotated(9) more_kd_inv(1) [OF rotated(10)] by (simp add: write_ready_def)
    have "data_path (data_dir w1) (cf_id g + 1) = data_path (data_dir w) (id_of (file_heap w) p + 1)"
      using idg same1 by simp
    then have g: "grows {data_path (data_dir w) (id_of (file_heap w) p + 1)} {cf_fd g} w u"
      using grows_mono [OF g1, of "{data_path (data_dir w) (id_of (file_heap w) p + 1)}" "{cf_fd g}"] rotated(4)
        grows_trans_same by fastforce
    show thesis
      by (rule that [OF step rotated(2) rq grows_no_fault [OF rotated(4) nf1] _ g])
         (use empty rq rotated same1 in \<open>simp_all add: write_ready_def has_hint_of_def\<close>)
  qed
qed

text \<open>Together: the call succeeds unless it waits, and it touches nothing but datafiles.\<close>

lemma write_no_fault:
  assumes ok: "files_ok w (p # ps)" and ready: "write_ready e p w" and nf: "fault_script w = []"
    and rd: "kd_readers w = 0" and max: "unat (max_active_file_size w) \<le> max_file_size"
  shows "\<exists>w'. ccask_write_record_blocking (ent_record e) w = Some (CCASK_OK, w')"
proof -
  have here: "\<exists>w'. ccask_write_record_blocking (ent_record e) v = Some (CCASK_OK, w')"
    if v: "files_ok v (q # qs)" "write_ready e q v" "fault_script v = []" "unat (max_active_file_size v) \<le> max_file_size"
      "length (data_bytes v (id_of (file_heap v) q)) + ent_size e \<le> unat (max_active_file_size v)"
      and rdv: "kd_readers v = 0" for v :: "'a keydir_state_scheme" and q qs
  proof -
    obtain u l where wr: "ccask_write_record_blocking (ent_record e) v = do {
        (y, w3) \<leftarrow> ccask_attempt_opt 5 CCASK_RETRY (kd_upsert (ent_key e) l) u;
        Some (if y \<noteq> CCASK_OK then CCASK_FAIL else CCASK_OK, w3) }"
      and a: "appends (data_path (data_dir v) (id_of (file_heap v) q)) (encode_entry e) v u"
      by (rule write_here_calm [OF v])
    note kd = more_kd [OF same_files_fields(11) [OF appends_fields(6) [OF a]]]
      more_kd_inv [OF same_files_fields(11) [OF appends_fields(6) [OF a]]]
    have "keydir_inv u" "length (ent_key e) < 2 ^ 32" "kd_readers u = 0"
      using v(2) rdv kd by (simp_all add: write_ready_def ent_ok_def ent_size_def)
    then obtain w3 where "kd_upsert (ent_key e) l u = Some (CCASK_OK, w3)"
      using kd_upsert_no_fault [OF appends_no_fault [OF a v(3)]] by metis
    then have "ccask_attempt_opt 5 CCASK_RETRY (kd_upsert (ent_key e) l) u = Some (CCASK_OK, w3)"
      by (intro ccask_attempt_opt_done) simp_all
    with wr show ?thesis by simp
  qed
  show ?thesis
  proof (cases "length (data_bytes w (id_of (file_heap w) p)) + ent_size e \<le> unat (max_active_file_size w)")
    case True
    with assms show ?thesis by (intro here)
  next
    case False
    obtain q u F where u: "ccask_write_record_blocking (ent_record e) w = ccask_write_record_blocking (ent_record e) u"
      "files_ok u (q # p # ps)" "write_ready e q u" "fault_script u = []"
      "length (data_bytes u (id_of (file_heap u) q)) + ent_size e \<le> unat (max_active_file_size u)"
      "max_active_file_size u = max_active_file_size w" "files_state.more u = files_state.more w"
      by (rule write_rotate_calm [OF ok ready nf False])
    have "kd_readers u = 0" "unat (max_active_file_size u) \<le> max_file_size"
      using more_kd(4) [OF u(7)] rd max u(6) by simp_all
    then show ?thesis unfolding u(1) using here u by blast
  qed
qed

section \<open>Properties\<close>

text \<open>
  C12: whatever fails, a write that returns keeps datafiles and directory consistent, appends to the
  datafile that is then active and to no other, at most the bytes of the record, and the directory
  changes exactly if CCASK_OK is returned: the key is then located at the end of that datafile, where
  the complete record has been appended.
\<close>

theorem write_record_outcome:
  assumes "ccask_write_record_blocking (ent_record e) w = Some (st, w')" and "files_ok w (p # ps)"
    and "write_ready e p w"
  shows "\<exists>qs i bs. files_ok w' (qs @ p # ps) \<and> keydir_inv w' \<and> i = id_of (file_heap w') (hd (qs @ p # ps))
    \<and> (\<forall>j. data_bytes w' j = data_bytes w j @ (if j = i then bs else [])) \<and> length bs \<le> ent_size e
    \<and> (if st = CCASK_OK
       then bs = encode_entry e \<and> kd_lookup w' = (kd_lookup w)(ent_key e \<mapsto> entry_location i (length (data_bytes w i)) e)
       else kd_lookup w' = kd_lookup w)"
proof -
  obtain qs bs i where "files_ok w' (qs @ p # ps)" "keydir_inv w'" "i = id_of (file_heap w') (hd (qs @ p # ps))"
    "\<forall>j. data_bytes w' j = data_bytes w j @ (if j = i then bs else [])" "length bs \<le> ent_size e"
    "st = CCASK_OK \<longrightarrow> bs = encode_entry e"
    "kd_lookup w' = (if st = CCASK_OK
       then (kd_lookup w)(ent_key e \<mapsto> entry_location i (length (data_bytes w i)) e) else kd_lookup w)"
    using write_result [OF assms] unfolding write_outcome_def by blast
  then show ?thesis by (intro exI [of _ qs] exI [of _ i] exI [of _ bs]) simp
qed

lemma demo_keydir_files_ok: "files_ok (demo_keydir bs x) [0]"
  by (simp add: demo_keydir_def demo_files_ok)

lemma demo_keydir_data: "data_bytes (demo_keydir bs x) i = (if i = 0 then bs else [])"
  by (simp add: demo_keydir_def demo_data_bytes)

lemma demo_keydir_max: "max_active_file_size (demo_keydir bs x) = 1000"
  by (simp add: demo_keydir_def)

lemma demo_write_ready: "write_ready small_entry 0 (demo_keydir [] x)"
  using small_entry_facts demo_keydir_inv [of "[]" x]
  by (simp add: write_ready_def demo_keydir_def demo_data_bytes)

lemma demo_write:
  "\<exists>w'. ccask_write_record_blocking (ent_record small_entry) (demo_keydir [] x) = Some (CCASK_OK, w')"
  by (rule write_no_fault [OF demo_keydir_files_ok demo_write_ready])
     (simp_all add: max_file_size_def demo_keydir_max)

theorem write_record_outcome_witness:
  "\<exists>w' i. ccask_write_record_blocking (ent_record small_entry) (demo_keydir [] ()) = Some (CCASK_OK, w')
    \<and> kd_lookup w' [1, 2] = Some (entry_location i 0 small_entry)"
proof -
  obtain w' where w': "ccask_write_record_blocking (ent_record small_entry) (demo_keydir [] ()) = Some (CCASK_OK, w')"
    using demo_write [of "()"] by (elim exE)
  obtain i where "kd_lookup w' = (kd_lookup (demo_keydir [] ()))(ent_key small_entry \<mapsto>
      entry_location i (length (data_bytes (demo_keydir [] ()) i)) small_entry)"
    using write_record_outcome [OF w' demo_keydir_files_ok demo_write_ready]
    by (elim exE conjE) (rule that, simp only: simp_thms if_True)
  then have "kd_lookup w' [1, 2] = Some (entry_location i 0 small_entry)"
    by (simp add: demo_keydir_data small_entry_def)
  with w' show ?thesis by blast
qed

text \<open>
  Without faults, and with no open key iterator, a write of a record that fits a datafile
  returns CCASK_OK, after a rotation if the active datafile is too full.
\<close>

theorem write_record_succeeds:
  assumes "files_ok w (p # ps)" and "write_ready e p w" and "fault_script w = []" and "kd_readers w = 0"
    and "unat (max_active_file_size w) \<le> max_file_size"
  shows "\<exists>w'. ccask_write_record_blocking (ent_record e) w = Some (CCASK_OK, w')"
  using assms by (rule write_no_fault)

theorem write_record_succeeds_witness:
  "\<exists>w'. ccask_write_record_blocking (ent_record small_entry) (demo_keydir (replicate 990 0) ()) = Some (CCASK_OK, w')"
proof (rule write_record_succeeds)
  show "files_ok (demo_keydir (replicate 990 0) ()) [0]" by (rule demo_keydir_files_ok)
  show "kd_readers (demo_keydir (replicate 990 0) ()) = 0" "fault_script (demo_keydir (replicate 990 0) ()) = []"
    by simp_all
  show "write_ready small_entry 0 (demo_keydir (replicate 990 0) ())"
    using small_entry_facts demo_keydir_inv [of "replicate 990 0" "()"]
    by (simp add: write_ready_def demo_keydir_def demo_data_bytes max_file_size_def)
qed (simp add: demo_keydir_max max_file_size_def)

lemma write_tombstone_stuck:
  assumes ok: "files_ok w (p # ps)" and v: "ent_value e = []" and size: "ent_size e < 2 ^ 32"
    and fit: "length (data_bytes w (id_of (file_heap w) p)) + ent_size e \<le> unat (max_active_file_size w)"
    and nf: "fault_script w = []" and max: "unat (max_active_file_size w) \<le> max_file_size"
  shows "ccask_write_record_blocking (ent_record e) w = None"
proof -
  obtain f where act: "ccask_files_get_active_file w = Some p" and f: "file_heap w p = Some f"
    and fdon: "fd_on (data_path (data_dir w) (cf_id f)) (cf_fd f) w"
    and wr: "fd_writable (the (open_fds w (cf_fd f)))" and idf: "id_of (file_heap w) p = cf_id f"
    using files_ok_active [OF ok] by metis
  let ?dp = "data_path (data_dir w) (cf_id f)" and ?pos = "length (data_bytes w (cf_id f))"
  obtain d where d: "open_fds w (cf_fd f) = Some d" "lookup_inode w ?dp = Some (fd_inode d)" "0 \<le> cf_fd f"
    using fdon by (auto simp: fd_on_def)
  obtain w1 where sk: "sys_lseek_end (cf_fd f) w = (Inr ?pos, w1)"
    using sys_lseek_end_no_fault [OF nf d(1)] d by (simp add: data_bytes_def bytes_at_def)
  note a = lseek_appends(1) [OF sk fdon]
  have max1: "max_active_file_size w1 = max_active_file_size w"
    using same_files_fields(1) [OF appends_fields(6) [OF a]] .
  have "bytes_at w1 ?dp = data_bytes w (cf_id f)"
    using appends_bytes [OF a] ok by (simp add: data_bytes_def files_ok_def)
  moreover have d1: "open_fds w1 (cf_fd f) = Some d" "lookup_inode w1 ?dp = Some (fd_inode d)"
    using d appends_fields [OF a] by simp_all
  ultimately have len: "length (inode_data w1 (fd_inode d)) = ?pos" by (simp add: bytes_at_def)
  have "safe_writev (cf_fd f) (datafile_record_iov (ent_record e)) w1 = None"
    by (rule safe_writev_tombstone [OF v d1(1)])
       (use wr d(1,3) appends_no_fault [OF a nf] len fit max idf in simp_all)
  moreover have "\<not> max_active_file_size w < of_nat ?pos + ccask_get_datafile_record_total_size (ent_record e)"
    using record_fits [of ?pos e "max_active_file_size w"] size fit max idf by simp
  ultimately show ?thesis
    using act f sk max1 by (subst ccask_write_record_blocking.simps) simp
qed

end
