(* ===== verification/Core.thy ===== *)
theory Core
  imports Writer
begin

text \<open>
  src/core.c: the public operations of the store, composed from the file table, the directory, the
  reader, the ring buffer, the writer and the hintfile generator.
\<close>

section \<open>State and operations\<close>

record store_state = writer_state +
  is_shutting_down :: bool

record ccask_options =
  opt_data_dir :: string
  opt_writer_ringbuf_capacity :: u64
  opt_datafile_rotate_threshold :: u64

record ccask_record =
  rd_timestamp :: u32
  rd_key_size :: u32
  rd_value_size :: u32
  rd_value :: "byte list option"

definition ccask_init ::
  "ccask_options \<Rightarrow> 'a store_state_scheme \<Rightarrow> (ccask_status \<times> 'a store_state_scheme) option" where
  "ccask_init opts w = do {
     (res, w1) \<leftarrow> ccask_attempt_opt 5 CCASK_RETRY
       (ccask_files_init (opt_data_dir opts) (opt_datafile_rotate_threshold opts))
       (w\<lparr>is_shutting_down := False\<rparr>);
     if res \<noteq> CCASK_OK then Some (CCASK_FAIL, w1)
     else do {
       (res, w2) \<leftarrow> ccask_attempt_opt 5 CCASK_RETRY ccask_keydir_init w1;
       if res \<noteq> CCASK_OK then do { w3 \<leftarrow> ccask_files_shutdown w2; Some (CCASK_FAIL, w3) }
       else (case ccask_attempt 5 CCASK_RETRY (ccask_writer_start (opt_writer_ringbuf_capacity opts)) w2 of
           (res, w3) \<Rightarrow>
             if res \<noteq> CCASK_OK
             then do { w4 \<leftarrow> ccask_keydir_shutdown w3; w5 \<leftarrow> ccask_files_shutdown w4; Some (CCASK_FAIL, w5) }
             else Some (CCASK_OK, ccask_hintfile_generator_init w3)) } }"

definition ccask_shutdown :: "'a store_state_scheme \<Rightarrow> 'a store_state_scheme option" where
  "ccask_shutdown w = do {
     w1 \<leftarrow> ccask_hintfile_generator_shutdown (w\<lparr>is_shutting_down := True\<rparr>);
     w2 \<leftarrow> ccask_writer_stop w1;
     w3 \<leftarrow> ccask_keydir_shutdown w2;
     ccask_files_shutdown w3 }"

text \<open>
  The read is attempted again on the same buffers.  The checksum is computed with the sizes of the
  header that was read: if they exceed the buffers, zlib reads beyond them.
\<close>

definition ccask_get ::
  "crc_fun \<Rightarrow> byte list \<Rightarrow> u32 \<Rightarrow> ccask_record \<Rightarrow> 'a keydir_state_scheme
     \<Rightarrow> (ccask_status \<times> ccask_record \<times> 'a keydir_state_scheme) option" where
  "ccask_get crc32 key ksize record w = (case ccask_keydir_find key ksize w of
      None \<Rightarrow> Some (CCASK_OK, record\<lparr>rd_value := None\<rparr>, w)
    | Some p \<Rightarrow> do {
        kd \<leftarrow> kd_heap w p;
        (case ccask_allocate_datafile_record (kd_key_size kd) (kd_value_size kd) w of
          ((st, df0), w1) \<Rightarrow>
            if st \<noteq> CCASK_OK then Some (CCASK_FAIL, record, w1)
            else do {
              (res, (df, w2)) \<leftarrow> ccask_attempt_opt 5 CCASK_RETRY
                (\<lambda>(df, u). do {
                   ((st, df'), u') \<leftarrow> ccask_read_datafile_record (kd_file_id kd) df (kd_record_pos kd) u;
                   Some (st, (df', u')) }) (df0, w1);
              if res \<noteq> CCASK_OK then Some (CCASK_FAIL, record, w2)
              else
                let header = ccask_get_datafile_record_header df;
                    read_key = ccask_get_datafile_record_key df;
                    read_value = ccask_get_datafile_record_value df
                in if \<not> (crc_readable (Some read_key) (unat (key_size header))
                         \<and> crc_readable (Some read_value) (unat (value_size header))) then None
                   else if calculate_crc32 crc32 (timestamp header) (key_size header) (value_size header)
                            (Some read_key) (Some read_value) \<noteq> crc header
                   then Some (CCASK_FAIL, record, set_errno CCASK_ERR_CRC_INVALID w2)
                   else (case sys_malloc w2 of
                     (ok, w3) \<Rightarrow>
                       if \<not> ok
                       then Some (CCASK_FAIL, record\<lparr>rd_value := None\<rparr>, set_errno CCASK_ERR_NO_MEMORY w3)
                       else do {
                         bs \<leftarrow> memcpy_from (Some read_value) (unat (kd_value_size kd));
                         Some (CCASK_OK, \<lparr>rd_timestamp = timestamp header, rd_key_size = key_size header,
                           rd_value_size = kd_value_size kd, rd_value = Some bs\<rparr>, w3) }) }) })"

text \<open>One attempt of \<open>ccask_put\<close>, with the time of that attempt.\<close>

definition put_attempt ::
  "crc_fun \<Rightarrow> byte list \<Rightarrow> u32 \<Rightarrow> byte list option \<Rightarrow> u32 \<Rightarrow> 'a writer_state_scheme
     \<Rightarrow> (ccask_status \<times> 'a writer_state_scheme) option" where
  "put_attempt crc32 key ksize val vsize w = do {
     rb \<leftarrow> wr_ringbuf w;
     (st, rb', w') \<leftarrow> ccask_writer_ringbuf_push crc32 (sys_time w) key ksize val vsize rb w;
     Some (st, w'\<lparr>wr_ringbuf := Some rb'\<rparr>) }"

definition ccask_put ::
  "crc_fun \<Rightarrow> byte list \<Rightarrow> u32 \<Rightarrow> byte list option \<Rightarrow> u32 \<Rightarrow> 'a store_state_scheme
     \<Rightarrow> (ccask_status \<times> 'a store_state_scheme) option" where
  "ccask_put crc32 key ksize val vsize w =
     (if is_shutting_down w then Some (CCASK_FAIL, w)
      else do {
        (res, w') \<leftarrow> ccask_attempt_opt 5 CCASK_RETRY (put_attempt crc32 key ksize val vsize) w;
        Some (if res \<noteq> CCASK_OK then CCASK_FAIL else CCASK_OK, w') })"

definition ccask_put_blocking ::
  "crc_fun \<Rightarrow> byte list \<Rightarrow> u32 \<Rightarrow> byte list option \<Rightarrow> u32 \<Rightarrow> 'a store_state_scheme
     \<Rightarrow> (ccask_status \<times> 'a store_state_scheme) option" where
  "ccask_put_blocking crc32 key ksize val vsize w =
     (if is_shutting_down w then Some (CCASK_FAIL, w)
      else do {
        ((res, record), w1) \<leftarrow> ccask_create_datafile_record crc32 (sys_time w) key ksize val vsize w;
        if res \<noteq> CCASK_OK then Some (CCASK_FAIL, w1)
        else do {
          (res, w2) \<leftarrow> ccask_write_record_blocking record w1;
          Some (if res \<noteq> CCASK_OK then CCASK_FAIL else CCASK_OK, w2) } })"

text \<open>A deletion writes a tombstone: a record with a NULL value of size 0.\<close>

definition ccask_delete ::
  "crc_fun \<Rightarrow> byte list \<Rightarrow> u32 \<Rightarrow> 'a store_state_scheme \<Rightarrow> (ccask_status \<times> 'a store_state_scheme) option" where
  "ccask_delete crc32 key ksize = ccask_put crc32 key ksize None 0"

definition ccask_delete_blocking ::
  "crc_fun \<Rightarrow> byte list \<Rightarrow> u32 \<Rightarrow> 'a store_state_scheme \<Rightarrow> (ccask_status \<times> 'a store_state_scheme) option" where
  "ccask_delete_blocking crc32 key ksize = ccask_put_blocking crc32 key ksize None 0"

text \<open>The iterator over the keys holds the read lock of the directory while it is open.\<close>

record ccask_keys_iter =
  keydir_iter :: "nat option"

definition ccask_list_keys :: "'a keydir_state_scheme \<Rightarrow> ccask_keys_iter option \<times> 'a keydir_state_scheme" where
  "ccask_list_keys w = (case sys_malloc w of
      (ok, w1) \<Rightarrow>
        if \<not> ok then (None, set_errno CCASK_ERR_NO_MEMORY w1)
        else (case ccask_keydir_record_iter w1 of (it, w2) \<Rightarrow> (Some \<lparr>keydir_iter = it\<rparr>, w2)))"

definition ccask_keys_iter_next ::
  "ccask_keys_iter \<Rightarrow> 'a keydir_state_scheme
     \<Rightarrow> (ccask_status \<times> (byte list \<times> u32) option \<times> ccask_keys_iter \<times> 'a keydir_state_scheme) option" where
  "ccask_keys_iter_next iter w = (case ccask_keydir_record_iter_next (keydir_iter iter) w of
      (None, it) \<Rightarrow> Some (CCASK_FAIL, None, iter\<lparr>keydir_iter := it\<rparr>, set_errno CCASK_ERR_ITER_END w)
    | (Some p, it) \<Rightarrow> do {
        r \<leftarrow> kd_heap w p;
        Some (CCASK_OK, Some (kd_key r, kd_key_size r), iter\<lparr>keydir_iter := it\<rparr>, w) })"

definition ccask_keys_iter_close :: "ccask_keys_iter \<Rightarrow> 'a keydir_state_scheme \<Rightarrow> 'a keydir_state_scheme" where
  "ccask_keys_iter_close iter w = ccask_keydir_record_iter_close w"


section \<open>The store as a map\<close>

text \<open>The record that a location of the directory points at.\<close>

definition entry_valid :: "crc_fun \<Rightarrow> entry \<Rightarrow> bool" where
  "entry_valid crc32 e \<longleftrightarrow> ent_crc e = calculate_crc32 crc32 (ent_timestamp e) (of_nat (length (ent_key e)))
     (of_nat (length (ent_value e))) (Some (ent_key e)) (Some (ent_value e))"

definition located :: "'a files_state_scheme \<Rightarrow> location \<Rightarrow> entry \<Rightarrow> bool" where
  "located w l e \<longleftrightarrow> ent_ok e \<and> loc_size l = of_nat (length (ent_value e)) \<and> loc_timestamp l = ent_timestamp e
     \<and> unat (loc_pos l) + ent_size e \<le> length (data_bytes w (loc_file l))
     \<and> take (ent_size e) (drop (unat (loc_pos l)) (data_bytes w (loc_file l))) = encode_entry e"

definition store_inv :: "crc_fun \<Rightarrow> 'a keydir_state_scheme \<Rightarrow> nat list \<Rightarrow> bool" where
  "store_inv crc32 w ps \<longleftrightarrow> files_ok w ps \<and> keydir_inv w
     \<and> unat (max_active_file_size w) \<le> max_file_size
     \<and> (\<forall>j. length (data_bytes w j) \<le> max_file_size)
     \<and> (\<forall>k l. kd_lookup w k = Some l \<longrightarrow>
          (\<exists>p \<in> set ps. id_of (file_heap w) p = loc_file l)
          \<and> (\<exists>e. located w l e \<and> ent_key e = k \<and> entry_valid crc32 e))"

text \<open>The abstraction: from keys to timestamps and values, read off the datafiles.\<close>

definition store_map :: "'a keydir_state_scheme \<Rightarrow> byte list \<Rightarrow> (u32 \<times> byte list) option" where
  "store_map w k = map_option (\<lambda>l. (loc_timestamp l,
     take (unat (loc_size l)) (drop (unat (loc_pos l) + 16 + length k) (data_bytes w (loc_file l))))) (kd_lookup w k)"

lemma located_value:
  assumes "located w l e"
  shows "take (unat (loc_size l)) (drop (unat (loc_pos l) + 16 + length (ent_key e)) (data_bytes w (loc_file l)))
    = ent_value e"
proof -
  let ?bs = "drop (unat (loc_pos l)) (data_bytes w (loc_file l))"
  have e: "ent_ok e" and tk: "take (ent_size e) ?bs = encode_entry e" and sz: "loc_size l = of_nat (length (ent_value e))"
    using assms by (simp_all add: located_def)
  have n: "unat (loc_size l) = length (ent_value e)" using ent_sizes(2) [OF e] sz by simp
  have "drop (16 + length (ent_key e)) (take (ent_size e) ?bs) = ent_value e"
    unfolding tk by (simp add: encode_entry_def add.commute flip: drop_drop)
  then have "take (length (ent_value e)) (drop (16 + length (ent_key e)) ?bs) = ent_value e"
    by (simp add: drop_take ent_size_def)
  then show ?thesis using n by (simp add: ac_simps)
qed

lemma store_map_located:
  "kd_lookup w k = Some l \<Longrightarrow> located w l e \<Longrightarrow> ent_key e = k \<Longrightarrow>
     store_map w k = Some (ent_timestamp e, ent_value e)"
  using located_value [of w l e] by (simp add: store_map_def located_def)

text \<open>Appending to datafiles keeps every record where it is.\<close>

lemma located_grows:
  assumes "located w l e" and "\<And>j. \<exists>bs. data_bytes w' j = data_bytes w j @ bs"
  shows "located w' l e"
proof -
  obtain bs where "data_bytes w' (loc_file l) = data_bytes w (loc_file l) @ bs" using assms(2) by blast
  with assms(1) show ?thesis by (simp add: located_def)
qed

lemma store_map_cong:
  assumes "kd_lookup w' = kd_lookup w" and "\<And>j. data_bytes w' j = data_bytes w j"
  shows "store_map w' = store_map w"
  using assms by (simp add: store_map_def fun_eq_iff)

lemma located_cong:
  assumes "\<And>j. data_bytes w' j = data_bytes w j"
  shows "located w' l e = located w l e"
  using assms by (simp add: located_def)

text \<open>Steps that touch neither the data nor the directory keep the invariant and the map.\<close>

lemma store_inv_same:
  assumes inv: "store_inv crc32 w ps" and ok: "files_ok w' ps" and data: "\<And>j. data_bytes w' j = data_bytes w j"
    and ids: "\<And>p. p \<in> set ps \<Longrightarrow> id_of (file_heap w') p = id_of (file_heap w) p"
    and more: "files_state.more w' = files_state.more w" and max: "max_active_file_size w' = max_active_file_size w"
  shows "store_inv crc32 w' ps" and "store_map w' = store_map w"
proof -
  note kd = more_kd_inv [OF more]
  show "store_map w' = store_map w" using kd(2) data by (rule store_map_cong)
  show "store_inv crc32 w' ps"
    using inv ok data ids max kd located_cong [of w' w, OF data] by (simp add: store_inv_def)
qed

text \<open>Only these fields matter.\<close>

lemma store_inv_cong:
  fixes w w' :: "'a keydir_state_scheme"
  assumes "dir_entries w' = dir_entries w" "inode_data w' = inode_data w" "next_inode w' = next_inode w"
    "open_fds w' = open_fds w" "next_fd w' = next_fd w" "max_active_file_size w' = max_active_file_size w"
    "data_dir w' = data_dir w" "file_table w' = file_table w" "files_head w' = files_head w"
    "files_tail w' = files_tail w" "file_heap w' = file_heap w" "next_file_ptr w' = next_file_ptr w"
    "hint_pending w' = hint_pending w" "fd_invalidators w' = fd_invalidators w"
    "kd_table w' = kd_table w" "kd_heap w' = kd_heap w" "kd_next_ptr w' = kd_next_ptr w"
  shows "store_inv crc32 w' ps = store_inv crc32 w ps" and "store_map w' = store_map w"
proof -
  have data: "data_bytes w' j = data_bytes w j" for j
    using bytes_at_cong [OF assms(1,2)] assms(7) by (simp add: data_bytes_def)
  have "nodes_ok d w' fs = nodes_ok d w fs" for d fs
    using assms(1,4) by (simp add: nodes_ok_def node_ok_def lookup_inode_def split: list.splits)
  then have files: "files_ok w' ps = files_ok w ps"
    using assms by (simp add: files_ok_def posix_inv_def files_rep_def files_list_def)
  have kd: "keydir_inv w' = keydir_inv w" "kd_lookup w' = kd_lookup w"
    using assms by (simp_all add: keydir_inv_def kd_lookup_def fun_eq_iff)
  show "store_map w' = store_map w" using kd(2) data by (rule store_map_cong)
  show "store_inv crc32 w' ps = store_inv crc32 w ps"
    using located_cong [of w' w, OF data] by (simp add: store_inv_def files kd data assms)
qed

lemma store_inv_readers:
  "store_inv crc32 (w\<lparr>kd_readers := n\<rparr>) ps = store_inv crc32 w ps" "store_map (w\<lparr>kd_readers := n\<rparr>) = store_map w"
  by (rule store_inv_cong; simp)+

lemma store_inv_fault_script:
  "store_inv crc32 (w\<lparr>fault_script := fs\<rparr>) ps = store_inv crc32 w ps"
  "store_map (w\<lparr>fault_script := fs\<rparr>) = store_map w"
  by (rule store_inv_cong; simp)+

lemma store_inv_clock:
  "store_inv crc32 (w\<lparr>clock := t\<rparr>) ps = store_inv crc32 w ps" "store_map (w\<lparr>clock := t\<rparr>) = store_map w"
  by (rule store_inv_cong; simp)+


section \<open>Writing refines an update of the map\<close>

lemma store_inv_lookup:
  assumes "store_inv crc32 w ps" and "kd_lookup w k = Some l"
  obtains p e where "p \<in> set ps" and "id_of (file_heap w) p = loc_file l" and "located w l e" and "ent_key e = k"
    and "entry_valid crc32 e"
  using assms unfolding store_inv_def by blast

lemma store_inv_io:
  assumes "store_inv crc32 w ps" and "io_frame w w'"
  shows "store_inv crc32 w' ps" and "store_map w' = store_map w"
proof -
  have "files_ok w ps" using assms(1) by (simp add: store_inv_def)
  note fr = reader_frame_io [OF this assms(2)]
  then have "data_bytes w' j = data_bytes w j" for j using data_bytes_grows by (auto simp: reader_frame_def)
  with fr store_inv_same [OF assms(1), of w'] show "store_inv crc32 w' ps" and "store_map w' = store_map w"
    by (auto simp: reader_frame_def)
qed

lemma entry_location_located:
  assumes "ent_ok e" and "data_bytes w i = pre @ encode_entry e" and "length pre + ent_size e \<le> max_file_size"
  shows "located w (entry_location i (length pre) e) e"
proof -
  have "unat (of_nat (length pre) :: u64) = length pre"
    using assms(3) by (intro unat_of_nat_64) (simp add: max_file_size_def)
  with assms show ?thesis by (simp add: located_def entry_location_def)
qed

lemma store_write:
  assumes inv: "store_inv crc32 w ps" and out: "write_outcome e st ps w w'" and e: "ent_ok e" "entry_valid crc32 e"
  obtains ps' where "store_inv crc32 w' ps'"
    and "store_map w' = (if st = CCASK_OK then (store_map w)(ent_key e \<mapsto> (ent_timestamp e, ent_value e)) else store_map w)"
proof -
  obtain qs bs i where ok: "files_ok w' (qs @ ps)" and kdi: "keydir_inv w'"
    and max: "max_active_file_size w' = max_active_file_size w"
    and ids: "\<forall>p \<in> set ps. id_of (file_heap w') p = id_of (file_heap w) p"
    and i: "i = id_of (file_heap w') (hd (qs @ ps))"
    and data: "\<forall>j. data_bytes w' j = data_bytes w j @ (if j = i then bs else [])"
    and len: "length bs \<le> ent_size e"
    and room: "bs \<noteq> [] \<longrightarrow> length (data_bytes w i) + ent_size e \<le> unat (max_active_file_size w)"
    and bs: "st = CCASK_OK \<longrightarrow> bs = encode_entry e"
    and look: "kd_lookup w' = (if st = CCASK_OK
         then (kd_lookup w)(ent_key e \<mapsto> entry_location i (length (data_bytes w i)) e) else kd_lookup w)"
    using out unfolding write_outcome_def by blast
  have lim: "unat (max_active_file_size w) \<le> max_file_size" "length (data_bytes w j) \<le> max_file_size" for j
    using inv by (simp_all add: store_inv_def)
  have grow: "\<exists>cs. data_bytes w' j = data_bytes w j @ cs" for j using data by blast
  have first: "hd (qs @ ps) \<in> set (qs @ ps)" using files_ok_ne [OF ok] by (rule hd_in_set)
  have new: "located w' (entry_location i (length (data_bytes w i)) e) e" if "st = CCASK_OK"
  proof (rule entry_location_located [OF e(1)])
    show "data_bytes w' i = data_bytes w i @ encode_entry e" using that data bs by simp
    show "length (data_bytes w i) + ent_size e \<le> max_file_size"
      using that bs room lim(1) encode_entry_ne [of e] by auto
  qed
  have old: "(\<exists>p \<in> set (qs @ ps). id_of (file_heap w') p = loc_file l)
      \<and> (\<exists>e. located w' l e \<and> ent_key e = k \<and> entry_valid crc32 e)" if k: "kd_lookup w k = Some l" for k l
  proof -
    obtain p e' where p: "p \<in> set ps" "id_of (file_heap w) p = loc_file l"
      and e': "located w l e'" "ent_key e' = k" "entry_valid crc32 e'"
      using store_inv_lookup [OF inv k] .
    have "p \<in> set (qs @ ps)" "id_of (file_heap w') p = loc_file l" using p ids by simp_all
    with located_grows [OF e'(1) grow] e'(2,3) show ?thesis by blast
  qed
  have same: "store_map w' k = store_map w k" if "kd_lookup w' k = kd_lookup w k" for k
  proof (cases "kd_lookup w k")
    case None
    with that show ?thesis by (simp add: store_map_def)
  next
    case (Some l)
    obtain e' where e': "located w l e'" "ent_key e' = k" using store_inv_lookup [OF inv Some] by metis
    have k': "kd_lookup w' k = Some l" using that Some by simp
    show ?thesis
      using store_map_located [OF Some e'] store_map_located [OF k' located_grows [OF e'(1) grow] e'(2)] by simp
  qed
  show thesis
  proof (rule that [of "qs @ ps"])
    have "length (data_bytes w' j) \<le> max_file_size" for j
      using data len room lim(1) lim(2) [of j] by (cases "bs = []") auto
    moreover have "(\<exists>p \<in> set (qs @ ps). id_of (file_heap w') p = loc_file l)
      \<and> (\<exists>e. located w' l e \<and> ent_key e = k \<and> entry_valid crc32 e)" if "kd_lookup w' k = Some l" for k l
    proof (cases "st = CCASK_OK \<and> k = ent_key e")
      case True
      then have "l = entry_location i (length (data_bytes w i)) e" using that look by simp
      with new True e(2) first i show ?thesis by (auto simp: entry_location_def)
    next
      case False
      then have "kd_lookup w k = Some l" using that look by (auto split: if_splits)
      then show ?thesis by (rule old)
    qed
    ultimately show "store_inv crc32 w' (qs @ ps)" using ok kdi lim(1) max by (simp add: store_inv_def)
    show "store_map w' = (if st = CCASK_OK then (store_map w)(ent_key e \<mapsto> (ent_timestamp e, ent_value e)) else store_map w)"
    proof
      fix k
      show "store_map w' k = (if st = CCASK_OK then (store_map w)(ent_key e \<mapsto> (ent_timestamp e, ent_value e)) else store_map w) k"
        using look same [of k] store_map_located [of w' "ent_key e", OF _ new refl]
        by (cases "k = ent_key e") auto
    qed
  qed
qed

lemma new_entry_valid:
  assumes "buffers_ok key ksize (Some v) vsize"
  shows "entry_valid crc32 (new_entry crc32 ts key ksize (Some v) vsize)"
  using assms by (simp add: entry_valid_def new_entry_def calculate_crc32_def buffers_ok_def bytes_of_def Let_def)

lemma new_entry_ok:
  assumes "buffers_ok key ksize (Some v) vsize" and "0 < vsize" and "16 + unat ksize + unat vsize < 2 ^ 32"
  shows "ent_ok (new_entry crc32 ts key ksize (Some v) vsize)"
    and "ent_size (new_entry crc32 ts key ksize (Some v) vsize) = 16 + unat ksize + unat vsize"
proof -
  have "0 < unat vsize" using assms(2) by (simp add: word_less_nat_alt)
  with assms show "ent_ok (new_entry crc32 ts key ksize (Some v) vsize)"
    and "ent_size (new_entry crc32 ts key ksize (Some v) vsize) = 16 + unat ksize + unat vsize"
    by (auto simp: ent_ok_def ent_size_def new_entry_def buffers_ok_def bytes_of_def)
qed

text \<open>What the caller of a put must provide, and the limits of the formats.\<close>

definition put_ok :: "'a keydir_state_scheme \<Rightarrow> nat list \<Rightarrow> byte list \<Rightarrow> u32 \<Rightarrow> byte list \<Rightarrow> u32 \<Rightarrow> bool" where
  "put_ok w ps key ksize v vsize \<longleftrightarrow> unat ksize \<le> length key \<and> unat vsize \<le> length v \<and> 0 < vsize
     \<and> 16 + unat ksize + unat vsize < 2 ^ 32 \<and> 16 + unat ksize + unat vsize \<le> unat (max_active_file_size w)
     \<and> id_of (file_heap w) (hd ps) + 1 \<noteq> 0"

lemma put_ok_ready:
  assumes "put_ok w (p # ps) key ksize v vsize" and "store_inv crc32 w (p # ps)"
  shows "write_ready (new_entry crc32 ts key ksize (Some v) vsize) p w"
proof -
  have b: "buffers_ok key ksize (Some v) vsize" using assms(1) by (simp add: put_ok_def buffers_ok_def bytes_of_def)
  show ?thesis
    using assms new_entry_ok [OF b] by (simp add: write_ready_def put_ok_def store_inv_def)
qed

text \<open>Writing any record that fits a datafile, from a put or from the ring buffer.\<close>

lemma record_write:
  assumes inv: "store_inv crc32 w ps" and e: "ent_ok e" "entry_valid crc32 e"
    and fit: "ent_size e \<le> unat (max_active_file_size w)" and room: "id_of (file_heap w) (hd ps) + 1 \<noteq> 0"
    and run: "ccask_write_record_blocking (ent_record e) w = Some (st, w')"
  obtains ps' where "store_inv crc32 w' ps'"
    and "store_map w' = (if st = CCASK_OK then (store_map w)(ent_key e \<mapsto> (ent_timestamp e, ent_value e)) else store_map w)"
    and "max_active_file_size w' = max_active_file_size w" and "keydir_state.more w' = keydir_state.more w"
proof -
  obtain p qs where ps: "ps = p # qs" using inv files_ok_ne by (cases ps) (auto simp: store_inv_def)
  have files: "files_ok w (p # qs)" and ready: "write_ready e p w"
    using inv e fit room by (simp_all add: write_ready_def store_inv_def ps)
  have out: "write_outcome e st ps w w'" using write_result [OF run files ready] by (simp add: ps)
  then have "max_active_file_size w' = max_active_file_size w" "keydir_state.more w' = keydir_state.more w"
    unfolding write_outcome_def by blast+
  then show thesis using store_write [OF inv out e] that by metis
qed

text \<open>A blocking put fails before it writes, or is a write of its record.\<close>

lemma ccask_put_blocking_cases:
  assumes run: "ccask_put_blocking crc32 key ksize (Some v) vsize w = Some (st, w')"
    and b: "buffers_ok key ksize (Some v) vsize"
  obtains (unchanged) "st = CCASK_FAIL" and "io_frame w w'"
  | (written) u res where "io_frame w u"
      and "ccask_write_record_blocking (ent_record (new_entry crc32 (sys_time w) key ksize (Some v) vsize)) u = Some (res, w')"
      and "st = (if res \<noteq> CCASK_OK then CCASK_FAIL else CCASK_OK)"
proof -
  obtain a u where u: "sys_mallocs 3 w = (a, u)" by fastforce
  have io: "io_frame w u" using u by (rule sys_mallocs_io)
  note run' = run [unfolded ccask_put_blocking_def ccask_create_datafile_record_result [OF b]]
  consider "st = CCASK_FAIL" "io_frame w w'"
    | res where "ccask_write_record_blocking (ent_record (new_entry crc32 (sys_time w) key ksize (Some v) vsize)) u = Some (res, w')"
        "st = (if res \<noteq> CCASK_OK then CCASK_FAIL else CCASK_OK)"
    using run' u io io_frame_trans [OF io io_frame_set_errno]
    by (cases "is_shutting_down w"; cases a) (auto simp: bind_eq_Some_conv)
  then show thesis
  proof cases
    case 1
    then show thesis by (rule unchanged)
  next
    case 2
    from io 2 show thesis by (rule written)
  qed
qed

lemma ccask_put_blocking_result:
  assumes inv: "store_inv crc32 w ps" and ok: "put_ok w ps key ksize v vsize"
    and run: "ccask_put_blocking crc32 key ksize (Some v) vsize w = Some (st, w')"
  obtains ps' where "store_inv crc32 w' ps'"
    and "store_map w' = (if st = CCASK_OK then (store_map w)(take (unat ksize) key \<mapsto> (sys_time w, take (unat vsize) v))
           else store_map w)"
    and "max_active_file_size w' = max_active_file_size w" and "keydir_state.more w' = keydir_state.more w"
proof -
  let ?e = "new_entry crc32 (sys_time w) key ksize (Some v) vsize"
  have b: "buffers_ok key ksize (Some v) vsize" using ok by (simp add: put_ok_def buffers_ok_def bytes_of_def)
  note inv_io = store_inv_io [OF inv]
  show thesis
  proof (cases rule: ccask_put_blocking_cases [OF run b, case_names unchanged written])
    case unchanged
    with inv_io [of w'] that same_files_fields [OF io_frame_more [OF unchanged(2)]] more_kd(5) [of w' w]
    show thesis by simp
  next
    case (written u res)
    note io = written(1)
    have size: "0 < vsize" "16 + unat ksize + unat vsize < 2 ^ 32" using ok by (simp_all add: put_ok_def)
    have e: "ent_key ?e = take (unat ksize) key" "ent_timestamp ?e = sys_time w" "ent_value ?e = take (unat vsize) v"
      by (simp_all add: new_entry_def bytes_of_def)
    note eok = new_entry_ok [OF b size]
    note same = same_files_fields [OF io_frame_more [OF io]]
    have fit: "ent_size ?e \<le> unat (max_active_file_size u)" and room: "id_of (file_heap u) (hd ps) + 1 \<noteq> 0"
      using ok eok(2) same by (simp_all add: put_ok_def)
    obtain ps' where "store_inv crc32 w' ps'"
      and "store_map w' = (if res = CCASK_OK then (store_map u)(ent_key ?e \<mapsto> (ent_timestamp ?e, ent_value ?e)) else store_map u)"
      and "max_active_file_size w' = max_active_file_size u" and "keydir_state.more w' = keydir_state.more u"
      by (rule record_write [OF inv_io(1) [OF io] eok(1) new_entry_valid [OF b] fit room written(2)])
    with written(3) inv_io(2) [OF io] same more_kd(5) [of u w] show thesis unfolding e by (intro that [of ps']) auto
  qed
qed

lemma ccask_put_blocking_no_fault:
  assumes inv: "store_inv crc32 w ps" and ok: "put_ok w ps key ksize v vsize"
    and nf: "fault_script w = []" and rd: "kd_readers w = 0" and up: "\<not> is_shutting_down w"
  obtains w' where "ccask_put_blocking crc32 key ksize (Some v) vsize w = Some (CCASK_OK, w')"
    and "fault_script w' = []" and "kd_readers w' = 0" and "is_shutting_down w' = is_shutting_down w"
proof -
  have b: "buffers_ok key ksize (Some v) vsize" using ok by (simp add: put_ok_def buffers_ok_def bytes_of_def)
  have m: "sys_mallocs 3 w = (True, w)" using nf by (simp add: numeral_3_eq_3 sys_malloc_no_fault)
  obtain p qs where ps: "ps = p # qs" using inv files_ok_ne by (cases ps) (auto simp: store_inv_def)
  have files: "files_ok w (p # qs)" and max: "unat (max_active_file_size w) \<le> max_file_size"
    using inv by (simp_all add: store_inv_def ps)
  note ready = put_ok_ready [OF ok [unfolded ps] inv [unfolded ps]]
  obtain w' where w': "ccask_write_record_blocking
      (ent_record (new_entry crc32 (sys_time w) key ksize (Some v) vsize)) w = Some (CCASK_OK, w')"
    using write_no_fault [OF files ready nf rd max] by blast
  then have "ccask_put_blocking crc32 key ksize (Some v) vsize w = Some (CCASK_OK, w')"
    using up m by (simp add: ccask_put_blocking_def ccask_create_datafile_record_result [OF b])
  moreover have "fault_script w' = [] \<and> kd_readers w' = 0 \<and> keydir_state.more w' = keydir_state.more w"
    using write_result [OF w' files ready] nf rd unfolding write_outcome_def by auto
  moreover have "is_shutting_down w' = is_shutting_down w" if "keydir_state.more w' = keydir_state.more w"
    using that by (cases w; cases w') simp
  ultimately show thesis using that by blast
qed


section \<open>Reading agrees with the map\<close>

text \<open>The reader never asks for a retry, so there is one attempt.\<close>

lemma reader_open_file_status: "reader_open_file p w = Some (st, w') \<Longrightarrow> st \<noteq> CCASK_RETRY"
  by (auto simp: reader_open_file_def bind_eq_Some_conv Let_def split: prod.splits if_splits) (metis surj_pair)

lemma ccask_read_datafile_record_status:
  "ccask_read_datafile_record i r pos w = Some ((st, r'), w') \<Longrightarrow> st \<noteq> CCASK_RETRY"
  by (auto simp: ccask_read_datafile_record_def bind_eq_Some_conv Let_def
      split: option.splits prod.splits if_splits dest: reader_open_file_status) (metis surj_pair)

lemma attempt_read:
  assumes "files_ok w ps"
  obtains st df u where "ccask_read_datafile_record i df0 pos w = Some ((st, df), u)"
    and "ccask_attempt_opt 5 CCASK_RETRY
      (\<lambda>(df, u). do { ((st, df'), u') \<leftarrow> ccask_read_datafile_record i df pos u; Some (st, (df', u')) }) (df0, w)
      = Some (st, (df, u))"
proof -
  obtain st df u where r: "ccask_read_datafile_record i df0 pos w = Some ((st, df), u)"
    using ccask_read_datafile_record_returns [OF assms, of i df0 pos] by auto
  moreover have "st \<noteq> CCASK_RETRY" using r by (rule ccask_read_datafile_record_status)
  ultimately show thesis using that by (simp add: ccask_attempt_opt_done)
qed

text \<open>A record that is read from its location is the record of the entry.\<close>

lemma chop_entry:
  assumes "ent_ok e" and "take (ent_size e) bs = encode_entry e"
  shows "chop [16, length (ent_key e), length (ent_value e)] bs
    = [datafile_header_bytes (ent_crc e) (ent_timestamp e) (of_nat (length (ent_key e)))
         (of_nat (length (ent_value e))), ent_key e, ent_value e]"
proof -
  have "chop [16, length (ent_key e), length (ent_value e)] bs
    = chop [16, length (ent_key e), length (ent_value e)] (take (ent_size e) bs)"
    using chop_take [of "[16, length (ent_key e), length (ent_value e)]" bs] by (simp add: ent_size_def add.assoc)
  then show ?thesis using assms(2) by (simp add: encode_entry_def)
qed

lemma read_entry_record:
  assumes "ent_ok e" and "take (ent_size e) bs = encode_entry e"
    and "r = \<lparr>rec_header = empty_iov DATAFILE_RECORD_HEADER_SIZE, rec_key = empty_iov (length (ent_key e)),
               rec_value = empty_iov (length (ent_value e))\<rparr>"
  shows "record_with (chop (map iov_len (datafile_record_iov r)) bs) r = ent_record e"
  using chop_entry [OF assms(1,2)]
  by (simp add: assms(3) datafile_record_iov_def empty_iov_def DATAFILE_RECORD_HEADER_SIZE_def record_with_def
      ent_record_def)

lemma entry_crc:
  assumes "entry_valid crc32 e"
  shows "calculate_crc32 crc32 (timestamp (ent_header e)) (key_size (ent_header e)) (value_size (ent_header e))
      (Some (ent_key e)) (Some (ent_value e)) = crc (ent_header e)"
  using assms by (simp add: entry_valid_def ent_header_def)

lemma reader_frame_store:
  assumes "store_inv crc32 w ps" and "reader_frame ps w w'"
  shows "store_inv crc32 w' ps" and "store_map w' = store_map w"
proof -
  have "data_bytes w' j = data_bytes w j" for j
    using assms(2) data_bytes_grows by (auto simp: reader_frame_def)
  with assms store_inv_same [OF assms(1), of w'] show "store_inv crc32 w' ps" and "store_map w' = store_map w"
    by (auto simp: reader_frame_def)
qed

text \<open>What a record of the directory stands for, and reading it.\<close>

lemma directory_record:
  assumes inv: "store_inv crc32 w ps" and find: "hash_find (kd_table w) k = Some q"
  obtains kd p e where "kd_heap w q = Some kd" and "unat (kd_key_size kd) = length (ent_key e)"
    and "unat (kd_value_size kd) = length (ent_value e)" and "p \<in> set ps" and "id_of (file_heap w) p = kd_file_id kd"
    and "ent_ok e" and "ent_key e = k" and "entry_valid crc32 e" and "store_map w k = Some (ent_timestamp e, ent_value e)"
    and "take (ent_size e) (drop (unat (kd_record_pos kd)) (data_bytes w (kd_file_id kd))) = encode_entry e"
    and "unat (kd_record_pos kd) + ent_size e \<le> length (data_bytes w (kd_file_id kd))"
proof -
  have kdi: "keydir_inv w" using inv by (simp add: store_inv_def)
  obtain kd where kd: "kd_heap w q = Some kd" "unat (kd_key_size kd) = length k"
    using keydir_inv_record [OF kdi find] by metis
  have look: "kd_lookup w k = Some (location_of kd)" using find kd by (simp add: kd_lookup_def)
  obtain p e where p: "p \<in> set ps" "id_of (file_heap w) p = kd_file_id kd" and loc: "located w (location_of kd) e"
    and e: "ent_key e = k" "entry_valid crc32 e"
    using store_inv_lookup [OF inv look] by (auto simp: location_of_def)
  have l: "ent_ok e" "kd_value_size kd = of_nat (length (ent_value e))"
    "take (ent_size e) (drop (unat (kd_record_pos kd)) (data_bytes w (kd_file_id kd))) = encode_entry e"
    "unat (kd_record_pos kd) + ent_size e \<le> length (data_bytes w (kd_file_id kd))"
    using loc by (simp_all add: located_def location_of_def)
  have "unat (kd_value_size kd) = length (ent_value e)" using ent_sizes(2) [OF l(1)] l(2) by simp
  with that kd p l e store_map_located [OF look loc e(1)] show thesis by blast
qed

definition entry_buffers :: "entry \<Rightarrow> datafile_record" where
  "entry_buffers e = \<lparr>rec_header = empty_iov DATAFILE_RECORD_HEADER_SIZE, rec_key = empty_iov (length (ent_key e)),
     rec_value = empty_iov (length (ent_value e))\<rparr>"

lemma read_entry:
  assumes ok: "files_ok w ps" and p: "p \<in> set ps" "id_of (file_heap w) p = i" and e: "ent_ok e"
    and bytes: "take (ent_size e) (drop (unat pos) (data_bytes w i)) = encode_entry e"
    and room: "unat pos + ent_size e \<le> length (data_bytes w i)"
  obtains st df w' where "ccask_attempt_opt 5 CCASK_RETRY
        (\<lambda>(df, u). do { ((st, df'), u') \<leftarrow> ccask_read_datafile_record i df pos u; Some (st, (df', u')) })
        (entry_buffers e, w) = Some (st, (df, w'))"
    and "reader_frame ps w w'" and "st = CCASK_OK \<Longrightarrow> df = ent_record e" and "fault_script w = [] \<Longrightarrow> st = CCASK_OK"
proof -
  obtain st df w' where rd: "ccask_read_datafile_record i (entry_buffers e) pos w = Some ((st, df), w')"
    and att: "ccask_attempt_opt 5 CCASK_RETRY
      (\<lambda>(df, u). do { ((st, df'), u') \<leftarrow> ccask_read_datafile_record i df pos u; Some (st, (df', u')) })
      (entry_buffers e, w) = Some (st, (df, w'))"
    using attempt_read [OF ok] by blast
  note res = ccask_read_datafile_record_result [OF ok p rd]
  have iov: "sum_list (map iov_len (datafile_record_iov (entry_buffers e))) = ent_size e"
    "iov_len (rec_value (entry_buffers e)) = length (ent_value e)"
    by (simp_all add: entry_buffers_def datafile_record_iov_def empty_iov_def DATAFILE_RECORD_HEADER_SIZE_def ent_size_def)
  have "df = ent_record e" if "st = CCASK_OK"
    using res(2) [OF that] read_entry_record [OF e bytes entry_buffers_def] by simp
  moreover have "st = CCASK_OK" if "fault_script w = []"
    using res(3) [OF that] iov room ent_sizes(3) [OF e] by simp
  ultimately show thesis using that att res(1) by blast
qed

text \<open>
  A lookup always returns, keeps the store, and answers from the map whenever it reports success;
  without faults it succeeds.
\<close>

definition get_answers :: "(u32 \<times> byte list) option \<Rightarrow> u32 \<Rightarrow> ccask_record \<Rightarrow> bool" where
  "get_answers m ksize record \<longleftrightarrow> (case m of
      None \<Rightarrow> rd_value record = None
    | Some (ts, v) \<Rightarrow> record = \<lparr>rd_timestamp = ts, rd_key_size = ksize, rd_value_size = of_nat (length v),
        rd_value = Some v\<rparr>)"

lemma ccask_get_result:
  assumes inv: "store_inv crc32 w ps" and key: "unat ksize \<le> length key"
  obtains st record' w' where "ccask_get crc32 key ksize record w = Some (st, record', w')"
    and "store_inv crc32 w' ps" and "store_map w' = store_map w"
    and "st = CCASK_OK \<Longrightarrow> get_answers (store_map w (take (unat ksize) key)) ksize record'"
    and "fault_script w = [] \<Longrightarrow> st = CCASK_OK" and "kd_readers w' = kd_readers w"
    and "keydir_state.more w' = keydir_state.more w" and "fault_script w = [] \<Longrightarrow> fault_script w' = []"
    and "max_active_file_size w' = max_active_file_size w" and "reader_frame ps w w'"
proof (cases "ccask_keydir_find key ksize w")
  case None
  then have "store_map w (take (unat ksize) key) = None"
    by (simp add: store_map_def kd_lookup_def ccask_keydir_find_def)
  then show thesis
    using that [of CCASK_OK "record\<lparr>rd_value := None\<rparr>" w] None inv reader_frame_refl [of w ps]
    by (simp add: ccask_get_def get_answers_def store_inv_def)
next
  case (Some q)
  let ?k = "take (unat ksize) key"
  have files: "files_ok w ps" using inv by (simp add: store_inv_def)
  have find: "hash_find (kd_table w) ?k = Some q" using Some by (simp add: ccask_keydir_find_def)
  obtain kd p e where kd: "kd_heap w q = Some kd"
    and sizes: "unat (kd_key_size kd) = length (ent_key e)" "unat (kd_value_size kd) = length (ent_value e)"
    and p: "p \<in> set ps" "id_of (file_heap w) p = kd_file_id kd" and eok: "ent_ok e" and ek: "ent_key e = ?k"
    and valid: "entry_valid crc32 e" and map: "store_map w ?k = Some (ent_timestamp e, ent_value e)"
    and bytes: "take (ent_size e) (drop (unat (kd_record_pos kd)) (data_bytes w (kd_file_id kd))) = encode_entry e"
    and room: "unat (kd_record_pos kd) + ent_size e \<le> length (data_bytes w (kd_file_id kd))"
    by (rule directory_record [OF inv find])
  have ks: "kd_key_size kd = ksize" "of_nat (length (ent_key e)) = ksize"
    using sizes(1) key ek by (simp_all add: word_unat_eq_iff)
  have vs: "kd_value_size kd = of_nat (length (ent_value e))" unfolding sizes(2) [symmetric] by simp
  let ?r = "entry_buffers e"
  obtain a u where a: "sys_mallocs 3 w = (a, u)" by fastforce
  have io: "io_frame w u" using a by (rule sys_mallocs_io)
  show thesis
  proof (cases a)
    case False
    let ?u = "set_errno CCASK_ERR_NO_MEMORY u"
    have "io_frame w ?u" using io io_frame_set_errno by (rule io_frame_trans)
    note k = store_inv_io [OF inv this] same_files_fields [OF io_frame_more [OF this]] reader_frame_io [OF files this]
    have "fault_script w \<noteq> []" using a False by (auto simp: numeral_3_eq_3 sys_malloc_no_fault)
    moreover have "ccask_get crc32 key ksize record w = Some (CCASK_FAIL, record, ?u)"
      using Some kd a False by (simp add: ccask_get_def ccask_allocate_datafile_record_def entry_buffers_def)
    ultimately show thesis using that k more_kd [OF k(13)] by simp
  next
    case True
    have ok1: "files_ok u ps" using reader_frame_io [OF files io] by (simp add: reader_frame_def)
    note m1 = same_files_fields [OF io_frame_more [OF io]]
    have data1: "data_bytes u j = data_bytes w j" for j
      using data_bytes_grows [OF io_frame_grows [OF io]] m1 by blast
    have p1: "id_of (file_heap u) p = kd_file_id kd" using p m1 by simp
    obtain st df u2 where att: "ccask_attempt_opt 5 CCASK_RETRY
        (\<lambda>(df, u). do { ((st, df'), u') \<leftarrow> ccask_read_datafile_record (kd_file_id kd) df (kd_record_pos kd) u;
                       Some (st, (df', u')) }) (?r, u) = Some (st, (df, u2))"
      and r2: "reader_frame ps u u2" and df: "st = CCASK_OK \<Longrightarrow> df = ent_record e" and st: "fault_script u = [] \<Longrightarrow> st = CCASK_OK"
      by (rule read_entry [OF ok1 p(1) p1 eok bytes [folded data1] room [folded data1]]) (rule that; assumption)
    have fr: "reader_frame ps w u2" using reader_frame_trans [OF reader_frame_io [OF files io] r2] .
    note keep = reader_frame_store [OF inv fr]
    have more2: "files_state.more u2 = files_state.more w" and max2: "max_active_file_size u2 = max_active_file_size w"
      using fr by (simp_all add: reader_frame_def)
    have ok2: "files_ok u2 ps" using fr by (simp add: reader_frame_def)
    have nf: "fault_script u2 = []" if "fault_script w = []"
      using fr grows_no_fault that by (auto simp: reader_frame_def)
    show thesis
    proof (cases "st = CCASK_OK")
      case False
      then have "ccask_get crc32 key ksize record w = Some (CCASK_FAIL, record, u2)"
        using Some kd a True att sizes by (simp add: ccask_get_def ccask_allocate_datafile_record_def entry_buffers_def)
      moreover have "fault_script w \<noteq> []" using st io_frame_no_fault [OF io] False by blast
      ultimately show thesis using that keep max2 more_kd [OF more2] fr by simp
    next
      case True': True
      have df: "df = ent_record e" using df [OF True'] .
      obtain b u3 where u3: "sys_malloc u2 = (b, u3)" by fastforce
      have io3: "io_frame u2 u3" using u3 by (rule sys_malloc_io)
      have get: "ccask_get crc32 key ksize record w = (if b
        then Some (CCASK_OK, \<lparr>rd_timestamp = ent_timestamp e, rd_key_size = ksize,
               rd_value_size = kd_value_size kd, rd_value = Some (ent_value e)\<rparr>, u3)
        else Some (CCASK_FAIL, record\<lparr>rd_value := None\<rparr>, set_errno CCASK_ERR_NO_MEMORY u3))"
        using Some kd a True att True' sizes u3 df entry_crc [OF valid] ks ent_sizes(1,2) [OF eok]
        by (simp add: ccask_get_def ccask_allocate_datafile_record_def entry_buffers_def crc_readable_def memcpy_from_def
            ent_header_def)
      show thesis
      proof (cases b)
        case True
        note k3 = store_inv_io [OF keep(1) io3] same_files_fields [OF io_frame_more [OF io3]]
          reader_frame_trans [OF fr reader_frame_io [OF ok2 io3]]
        have "get_answers (store_map w ?k) ksize \<lparr>rd_timestamp = ent_timestamp e, rd_key_size = ksize,
               rd_value_size = kd_value_size kd, rd_value = Some (ent_value e)\<rparr>"
          using map vs by (simp add: get_answers_def)
        then show thesis
          using that get True k3 keep(2) more_kd [OF k3(13)] more_kd [OF more2] io_frame_no_fault [OF io3] nf max2
          by simp
      next
        case False
        have io4: "io_frame u2 (set_errno CCASK_ERR_NO_MEMORY u3)"
          using io3 io_frame_set_errno by (rule io_frame_trans)
        note k4 = store_inv_io [OF keep(1) io4] same_files_fields [OF io_frame_more [OF io4]]
          reader_frame_trans [OF fr reader_frame_io [OF ok2 io4]]
        have "fault_script w \<noteq> []" using nf u3 False by (auto simp: sys_malloc_no_fault)
        then show thesis
          using that get False k4 keep(2) more_kd [OF k4(13)] more_kd [OF more2] max2 by simp
      qed
    qed
  qed
qed

section \<open>Properties\<close>

text \<open>
  C2: a blocking put refines an update of the map: whatever fails, if it returns, the store is
  consistent, and the map has the new value (with the time of the put) exactly if CCASK_OK is
  returned; otherwise it is unchanged.
\<close>

theorem put_blocking_refines_update:
  assumes "store_inv crc32 w ps" and "put_ok w ps key ksize v vsize"
    and "ccask_put_blocking crc32 key ksize (Some v) vsize w = Some (st, w')"
  shows "(\<exists>ps'. store_inv crc32 w' ps')
    \<and> store_map w' = (if st = CCASK_OK then (store_map w)(take (unat ksize) key \<mapsto> (sys_time w, take (unat vsize) v))
                       else store_map w)"
  by (rule ccask_put_blocking_result [OF assms]) blast


text \<open>
  C3: a get always returns, keeps the store, and when it reports success it answers with what the map
  has at the key: timestamp, sizes and value, or no value; without faults it succeeds.
\<close>

theorem get_answers_from_map:
  assumes "store_inv crc32 w ps" and "unat ksize \<le> length key"
  shows "\<exists>st record' w'. ccask_get crc32 key ksize record w = Some (st, record', w')
    \<and> store_inv crc32 w' ps \<and> store_map w' = store_map w
    \<and> (st = CCASK_OK \<longrightarrow> get_answers (store_map w (take (unat ksize) key)) ksize record')
    \<and> (fault_script w = [] \<longrightarrow> st = CCASK_OK)"
proof -
  obtain st record' w' where "ccask_get crc32 key ksize record w = Some (st, record', w')"
    "store_inv crc32 w' ps" "store_map w' = store_map w"
    "st = CCASK_OK \<Longrightarrow> get_answers (store_map w (take (unat ksize) key)) ksize record'"
    "fault_script w = [] \<Longrightarrow> st = CCASK_OK"
    by (rule ccask_get_result [OF assms, of "record"]) blast
  then show ?thesis by (intro exI [of _ st] exI [of _ record'] exI [of _ w']) simp
qed

lemma get_result_no_fault:
  assumes "store_inv crc32 w ps" and "unat ksize \<le> length key" and "fault_script w = []"
  shows "\<exists>r' w'. ccask_get crc32 key ksize r w = Some (CCASK_OK, r', w')"
  by (rule ccask_get_result [OF assms(1,2), of r]) (use assms(3) in blast)

text \<open>
  C4: a value that was put is what the next get of the key returns, with the time of the put.
\<close>

theorem get_after_put:
  assumes "store_inv crc32 w ps" and "put_ok w ps key ksize v vsize"
    and "ccask_put_blocking crc32 key ksize (Some v) vsize w = Some (CCASK_OK, w1)"
    and "ccask_get crc32 key ksize record w1 = Some (CCASK_OK, record', w2)"
  shows "record' = \<lparr>rd_timestamp = sys_time w, rd_key_size = ksize, rd_value_size = vsize,
    rd_value = Some (take (unat vsize) v)\<rparr>"
proof -
  have len: "unat ksize \<le> length key" "unat vsize \<le> length v" using assms(2) by (simp_all add: put_ok_def)
  obtain ps1 where inv1: "store_inv crc32 w1 ps1"
    and m: "store_map w1 = (store_map w)(take (unat ksize) key \<mapsto> (sys_time w, take (unat vsize) v))"
    by (rule ccask_put_blocking_result [OF assms(1-3)]) simp
  have "get_answers (store_map w1 (take (unat ksize) key)) ksize record'"
    by (rule ccask_get_result [OF inv1 len(1), of "record"]) (use assms(4) in auto)
  then show ?thesis using m len by (simp add: get_answers_def)
qed

definition demo_store :: store_state where
  "demo_store = demo_keydir [] \<lparr>wr_ringbuf = Some (empty_ring 4), wr_thread = True, is_shutting_down = False\<rparr>"

definition blank_record :: ccask_record where
  "blank_record = \<lparr>rd_timestamp = 0, rd_key_size = 0, rd_value_size = 0, rd_value = None\<rparr>"

lemma demo_store_inv: "store_inv crc32 demo_store [0]"
  by (simp add: store_inv_def demo_store_def demo_keydir_files_ok demo_keydir_inv demo_keydir_lookup
      demo_keydir_data demo_keydir_max max_file_size_def)

lemma demo_put_ok: "put_ok demo_store [0] [1, 2] 2 [3] 1"
  by (simp add: put_ok_def demo_store_def demo_keydir_max)

lemma demo_store_ready: "fault_script demo_store = []" "kd_readers demo_store = 0" "\<not> is_shutting_down demo_store"
  by (simp_all add: demo_store_def demo_keydir_def demo_files_def)

lemma demo_put:
  obtains w' where "ccask_put_blocking crc32 [1, 2] 2 (Some [3]) 1 demo_store = Some (CCASK_OK, w')"
    and "fault_script w' = []"
  by (rule ccask_put_blocking_no_fault [OF demo_store_inv demo_put_ok demo_store_ready])

lemma demo_time: "sys_time demo_store = 7"
  by (simp add: sys_time_def demo_store_def demo_keydir_def)

theorem put_blocking_refines_update_witness:
  "\<exists>w'. ccask_put_blocking (\<lambda>c b. c + 1) [1, 2] 2 (Some [3]) 1 demo_store = Some (CCASK_OK, w')
    \<and> store_map w' [1, 2] = Some (7, [3])"
proof -
  obtain w' where w': "ccask_put_blocking (\<lambda>c b. c + 1) [1, 2] 2 (Some [3]) 1 demo_store = Some (CCASK_OK, w')"
    by (rule demo_put)
  from put_blocking_refines_update [OF demo_store_inv demo_put_ok w'] w' show ?thesis by (auto simp: demo_time)
qed


theorem get_answers_from_map_witness:
  "\<exists>record' w'. ccask_get (\<lambda>c b. c + 1) [1, 2] 2 blank_record demo_store = Some (CCASK_OK, record', w')
    \<and> rd_value record' = None"
proof -
  have "unat (2 :: u32) \<le> length [1, 2 :: byte]" by simp
  from get_answers_from_map [OF demo_store_inv this, of "\<lambda>c b. c + 1" blank_record] demo_store_ready
  obtain record' w' where g: "ccask_get (\<lambda>c b. c + 1) [1, 2] 2 blank_record demo_store = Some (CCASK_OK, record', w')"
    and a: "get_answers (store_map demo_store [1, 2]) 2 record'" by auto
  have "store_map demo_store [1, 2] = None" by (simp add: store_map_def demo_store_def demo_keydir_lookup)
  with g a show ?thesis by (simp add: get_answers_def)
qed

theorem get_after_put_witness:
  "\<exists>w1 record' w2. ccask_put_blocking (\<lambda>c b. c + 1) [1, 2] 2 (Some [3]) 1 demo_store = Some (CCASK_OK, w1)
    \<and> ccask_get (\<lambda>c b. c + 1) [1, 2] 2 blank_record w1 = Some (CCASK_OK, record', w2) \<and> rd_value record' = Some [3]"
proof -
  let ?crc = "\<lambda>c b. c + 1 :: u32"
  obtain w1 where w1: "ccask_put_blocking ?crc [1, 2] 2 (Some [3]) 1 demo_store = Some (CCASK_OK, w1)"
    and nf: "fault_script w1 = []"
    by (rule demo_put)
  obtain ps where inv: "store_inv ?crc w1 ps" by (rule ccask_put_blocking_result [OF demo_store_inv demo_put_ok w1])
  have "unat (2 :: u32) \<le> length [1, 2 :: byte]" by simp
  then obtain record' w2 where g: "ccask_get ?crc [1, 2] 2 blank_record w1 = Some (CCASK_OK, record', w2)"
    using get_result_no_fault [OF inv _ nf] by blast
  from get_after_put [OF demo_store_inv demo_put_ok w1 g] w1 g show ?thesis by auto
qed

text \<open>
  C19: a blocking delete never returns, unless the system reports a permanent error: it writes a
  tombstone, whose empty value keeps \<open>safe_writev\<close> going.
\<close>

theorem delete_blocking_diverges:
  assumes "store_inv crc32 w (p # ps)" and "unat ksize \<le> length key" and "16 + unat ksize < 2 ^ 32"
    and "length (data_bytes w (id_of (file_heap w) p)) + 16 + unat ksize \<le> unat (max_active_file_size w)"
    and "fault_script w = []" and "\<not> is_shutting_down w"
  shows "ccask_delete_blocking crc32 key ksize w = None"
proof -
  let ?e = "new_entry crc32 (sys_time w) key ksize None 0"
  have b: "buffers_ok key ksize None 0" using assms(2) by (simp add: buffers_ok_def bytes_of_def)
  have size: "ent_size ?e = 16 + unat ksize" and v: "ent_value ?e = []"
    using assms(2) by (simp_all add: new_entry_def ent_size_def bytes_of_def)
  have m: "sys_mallocs 3 w = (True, w)" using assms(5) by (simp add: numeral_3_eq_3 sys_malloc_no_fault)
  have "ccask_write_record_blocking (ent_record ?e) w = None"
    by (rule write_tombstone_stuck) (use assms size v in \<open>auto simp: store_inv_def\<close>)
  then show ?thesis
    using assms(6) m
    by (simp add: ccask_delete_blocking_def ccask_put_blocking_def ccask_create_datafile_record_result [OF b])
qed

theorem delete_blocking_diverges_witness:
  "ccask_delete_blocking (\<lambda>c b. c + 1) [1, 2] 2 demo_store = None"
  by (rule delete_blocking_diverges [OF demo_store_inv [of "\<lambda>c b. c + 1"]])
     (simp_all add: demo_store_ready, simp add: demo_store_def demo_keydir_data demo_keydir_max)

end
