(* ===== verification/System.thy ===== *)
theory System
  imports Core
begin

text \<open>
  The running store: the calls of its users and the rounds of its threads as the steps of one
  transition system, and its abstract specification, a map with a queue of puts that have been
  accepted and not yet written.  The specification is a locale of forward simulations, interpreted on
  the model.
\<close>

section \<open>Runs of a labelled transition system\<close>

inductive trace_run :: "('e \<Rightarrow> 's \<Rightarrow> 's \<Rightarrow> bool) \<Rightarrow> 'e list \<Rightarrow> 's \<Rightarrow> 's \<Rightarrow> bool" for step where
  run_nil: "trace_run step [] s s"
| run_step: "step e s t \<Longrightarrow> trace_run step es t u \<Longrightarrow> trace_run step (e # es) s u"

inductive_cases run_nilE: "trace_run step [] s t"
inductive_cases run_consE: "trace_run step (e # es) s t"

lemma trace_run_append:
  "trace_run step (es @ fs) s u \<longleftrightarrow> (\<exists>t. trace_run step es s t \<and> trace_run step fs t u)"
proof (induction es arbitrary: s)
  case Nil
  show ?case by (auto intro: run_nil elim: run_nilE)
next
  case (Cons e es)
  then show ?case unfolding append_Cons by (blast intro: run_step elim!: run_consE)
qed

text \<open>The contract between a model and its specification: every step is one of the specification.\<close>

locale forward_simulation =
  fixes step :: "'e \<Rightarrow> 's \<Rightarrow> 's \<Rightarrow> bool" and spec :: "'e \<Rightarrow> 'a \<Rightarrow> 'a \<Rightarrow> bool"
    and inv :: "'s \<Rightarrow> bool" and abs :: "'s \<Rightarrow> 'a"
  assumes step_inv: "inv s \<Longrightarrow> step e s t \<Longrightarrow> inv t"
    and step_spec: "inv s \<Longrightarrow> step e s t \<Longrightarrow> spec e (abs s) (abs t)"
begin

lemma run_inv: "trace_run step es s t \<Longrightarrow> inv s \<Longrightarrow> inv t"
  by (induction rule: trace_run.induct) (auto dest: step_inv)

lemma run_spec: "trace_run step es s t \<Longrightarrow> inv s \<Longrightarrow> trace_run spec es (abs s) (abs t)"
  by (induction rule: trace_run.induct) (auto intro: run_nil run_step step_spec step_inv)

end


section \<open>The steps of the store\<close>

text \<open>
  What a step shows: the key, the value and the time of a put with its status, the key of a get with
  its status and answer, a round of the writer thread; all others are internal.
\<close>

datatype store_event =
    Put_blocking "byte list" u32 "byte list" ccask_status
  | Put "byte list" u32 "byte list" ccask_status
  | Get "byte list" ccask_status ccask_record
  | Writer_round
  | Internal

text \<open>
  What the caller of a put owes: buffers of the sizes it states, a value that is not empty, and a
  record that fits a datafile.
\<close>

definition put_args :: "byte list \<Rightarrow> u32 \<Rightarrow> byte list \<Rightarrow> u32 \<Rightarrow> 'a files_state_scheme \<Rightarrow> bool" where
  "put_args key ksize v vsize w \<longleftrightarrow> unat ksize \<le> length key \<and> unat vsize \<le> length v \<and> 0 < vsize
     \<and> 16 + unat ksize + unat vsize < 2 ^ 32 \<and> 16 + unat ksize + unat vsize \<le> unat (max_active_file_size w)"

text \<open>The identifiers of the datafiles have not run out.\<close>

definition next_id_left :: "'a files_state_scheme \<Rightarrow> bool" where
  "next_id_left w \<longleftrightarrow> (case files_head w of None \<Rightarrow> False | Some p \<Rightarrow> id_of (file_heap w) p + 1 \<noteq> 0)"

text \<open>
  The steps, in any order and number: each call that returns, each round of a thread, the lock of a
  key iterator, and the environment, which picks new faults and lets time pass.
\<close>

inductive store_step :: "crc_fun \<Rightarrow> store_event \<Rightarrow> 'a store_state_scheme \<Rightarrow> 'a store_state_scheme \<Rightarrow> bool"
  for crc32 where
  step_put_blocking: "put_args key ksize v vsize w \<Longrightarrow> next_id_left w
    \<Longrightarrow> ccask_put_blocking crc32 key ksize (Some v) vsize w = Some (st, w')
    \<Longrightarrow> store_step crc32 (Put_blocking (take (unat ksize) key) (sys_time w) (take (unat vsize) v) st) w w'"
| step_put: "put_args key ksize v vsize w
    \<Longrightarrow> ccask_put crc32 key ksize (Some v) vsize w = Some (st, w')
    \<Longrightarrow> store_step crc32 (Put (take (unat ksize) key) (sys_time w) (take (unat vsize) v) st) w w'"
| step_get: "unat ksize \<le> length key \<Longrightarrow> ccask_get crc32 key ksize record w = Some (st, record', w')
    \<Longrightarrow> store_step crc32 (Get (take (unat ksize) key) st record') w w'"
| step_writer: "wr_thread w \<Longrightarrow> next_id_left w \<Longrightarrow> writer_thread_round w = Some (go, w')
    \<Longrightarrow> store_step crc32 Writer_round w w'"
| step_hint: "hint_thread_run p w = Some w' \<Longrightarrow> store_step crc32 Internal w w'"
| step_invalidator: "p \<in> set (fd_invalidators w) \<Longrightarrow> datafile_fd_invalidator_round p w = Some (go, w')
    \<Longrightarrow> store_step crc32 Internal w w'"
| step_list_keys: "ccask_list_keys w = (iter, w') \<Longrightarrow> store_step crc32 Internal w w'"
| step_close_keys: "kd_readers w \<noteq> 0 \<Longrightarrow> store_step crc32 Internal w (ccask_keys_iter_close iter w)"
| step_faults: "store_step crc32 Internal w (w\<lparr>fault_script := fs\<rparr>)"
| step_time: "clock w \<le> t \<Longrightarrow> store_step crc32 Internal w (w\<lparr>clock := t\<rparr>)"


section \<open>The specification\<close>

text \<open>The map of the written values, and the accepted puts in their order.\<close>

type_synonym binding = "byte list \<times> u32 \<times> byte list"
type_synonym store_spec = "(byte list \<Rightarrow> (u32 \<times> byte list) option) \<times> binding list"

text \<open>
  A put that returns CCASK_OK takes effect, any other has no effect.  A blocking put overtakes those
  in the queue.  The writer takes them in order; one whose write fails is lost.
\<close>

inductive spec_step :: "store_event \<Rightarrow> store_spec \<Rightarrow> store_spec \<Rightarrow> bool" where
  spec_put_blocking: "spec_step (Put_blocking k t v CCASK_OK) (m, q) (m(k \<mapsto> (t, v)), q)"
| spec_put_blocking_failed: "st \<noteq> CCASK_OK \<Longrightarrow> spec_step (Put_blocking k t v st) s s"
| spec_put: "spec_step (Put k t v CCASK_OK) (m, q) (m, q @ [(k, t, v)])"
| spec_put_failed: "st \<noteq> CCASK_OK \<Longrightarrow> spec_step (Put k t v st) s s"
| spec_get: "(st = CCASK_OK \<Longrightarrow> get_answers (m k) (of_nat (length k)) record) \<Longrightarrow> spec_step (Get k st record) (m, q) (m, q)"
| spec_write: "spec_step Writer_round (m, (k, t, v) # q) (m(k \<mapsto> (t, v)), q)"
| spec_write_failed: "spec_step Writer_round (m, b # q) (m, q)"
| spec_write_end: "spec_step Writer_round (m, []) (m, [])"
| spec_internal: "spec_step Internal s s"

definition record_binding :: "datafile_record \<Rightarrow> binding" where
  "record_binding r = (ccask_get_datafile_record_key r,
     timestamp (ccask_get_datafile_record_header r), ccask_get_datafile_record_value r)"

definition pending_puts :: "'a writer_state_scheme \<Rightarrow> binding list" where
  "pending_puts w = (case wr_ringbuf w of None \<Rightarrow> [] | Some rb \<Rightarrow> map record_binding (ring_contents rb))"

definition store_abs :: "'a writer_state_scheme \<Rightarrow> store_spec" where
  "store_abs w = (store_map w, pending_puts w)"

text \<open>The queue holds whole, checksummed records that fit a datafile.\<close>

definition queued_ok :: "crc_fun \<Rightarrow> 'a writer_state_scheme \<Rightarrow> bool" where
  "queued_ok crc32 w \<longleftrightarrow> (\<forall>rb. wr_ringbuf w = Some rb \<longrightarrow> ring_inv rb \<and>
     (\<forall>r \<in> set (ring_contents rb). \<exists>e. r = ent_record e \<and> ent_ok e \<and> entry_valid crc32 e
        \<and> ent_size e \<le> unat (max_active_file_size w)))"

definition system_inv :: "crc_fun \<Rightarrow> 'a writer_state_scheme \<Rightarrow> bool" where
  "system_inv crc32 w \<longleftrightarrow> (\<exists>ps. store_inv crc32 w ps) \<and> queued_ok crc32 w"


section \<open>The simulation\<close>

lemma store_inv_hd: "store_inv crc32 w ps \<Longrightarrow> files_head w = Some (hd ps)"
proof -
  assume inv: "store_inv crc32 w ps"
  then obtain p qs where "ps = p # qs" using files_ok_ne by (cases ps) (auto simp: store_inv_def)
  with inv files_list_head [of w p qs] show ?thesis by (simp add: store_inv_def files_ok_def files_rep_def)
qed

lemma next_id_hd: "store_inv crc32 w ps \<Longrightarrow> next_id_left w \<Longrightarrow> id_of (file_heap w) (hd ps) + 1 \<noteq> 0"
  using store_inv_hd [of crc32 w ps] by (simp add: next_id_left_def)

lemma put_args_ok: "put_args key ksize v vsize w \<Longrightarrow> next_id_left w \<Longrightarrow> store_inv crc32 w ps \<Longrightarrow> put_ok w ps key ksize v vsize"
  using next_id_hd [of crc32 w ps] by (simp add: put_ok_def put_args_def)

text \<open>Steps that leave the queue alone.\<close>

lemma more_ring: "keydir_state.more w' = keydir_state.more w \<Longrightarrow> wr_ringbuf w' = wr_ringbuf w"
  for w w' :: "'a writer_state_scheme"
  by (cases w; cases w') simp

lemma queue_same:
  fixes w w' :: "'a writer_state_scheme"
  assumes "keydir_state.more w' = keydir_state.more w" and "max_active_file_size w' = max_active_file_size w"
  shows "queued_ok crc32 w' = queued_ok crc32 w" and "pending_puts w' = pending_puts w"
  using more_ring [OF assms(1)] assms(2) by (simp_all add: queued_ok_def pending_puts_def)

text \<open>Steps of the background threads.\<close>

lemma silent_step:
  fixes w w' :: "'a store_state_scheme"
  assumes "system_inv crc32 w" and "\<And>ps. store_inv crc32 w ps \<Longrightarrow> store_inv crc32 w' ps"
    and "store_map w' = store_map w"
    and "keydir_state.more w' = keydir_state.more w" and "max_active_file_size w' = max_active_file_size w"
  shows "system_inv crc32 w'" and "store_abs w' = store_abs w"
  using assms queue_same [OF assms(4,5)] by (auto simp: system_inv_def store_abs_def)

lemma put_blocking_simulates:
  fixes w w' :: "'a store_state_scheme"
  assumes inv: "system_inv crc32 w" and args: "put_args key ksize v vsize w" and ids: "next_id_left w"
    and run: "ccask_put_blocking crc32 key ksize (Some v) vsize w = Some (st, w')"
  shows "system_inv crc32 w'"
    and "spec_step (Put_blocking (take (unat ksize) key) (sys_time w) (take (unat vsize) v) st) (store_abs w) (store_abs w')"
proof -
  obtain ps where si: "store_inv crc32 w ps" and q: "queued_ok crc32 w" using inv by (auto simp: system_inv_def)
  obtain ps' where si': "store_inv crc32 w' ps'"
    and m: "store_map w' = (if st = CCASK_OK then (store_map w)(take (unat ksize) key \<mapsto> (sys_time w, take (unat vsize) v))
           else store_map w)"
    and same: "max_active_file_size w' = max_active_file_size w" "keydir_state.more w' = keydir_state.more w"
    by (rule ccask_put_blocking_result [OF si put_args_ok [OF args ids si] run])
  note queue = queue_same [OF same(2,1)]
  show "system_inv crc32 w'" using si' q queue by (auto simp: system_inv_def)
  show "spec_step (Put_blocking (take (unat ksize) key) (sys_time w) (take (unat vsize) v) st) (store_abs w) (store_abs w')"
    using m queue by (cases "st = CCASK_OK") (simp_all add: store_abs_def spec_put_blocking spec_put_blocking_failed)
qed

lemma get_simulates:
  fixes w w' :: "'a store_state_scheme"
  assumes inv: "system_inv crc32 w" and key: "unat ksize \<le> length key"
    and run: "ccask_get crc32 key ksize record w = Some (st, record', w')"
  shows "system_inv crc32 w'"
    and "spec_step (Get (take (unat ksize) key) st record') (store_abs w) (store_abs w')"
proof -
  obtain ps where si: "store_inv crc32 w ps" and q: "queued_ok crc32 w" using inv by (auto simp: system_inv_def)
  have g: "store_inv crc32 w' ps \<and> store_map w' = store_map w \<and> keydir_state.more w' = keydir_state.more w
    \<and> max_active_file_size w' = max_active_file_size w \<and> (st = CCASK_OK \<longrightarrow> get_answers (store_map w (take (unat ksize) key)) ksize record')"
    by (rule ccask_get_result [OF si key, of "record"]) (use run in auto)
  then have queue: "queued_ok crc32 w' = queued_ok crc32 w" "pending_puts w' = pending_puts w"
    using queue_same by blast+
  show "system_inv crc32 w'" using g q queue by (auto simp: system_inv_def)
  have "of_nat (length (take (unat ksize) key)) = ksize" using key by simp
  with g queue show "spec_step (Get (take (unat ksize) key) st record') (store_abs w) (store_abs w')"
    by (simp add: store_abs_def spec_get)
qed


text \<open>Only the ring buffer changes.\<close>

lemma store_inv_ringbuf:
  fixes w :: "'a writer_state_scheme"
  shows "store_inv crc32 (w\<lparr>wr_ringbuf := rb\<rparr>) ps = store_inv crc32 w ps" "store_map (w\<lparr>wr_ringbuf := rb\<rparr>) = store_map w"
  by (rule store_inv_cong; simp)+

lemma record_binding_entry: "record_binding (ent_record e) = (ent_key e, ent_timestamp e, ent_value e)"
  by (simp add: record_binding_def ent_header_def)

lemma put_attempt_simulates:
  fixes w w' :: "'a writer_state_scheme"
  assumes inv: "system_inv crc32 w" and args: "put_args key ksize v vsize w"
    and run: "put_attempt crc32 key ksize (Some v) vsize w = Some (st, w')"
  shows "system_inv crc32 w'"
    and "store_abs w' = (store_map w, pending_puts w @
      (if st = CCASK_OK then [(take (unat ksize) key, sys_time w, take (unat vsize) v)] else []))"
    and "max_active_file_size w' = max_active_file_size w" and "clock w' = clock w"
proof -
  let ?e = "new_entry crc32 (sys_time w) key ksize (Some v) vsize"
  have b: "buffers_ok key ksize (Some v) vsize" using args by (simp add: put_args_def buffers_ok_def bytes_of_def)
  have size: "0 < vsize" "16 + unat ksize + unat vsize < 2 ^ 32" using args by (simp_all add: put_args_def)
  have e: "ent_ok ?e" "entry_valid crc32 ?e" "ent_size ?e \<le> unat (max_active_file_size w)"
    using new_entry_ok [OF b size] new_entry_valid [OF b] args by (simp_all add: put_args_def)
  have bind: "record_binding (ent_record ?e) = (take (unat ksize) key, sys_time w, take (unat vsize) v)"
    by (simp add: record_binding_entry) (simp add: new_entry_def bytes_of_def)
  obtain ps where si: "store_inv crc32 w ps" and q: "queued_ok crc32 w" using inv by (auto simp: system_inv_def)
  obtain rb rb' u where rb: "wr_ringbuf w = Some rb" and w': "w' = u\<lparr>wr_ringbuf := Some rb'\<rparr>"
    and push: "ccask_writer_ringbuf_push crc32 (sys_time w) key ksize (Some v) vsize rb w = Some (st, rb', u)"
    using run by (auto simp: put_attempt_def bind_eq_Some_conv)
  have ring: "ring_inv rb" and old: "\<forall>r \<in> set (ring_contents rb). \<exists>e. r = ent_record e \<and> ent_ok e
      \<and> entry_valid crc32 e \<and> ent_size e \<le> unat (max_active_file_size w)"
    using q rb by (auto simp: queued_ok_def)
  have res: "io_frame w u \<and> ring_inv rb' \<and> ring_contents rb' = ring_contents rb @ (if st = CCASK_OK then [ent_record ?e] else [])"
    using push b
  proof (cases rule: ccask_writer_ringbuf_push_cases)
    case full
    with ring show ?thesis by (simp add: io_frame_set_errno)
  next
    case failed
    with ring ring_failed_contents [OF ring _ failed(5-7)] show ?thesis by auto
  next
    case pushed
    with ring.enq_some [OF ring pushed(3)] show ?thesis by simp
  qed
  then have io: "io_frame w u" by blast
  note same = same_files_fields [OF io_frame_more [OF io]]
  show "max_active_file_size w' = max_active_file_size w" "clock w' = clock w"
    using same io_frame_same [OF io] by (simp_all add: w')
  have "store_inv crc32 w' ps" using store_inv_io(1) [OF si io] by (simp add: w' store_inv_ringbuf)
  moreover have "queued_ok crc32 w'" using res old e same by (auto simp: queued_ok_def w')
  ultimately show "system_inv crc32 w'" by (auto simp: system_inv_def)
  show "store_abs w' = (store_map w, pending_puts w @
      (if st = CCASK_OK then [(take (unat ksize) key, sys_time w, take (unat vsize) v)] else []))"
    using res rb store_inv_io(2) [OF si io] bind by (simp add: store_abs_def pending_puts_def w' store_inv_ringbuf)
qed

lemma put_simulates:
  fixes w w' :: "'a store_state_scheme"
  assumes inv: "system_inv crc32 w" and args: "put_args key ksize v vsize w"
    and run: "ccask_put crc32 key ksize (Some v) vsize w = Some (st, w')"
  shows "system_inv crc32 w'"
    and "spec_step (Put (take (unat ksize) key) (sys_time w) (take (unat vsize) v) st) (store_abs w) (store_abs w')"
proof -
  let ?P = "\<lambda>u :: 'a store_state_scheme. system_inv crc32 u \<and> store_abs u = store_abs w \<and> put_args key ksize v vsize u \<and> sys_time u = sys_time w"
  let ?ev = "Put (take (unat ksize) key) (sys_time w) (take (unat vsize) v)"
  have keep: "?P u'" if "?P u" "put_attempt crc32 key ksize (Some v) vsize u = Some (CCASK_RETRY, u')" for u u' :: "'a store_state_scheme"
    using that put_attempt_simulates [of crc32 u key ksize v vsize CCASK_RETRY u']
    by (simp add: put_args_def sys_time_def store_abs_def)
  have "system_inv crc32 w' \<and> spec_step (?ev st) (store_abs w) (store_abs w')"
  proof (cases "is_shutting_down w")
    case True
    with run inv show ?thesis by (simp add: ccask_put_def spec_put_failed)
  next
    case False
    then obtain res where res: "ccask_attempt_opt 5 CCASK_RETRY (put_attempt crc32 key ksize (Some v) vsize) w = Some (res, w')"
      and st: "st = (if res \<noteq> CCASK_OK then CCASK_FAIL else CCASK_OK)"
      using run by (auto simp: ccask_put_def bind_eq_Some_conv)
    have start: "?P w" using inv args by simp
    consider (last) u where "?P u" and "put_attempt crc32 key ksize (Some v) vsize u = Some (res, w')"
      | (gave_up) "res = CCASK_RETRY" and "?P w'"
      by (rule ccask_attempt_opt_cases [where P = ?P, OF res start]) (use keep in blast)+
    then show ?thesis
    proof cases
      case (last u)
      note s = put_attempt_simulates [OF _ _ last(2)]
      show ?thesis
      proof (cases "res = CCASK_OK")
        case True
        with s last(1) st spec_put [of _ _ _ "store_map u" "pending_puts u"] show ?thesis
          by (auto simp: store_abs_def)
      next
        case False
        with s last(1) st show ?thesis by (simp add: store_abs_def spec_put_failed)
      qed
    next
      case gave_up
      with st show ?thesis by (simp add: spec_put_failed)
    qed
  qed
  then show "system_inv crc32 w'" and "spec_step (?ev st) (store_abs w) (store_abs w')" by blast+
qed

lemma writer_simulates:
  fixes w w' :: "'a writer_state_scheme"
  assumes inv: "system_inv crc32 w" and ids: "next_id_left w" and run: "writer_thread_round w = Some (go, w')"
  shows "system_inv crc32 w'" and "spec_step Writer_round (store_abs w) (store_abs w')"
proof -
  obtain ps where si: "store_inv crc32 w ps" and q: "queued_ok crc32 w" using inv by (auto simp: system_inv_def)
  obtain rb res r rb' where rb: "wr_ringbuf w = Some rb" and pop: "ccask_writer_ringbuf_pop rb = Some (res, r, rb')"
    using run by (auto simp: writer_thread_round_def bind_eq_Some_conv)
  let ?w1 = "w\<lparr>wr_ringbuf := Some rb'\<rparr>"
  have ring: "ring_inv rb" and old: "\<forall>r \<in> set (ring_contents rb). \<exists>e. r = ent_record e \<and> ent_ok e
      \<and> entry_valid crc32 e \<and> ent_size e \<le> unat (max_active_file_size w)"
    using q rb by (auto simp: queued_ok_def)
  have si1: "store_inv crc32 ?w1 ps" using si by (simp add: store_inv_ringbuf)
  from pop have "system_inv crc32 w' \<and> spec_step Writer_round (store_abs w) (store_abs w')"
  proof (cases rule: ccask_writer_ringbuf_pop_cases)
    case shutdown
    then have w': "w' = ?w1" using run rb pop by (simp add: writer_thread_round_def)
    have "ring_contents rb = []" using shutdown(5) ring by (simp add: ring.deq_none)
    moreover have "?w1 = w" using rb shutdown(3) by simp
    ultimately show ?thesis using inv rb w' by (simp add: store_abs_def pending_puts_def spec_write_end)
  next
    case (popped x)
    note deq = ring.deq_some [OF ring popped(3)]
    obtain e where x: "x = ent_record e" and e: "ent_ok e" "entry_valid crc32 e" "ent_size e \<le> unat (max_active_file_size ?w1)"
      using old deq by auto
    have room: "id_of (file_heap ?w1) (hd ps) + 1 \<noteq> 0" using next_id_hd [OF si ids] by simp
    obtain st where wr: "ccask_write_record_blocking (ent_record e) ?w1 = Some (st, w')"
      using run rb pop popped x by (auto simp: writer_thread_round_def bind_eq_Some_conv)
    obtain ps' where si': "store_inv crc32 w' ps'"
      and m: "store_map w' = (if st = CCASK_OK then (store_map ?w1)(ent_key e \<mapsto> (ent_timestamp e, ent_value e)) else store_map ?w1)"
      and same: "max_active_file_size w' = max_active_file_size ?w1" "keydir_state.more w' = keydir_state.more ?w1"
      by (rule record_write [OF si1 e room wr])
    have rb1: "wr_ringbuf w' = Some rb'" using more_ring [OF same(2)] by simp
    have "queued_ok crc32 w'" using deq old same(1) rb1 by (auto simp: queued_ok_def)
    moreover have "pending_puts w = record_binding (ent_record e) # pending_puts w'"
      using rb rb1 deq x by (simp add: pending_puts_def)
    ultimately show ?thesis
      using si' m spec_write spec_write_failed
      by (cases "st = CCASK_OK") (auto simp: system_inv_def store_abs_def store_inv_ringbuf record_binding_entry)
  qed
  then show "system_inv crc32 w'" and "spec_step Writer_round (store_abs w) (store_abs w')" by blast+
qed

text \<open>The list of pending threads may lose elements.\<close>

lemma store_inv_pending:
  fixes w :: "'a keydir_state_scheme"
  assumes "store_inv crc32 w ps" and "set xs \<subseteq> set ps"
  shows "store_inv crc32 (w\<lparr>hint_pending := xs\<rparr>) ps" and "store_map (w\<lparr>hint_pending := xs\<rparr>) = store_map w"
proof -
  let ?w = "w\<lparr>hint_pending := xs\<rparr>"
  have data: "data_bytes ?w j = data_bytes w j" for j using bytes_at_cong [of ?w w] by (simp add: data_bytes_def)
  have "nodes_ok d ?w fs = nodes_ok d w fs" for d fs
    by (simp add: nodes_ok_def node_ok_def lookup_inode_def split: list.splits)
  then have "files_ok ?w ps"
    using assms by (simp add: store_inv_def files_ok_def posix_inv_def files_rep_def files_list_def)
  then show "store_inv crc32 ?w ps" and "store_map ?w = store_map w"
    by (rule store_inv_same [OF assms(1)]; simp add: data)+
qed

lemma more_writer: "files_state.more w' = files_state.more w \<Longrightarrow> keydir_state.more w' = keydir_state.more w"
  for w w' :: "'a keydir_state_scheme"
  by (rule more_kd(5))

lemma hint_step_silent:
  fixes w w' :: "'a writer_state_scheme"
  assumes inv: "system_inv crc32 w" and run: "hint_thread_run p w = Some w'"
  shows "system_inv crc32 w'" and "store_abs w' = store_abs w" and "max_active_file_size w' = max_active_file_size w"
    and "files_state.more w' = files_state.more w"
proof -
  obtain ps where si: "store_inv crc32 w ps" and q: "queued_ok crc32 w" using inv by (auto simp: system_inv_def)
  let ?u = "w\<lparr>hint_pending := remove1 p (hint_pending w)\<rparr>"
  have pend: "p \<in> set (hint_pending w)" and gen: "hintfile_generator_thread p ?u = Some w'"
    using run by (auto simp: hint_thread_run_def split: if_splits)
  have sub: "set (hint_pending w) \<subseteq> set ps" using si by (simp add: store_inv_def files_ok_def)
  have "set (remove1 p (hint_pending w)) \<subseteq> set ps" using sub set_remove1_subset by fastforce
  note u = store_inv_pending [OF si this]
  have ok: "files_ok ?u ps" using u(1) by (simp add: store_inv_def)
  have p: "p \<in> set ps" using pend sub by blast
  obtain f where f: "file_heap ?u p = Some f" using ok p files_rep_allocated by (force simp: files_ok_def)
  note g = hintfile_generator_thread_result [OF gen ok p f]
  have s: "store_inv crc32 w' ps" "store_map w' = store_map ?u"
    using store_inv_same [OF u(1) g(1,2,7,3,5)] by blast+
  have more: "keydir_state.more w' = keydir_state.more w" using more_kd(5) [OF g(3)] by simp
  show "files_state.more w' = files_state.more w" using g(3) by simp
  show max: "max_active_file_size w' = max_active_file_size w" using g(5) by simp
  show "system_inv crc32 w'" and "store_abs w' = store_abs w"
    using s u(2) q queue_same [OF more max] by (auto simp: system_inv_def store_abs_def)
qed

lemma invalidator_step_silent:
  fixes w w' :: "'a writer_state_scheme"
  assumes inv: "system_inv crc32 w" and p: "p \<in> set (fd_invalidators w)"
    and run: "datafile_fd_invalidator_round p w = Some (go, w')"
  shows "system_inv crc32 w'" and "store_abs w' = store_abs w"
proof -
  obtain ps where si: "store_inv crc32 w ps" and q: "queued_ok crc32 w" using inv by (auto simp: system_inv_def)
  then have ok: "files_ok w ps" and p: "p \<in> set ps" using p by (auto simp: store_inv_def files_ok_def)
  note g = datafile_fd_invalidator_round_result [OF ok p run]
  have s: "store_inv crc32 w' ps" "store_map w' = store_map w"
    using store_inv_same [OF si g(1,2,6,3,5)] by blast+
  show "system_inv crc32 w'" and "store_abs w' = store_abs w"
    using s q queue_same [OF more_kd(5) [OF g(3)] g(5)] by (auto simp: system_inv_def store_abs_def)
qed

lemma ccask_list_keys_io:
  assumes run: "ccask_list_keys w = (iter, w')"
  obtains u where "io_frame w u" and "\<exists>n. w' = u\<lparr>kd_readers := n\<rparr>"
proof -
  obtain ok u where u: "sys_malloc w = (ok, u)" by fastforce
  have io: "io_frame w u" using u by (rule sys_malloc_io)
  show thesis
  proof (cases ok)
    case True
    with run u have "w' = u\<lparr>kd_readers := Suc (kd_readers u)\<rparr>"
      by (simp add: ccask_list_keys_def ccask_keydir_record_iter_def)
    with io that show thesis by blast
  next
    case False
    with run u have "w' = (set_errno CCASK_ERR_NO_MEMORY u)\<lparr>kd_readers := kd_readers (set_errno CCASK_ERR_NO_MEMORY u)\<rparr>"
      by (simp add: ccask_list_keys_def)
    with io_frame_trans [OF io io_frame_set_errno] that show thesis by blast
  qed
qed

lemma list_keys_silent:
  fixes w w' :: "'a writer_state_scheme"
  assumes inv: "system_inv crc32 w" and run: "ccask_list_keys w = (iter, w')"
  shows "system_inv crc32 w'" and "store_abs w' = store_abs w"
proof -
  obtain ps where si: "store_inv crc32 w ps" and q: "queued_ok crc32 w" using inv by (auto simp: system_inv_def)
  obtain v n where v: "io_frame w v" "w' = v\<lparr>kd_readers := n\<rparr>" using ccask_list_keys_io [OF run] by blast
  note same = same_files_fields [OF io_frame_more [OF v(1)]]
  have "keydir_state.more w' = keydir_state.more w" "max_active_file_size w' = max_active_file_size w"
    using more_kd(5) [OF same(11)] same(1) by (simp_all add: v(2))
  note queue = queue_same [OF this]
  show "system_inv crc32 w'" and "store_abs w' = store_abs w"
    using store_inv_io [OF si v(1)] q queue by (auto simp: system_inv_def store_abs_def v(2) store_inv_readers)
qed

lemma close_keys_silent:
  fixes w :: "'a writer_state_scheme"
  assumes "system_inv crc32 w"
  shows "system_inv crc32 (ccask_keys_iter_close iter w)" and "store_abs (ccask_keys_iter_close iter w) = store_abs w"
  using assms queue_same [of "ccask_keys_iter_close iter w" w]
  by (auto simp: system_inv_def store_abs_def ccask_keys_iter_close_def ccask_keydir_record_iter_close_def store_inv_readers)

lemma environment_silent:
  fixes w :: "'a writer_state_scheme"
  assumes "system_inv crc32 w"
  shows "system_inv crc32 (w\<lparr>fault_script := fs\<rparr>)" and "store_abs (w\<lparr>fault_script := fs\<rparr>) = store_abs w"
    and "system_inv crc32 (w\<lparr>clock := t\<rparr>)" and "store_abs (w\<lparr>clock := t\<rparr>) = store_abs w"
  using assms queue_same [of "w\<lparr>fault_script := fs\<rparr>" w] queue_same [of "w\<lparr>clock := t\<rparr>" w]
  by (auto simp: system_inv_def store_abs_def store_inv_fault_script store_inv_clock)

lemma store_step_simulates:
  assumes "store_step crc32 e w w'" and "system_inv crc32 w"
  shows "system_inv crc32 w' \<and> spec_step e (store_abs w) (store_abs w')"
  using assms(1)
proof (cases rule: store_step.cases)
  case step_put_blocking
  with put_blocking_simulates assms(2) show ?thesis by blast
next
  case step_put
  with put_simulates assms(2) show ?thesis by blast
next
  case step_get
  with get_simulates assms(2) show ?thesis by blast
next
  case step_writer
  with writer_simulates assms(2) show ?thesis by blast
next
  case step_hint
  with hint_step_silent [OF assms(2)] show ?thesis by (auto simp: spec_internal)
next
  case step_invalidator
  with invalidator_step_silent [OF assms(2)] show ?thesis by (auto simp: spec_internal)
next
  case step_list_keys
  with list_keys_silent [OF assms(2)] show ?thesis by (auto simp: spec_internal)
next
  case step_close_keys
  with close_keys_silent [OF assms(2)] show ?thesis by (simp add: spec_internal)
next
  case step_faults
  with environment_silent [OF assms(2)] show ?thesis by (simp add: spec_internal)
next
  case step_time
  with environment_silent [OF assms(2)] show ?thesis by (simp add: spec_internal)
qed

interpretation store: forward_simulation "store_step crc32" spec_step "system_inv crc32" store_abs for crc32
  by unfold_locales (blast dest: store_step_simulates)+


section \<open>What the specification implies\<close>

text \<open>Nothing is made up: every binding comes from the start or from an accepted put.\<close>

definition spec_bindings :: "store_spec \<Rightarrow> binding set" where
  "spec_bindings s = {(k, t, v). fst s k = Some (t, v)} \<union> set (snd s)"

definition accepted_puts :: "store_event list \<Rightarrow> binding set" where
  "accepted_puts es = {(k, t, v). Put_blocking k t v CCASK_OK \<in> set es \<or> Put k t v CCASK_OK \<in> set es}"

lemma spec_step_bindings: "spec_step e s t \<Longrightarrow> spec_bindings t \<subseteq> spec_bindings s \<union> accepted_puts [e]"
  by (induction rule: spec_step.induct) (auto simp: spec_bindings_def accepted_puts_def split: if_splits)

lemma accepted_puts_Cons: "accepted_puts (e # es) = accepted_puts [e] \<union> accepted_puts es"
  by (auto simp: accepted_puts_def)

lemma spec_run_bindings:
  "trace_run spec_step es s t \<Longrightarrow> spec_bindings t \<subseteq> spec_bindings s \<union> accepted_puts es"
proof (induction rule: trace_run.induct)
  case (run_step e s t es u)
  with spec_step_bindings [of e s t] accepted_puts_Cons [of e es] show ?case by blast
qed simp

inductive_cases spec_getE: "spec_step (Get k st record) s t"

section \<open>Properties\<close>

lemma demo_store_ring: "wr_ringbuf demo_store = Some (empty_ring 4)" "ring_contents (empty_ring 4) = []" "ring_inv (empty_ring 4)"
  by (simp_all add: demo_store_def demo_keydir_def demo_files_def ring_contents_def ring_count_def ring_inv_def empty_ring_def)

lemma demo_system_inv: "system_inv crc32 demo_store"
proof -
  have "queued_ok crc32 demo_store" by (simp add: queued_ok_def demo_store_ring)
  with demo_store_inv show ?thesis by (auto simp: system_inv_def)
qed

lemma demo_abs: "store_abs demo_store = (\<lambda>_. None, [])"
proof -
  have "store_map demo_store = (\<lambda>_. None)"
    by (simp add: store_map_def demo_store_def demo_keydir_lookup fun_eq_iff)
  then show ?thesis by (simp add: store_abs_def pending_puts_def demo_store_ring)
qed

lemma demo_put_step:
  assumes "ccask_put_blocking crc32 [1, 2] 2 (Some [3]) 1 demo_store = Some (CCASK_OK, w')"
  shows "store_step crc32 (Put_blocking [1, 2] 7 [3] CCASK_OK) demo_store w'"
proof -
  have "put_args [1, 2] 2 [3] 1 demo_store" "next_id_left demo_store"
    by (simp_all add: put_args_def next_id_left_def demo_store_def demo_keydir_def)
  from step_put_blocking [OF this assms] show ?thesis by (simp add: demo_time)
qed

lemma demo_run:
  obtains r w' where "trace_run (store_step crc32)
      [Put_blocking [1, 2] 7 [3] CCASK_OK, Get [1, 2] CCASK_OK r] demo_store w'"
    and "rd_value r = Some [3]"
proof -
  obtain w1 where put: "ccask_put_blocking crc32 [1, 2] 2 (Some [3]) 1 demo_store = Some (CCASK_OK, w1)"
    and nf: "fault_script w1 = []" by (rule demo_put)
  note s1 = demo_put_step [OF put]
  obtain ps where inv1: "store_inv crc32 w1 ps" and m: "store_map w1 [1, 2] = Some (7, [3])"
    by (rule ccask_put_blocking_result [OF demo_store_inv demo_put_ok put]) (simp add: demo_time)
  have key: "unat (2 :: u32) \<le> length [1, 2 :: byte]" by simp
  obtain r w2 where get: "ccask_get crc32 [1, 2] 2 blank_record w1 = Some (CCASK_OK, r, w2)"
    and a: "get_answers (store_map w1 [1, 2]) 2 r"
    by (rule ccask_get_result [OF inv1 key, of blank_record]) (use nf in auto)
  have "store_step crc32 (Get [1, 2] CCASK_OK r) w1 w2" using step_get [OF key get] by simp
  then have "trace_run (store_step crc32) [Put_blocking [1, 2] 7 [3] CCASK_OK, Get [1, 2] CCASK_OK r] demo_store w2"
    using s1 by (auto intro: run_step run_nil)
  moreover have "rd_value r = Some [3]" using a m by (simp add: get_answers_def)
  ultimately show thesis by (rule that)
qed

text \<open>
  C1: the running store refines its specification.  However the calls of the users, the rounds of the
  writer, of the hintfile generators and of the descriptor invalidators, key iterators and faults are
  interleaved, the system stays consistent, and the sequence of calls with their results is one of the
  map with a queue of accepted puts.
\<close>

theorem store_refines_spec:
  assumes "trace_run (store_step crc32) es w w'" and "system_inv crc32 w"
  shows "system_inv crc32 w' \<and> trace_run spec_step es (store_abs w) (store_abs w')"
  using store.run_inv [OF assms] store.run_spec [OF assms] by blast

theorem store_refines_spec_witness:
  "\<exists>record t. trace_run spec_step [Put_blocking [1, 2] 7 [3] CCASK_OK, Get [1, 2] CCASK_OK record] (\<lambda>_. None, []) t
    \<and> rd_value record = Some [3]"
proof -
  obtain r w' where run: "trace_run (store_step (\<lambda>c b. c + 1))
      [Put_blocking [1, 2] 7 [3] CCASK_OK, Get [1, 2] CCASK_OK r] demo_store w'" "rd_value r = Some [3]"
    by (rule demo_run)
  from store_refines_spec [OF run(1) demo_system_inv] run(2) show ?thesis unfolding demo_abs by blast
qed

text \<open>
  C5: nothing is made up.  In every run that starts with an empty store, a value that a get returns,
  with its timestamp, was accepted for this key by an earlier put.
\<close>

theorem get_returns_accepted_put:
  assumes "trace_run (store_step crc32) (es @ [Get k CCASK_OK record]) w w'" and "system_inv crc32 w"
    and "store_abs w = (\<lambda>_. None, [])" and "rd_value record = Some v"
  shows "Put_blocking k (rd_timestamp record) v CCASK_OK \<in> set es \<or> Put k (rd_timestamp record) v CCASK_OK \<in> set es"
proof -
  have "trace_run spec_step (es @ [Get k CCASK_OK record]) (\<lambda>_. None, []) (store_abs w')"
    using store.run_spec [OF assms(1,2)] assms(3) by simp
  then obtain s where run: "trace_run spec_step es (\<lambda>_. None, []) s"
    and last: "trace_run spec_step [Get k CCASK_OK record] s (store_abs w')"
    unfolding trace_run_append by blast
  from last have "spec_step (Get k CCASK_OK record) s (store_abs w')" by (auto elim!: run_consE run_nilE)
  then have "get_answers (fst s k) (of_nat (length k)) record" by (cases rule: spec_step.cases) auto
  then have "fst s k = Some (rd_timestamp record, v)"
    using assms(4) by (auto simp: get_answers_def split: option.splits)
  then have "(k, rd_timestamp record, v) \<in> spec_bindings s" by (simp add: spec_bindings_def)
  with spec_run_bindings [OF run] show ?thesis by (auto simp: spec_bindings_def accepted_puts_def)
qed

theorem get_returns_accepted_put_witness:
  "\<exists>record w'. trace_run (store_step (\<lambda>c b. c + 1))
      ([Put_blocking [1, 2] 7 [3] CCASK_OK] @ [Get [1, 2] CCASK_OK record]) demo_store w' \<and> rd_timestamp record = 7"
proof -
  obtain r w' where run: "trace_run (store_step (\<lambda>c b. c + 1))
      ([Put_blocking [1, 2] 7 [3] CCASK_OK] @ [Get [1, 2] CCASK_OK r]) demo_store w'" "rd_value r = Some [3]"
    by (rule demo_run [of "\<lambda>c b. c + 1"]) simp
  from get_returns_accepted_put [OF run(1) demo_system_inv demo_abs run(2)] run(1) show ?thesis by auto
qed

end
