(* ===== verification/Startup.thy ===== *)
theory Startup
  imports System Scan
begin

text \<open>
  \<open>ccask_init\<close> of src/core.c as a whole: on a directory whose datafiles are logs it succeeds without
  faults and leaves the map that the logs spell, with an empty queue and a consistent system.
\<close>

section \<open>The map that logs spell\<close>

definition log_map ::
  "entry list \<Rightarrow> (byte list \<Rightarrow> (u32 \<times> byte list) option) \<Rightarrow> byte list \<Rightarrow> (u32 \<times> byte list) option" where
  "log_map es m = fold (\<lambda>e m. m(ent_key e \<mapsto> (ent_timestamp e, ent_value e))) es m"

lemma log_map_simps [simp]:
  "log_map [] m = m" "log_map (e # es) m = log_map es (m(ent_key e \<mapsto> (ent_timestamp e, ent_value e)))"
  "log_map (es @ fs) m = log_map fs (log_map es m)"
  by (simp_all add: log_map_def)

text \<open>
  The datafile \<open>i\<close> of the directory is the log \<open>L i\<close> (the empty one, if there is none); its hintfile,
  if there is one, lists it.
\<close>

definition dir_logged :: "crc_fun \<Rightarrow> string \<Rightarrow> (u64 \<Rightarrow> entry list) \<Rightarrow> 'a posix_scheme \<Rightarrow> bool" where
  "dir_logged crc32 dir L w \<longleftrightarrow> (\<forall>i. bytes_at w (data_path dir i) = encode_log (L i)
     \<and> (\<forall>e \<in> set (L i). ent_ok e \<and> entry_valid crc32 e) \<and> log_size (L i) \<le> max_file_size
     \<and> (map_of (dir_entries w) (hint_path dir i) \<noteq> None \<longrightarrow>
          lookup_inode w (hint_path dir i) \<noteq> None
          \<and> bytes_at w (hint_path dir i) = encode_hints (log_positions 0 (L i))
          \<and> (\<forall>pe \<in> set (log_positions 0 (L i)). hint_ok pe)
          \<and> length (encode_hints (log_positions 0 (L i))) < 2 ^ 63))"

definition dir_ids :: "string \<Rightarrow> 'a posix_scheme \<Rightarrow> u64 list" where
  "dir_ids dir w = sorted_list_of_set {i. map_of (dir_entries w) (data_path dir i) \<noteq> None}"

section \<open>Replayed locations are located records\<close>

text \<open>A map of locations that point at the records of a map of values.\<close>

definition map_located :: "crc_fun \<Rightarrow> 'a files_state_scheme \<Rightarrow> u64 set \<Rightarrow> (byte list \<Rightarrow> location option)
    \<Rightarrow> (byte list \<Rightarrow> (u32 \<times> byte list) option) \<Rightarrow> bool" where
  "map_located crc32 w I m a \<longleftrightarrow> (\<forall>k. case m k of
      None \<Rightarrow> a k = None
    | Some l \<Rightarrow> loc_file l \<in> I \<and> (\<exists>e. located w l e \<and> ent_key e = k \<and> entry_valid crc32 e
        \<and> a k = Some (ent_timestamp e, ent_value e)))"

lemma map_locatedD:
  assumes "map_located crc32 w I m a"
  shows "case m k of None \<Rightarrow> a k = None
    | Some l \<Rightarrow> loc_file l \<in> I \<and> (\<exists>e. located w l e \<and> ent_key e = k \<and> entry_valid crc32 e
        \<and> a k = Some (ent_timestamp e, ent_value e))"
  using assms unfolding map_located_def by (rule spec)

lemma map_located_empty: "map_located crc32 w I Map.empty Map.empty"
  by (simp add: map_located_def)

lemma located_in_log:
  assumes "ent_ok e" and "data_bytes w i = encode_log (es @ e # fs)" and "log_size (es @ e # fs) \<le> max_file_size"
  shows "located w (entry_location i (log_size es) e) e"
proof -
  have "unat (of_nat (log_size es) :: u64) = log_size es"
    using assms(3) by (intro unat_of_nat_64) (simp add: max_file_size_def)
  with assms(1,2) show ?thesis by (simp add: located_def entry_location_def)
qed

lemma map_located_replay:
  assumes "map_located crc32 w I m a" and "i \<in> I" and "data_bytes w i = encode_log (es @ fs)"
    and "\<forall>e \<in> set fs. ent_ok e \<and> entry_valid crc32 e" and "log_size (es @ fs) \<le> max_file_size"
  shows "map_located crc32 w I (replay i (log_positions (log_size es) fs) m) (log_map fs a)"
  using assms
proof (induction fs arbitrary: es m a)
  case (Cons e fs)
  let ?l = "entry_location i (log_size es) e"
  have loc: "located w ?l e" using Cons.prems(3-5) by (intro located_in_log) auto
  have step: "map_located crc32 w I (m(ent_key e \<mapsto> ?l)) (a(ent_key e \<mapsto> (ent_timestamp e, ent_value e)))"
    unfolding map_located_def
  proof
    fix k
    show "case (m(ent_key e \<mapsto> ?l)) k of
        None \<Rightarrow> (a(ent_key e \<mapsto> (ent_timestamp e, ent_value e))) k = None
      | Some l \<Rightarrow> loc_file l \<in> I \<and> (\<exists>d. located w l d \<and> ent_key d = k \<and> entry_valid crc32 d
          \<and> (a(ent_key e \<mapsto> (ent_timestamp e, ent_value e))) k = Some (ent_timestamp d, ent_value d))"
    proof (cases "k = ent_key e")
      case True
      have "loc_file ?l \<in> I" using Cons.prems(2) by (simp add: entry_location_def)
      with True loc Cons.prems(4) show ?thesis by auto
    next
      case False
      then show ?thesis using map_locatedD [OF Cons.prems(1), of k] by (simp split: option.splits)
    qed
  qed
  have "map_located crc32 w I (replay i (log_positions (log_size (es @ [e])) fs) (m(ent_key e \<mapsto> ?l)))
      (log_map fs (a(ent_key e \<mapsto> (ent_timestamp e, ent_value e))))"
    by (rule Cons.IH [OF step Cons.prems(2)]) (use Cons.prems in simp_all)
  then show ?case by simp
qed simp

lemma map_located_replay_files:
  assumes "map_located crc32 w I m a"
    and "\<And>f es. (f, es) \<in> set fs \<Longrightarrow> cf_id f \<in> I \<and> data_bytes w (cf_id f) = encode_log es
      \<and> (\<forall>e \<in> set es. ent_ok e \<and> entry_valid crc32 e) \<and> log_size es \<le> max_file_size"
  shows "map_located crc32 w I (replay_files fs m) (log_map (concat (map snd fs)) a)"
  using assms
proof (induction fs arbitrary: m a)
  case Nil
  then show ?case by (simp add: replay_files_def)
next
  case (Cons x fs)
  obtain f es where x: "x = (f, es)" by fastforce
  have "map_located crc32 w I (replay (cf_id f) (log_positions (log_size []) es) m) (log_map es a)"
    using Cons.prems x by (intro map_located_replay) auto
  then have "map_located crc32 w I (replay_files fs (replay (cf_id f) (log_positions 0 es) m)) (log_map (concat (map snd fs)) (log_map es a))"
    using Cons.prems(2) by (intro Cons.IH) auto
  then show ?case by (simp add: x replay_files_def)
qed

lemma map_located_store:
  assumes "map_located crc32 w I (kd_lookup w) a"
  shows "store_map w = a"
    and "kd_lookup w k = Some l \<Longrightarrow> loc_file l \<in> I \<and> (\<exists>e. located w l e \<and> ent_key e = k \<and> entry_valid crc32 e)"
proof -
  show "kd_lookup w k = Some l \<Longrightarrow> loc_file l \<in> I \<and> (\<exists>e. located w l e \<and> ent_key e = k \<and> entry_valid crc32 e)" for k l
    using map_locatedD [OF assms, of k] by auto
  show "store_map w = a"
  proof
    fix k
    show "store_map w k = a k"
    proof (cases "kd_lookup w k")
      case None
      then show ?thesis using map_locatedD [OF assms, of k] by (simp add: store_map_def)
    next
      case (Some l)
      then obtain e where e: "located w l e" "ent_key e = k" "a k = Some (ent_timestamp e, ent_value e)"
        using map_locatedD [OF assms, of k] by auto
      with store_map_located [OF Some e(1,2)] show ?thesis by simp
    qed
  qed
qed

section \<open>The steps of the start\<close>

lemma encode_log_empty: "encode_log es = [] \<Longrightarrow> es = []"
proof (cases es)
  case (Cons e fs)
  assume "encode_log es = []"
  then have "length (encode_entry e) = 0" by (simp add: Cons)
  then show ?thesis by (simp add: encode_entry_def)
qed

lemma dir_logged_new:
  assumes "dir_logged crc32 dir L w" and "map_of (dir_entries w) (data_path dir i) = None"
  shows "L i = []"
proof -
  have "bytes_at w (data_path dir i) = []" using assms(2) by (simp add: bytes_at_def lookup_inode_def)
  then show ?thesis using assms(1) encode_log_empty by (simp add: dir_logged_def)
qed

lemma concat_insort: "L k = [] \<Longrightarrow> concat (map L (insort k is)) = concat (map L is)"
  by (induction "is") auto

text \<open>From the oldest to the newest file the list holds the ids in ascending order.\<close>

lemma rev_list_ids:
  assumes "files_list w ps"
  shows "map (id_of (file_heap w)) (rev ps) = sorted_list_of_set (id_of (file_heap w) ` set ps)"
proof -
  have "sorted_wrt (<) (map (id_of (file_heap w)) (rev ps))"
    using assms by (simp add: files_list_def sorted_wrt_map sorted_wrt_rev)
  then have "sorted (map (id_of (file_heap w)) (rev ps))" "distinct (map (id_of (file_heap w)) (rev ps))"
    by (simp_all only: strict_sorted_iff)
  then have "sorted_list_of_set (set (map (id_of (file_heap w)) (rev ps))) = map (id_of (file_heap w)) (rev ps)"
    by (rule sorted_list_of_set.idem_if_sorted_distinct)
  then show ?thesis by simp
qed

lemma concat_dir_logs:
  assumes "files_list w ps" and "id_of (file_heap w) ` set ps = insert k {i. map_of (dir_entries u) (data_path dir i) \<noteq> None}"
    and "dir_logged crc32 dir L u"
  shows "concat (map (\<lambda>p. L (id_of (file_heap w) p)) (rev ps)) = concat (map L (dir_ids dir u))"
proof -
  let ?A = "{i. map_of (dir_entries u) (data_path dir i) \<noteq> None}"
  have "concat (map (\<lambda>p. L (id_of (file_heap w) p)) (rev ps)) = concat (map L (sorted_list_of_set (insert k ?A)))"
    unfolding assms(2) [symmetric] rev_list_ids [OF assms(1), symmetric] by (simp add: comp_def)
  also have "\<dots> = concat (map L (sorted_list_of_set ?A))"
  proof (cases "k \<in> ?A")
    case True
    then show ?thesis by (simp add: insert_absorb)
  next
    case False
    then have "L k = []" using dir_logged_new [OF assms(3)] by blast
    then show ?thesis using False by (simp add: concat_insort)
  qed
  finally show ?thesis by (simp add: dir_ids_def)
qed

text \<open>The files that the scan found are logs.\<close>

lemma started_file_logged:
  assumes st: "started k w ps w'" and logged: "dir_logged crc32 (data_dir w) L w" and p: "p \<in> set ps"
  shows "file_logged w' (the (file_heap w' p)) (L (id_of (file_heap w') p))"
proof -
  have ok: "files_ok w' ps" and g: "grows {data_path (data_dir w) k} {} w w'" and d: "data_dir w' = data_dir w"
    using st by (simp_all add: started_def)
  obtain f where f: "file_heap w' p = Some f" using ok p files_rep_allocated by (force simp: files_ok_def)
  have "lookup_inode w' (data_path (data_dir w') (cf_id f)) \<noteq> None"
    using files_ok_exists [OF ok p] f by (simp add: id_of_def)
  moreover have "cf_has_hint f \<longrightarrow> map_of (dir_entries w) (hint_path (data_dir w) (cf_id f)) \<noteq> None"
    using st p f by (auto simp: started_def hint_claim_def id_of_def hint_path_def)
  moreover have "bytes_at w' q = bytes_at w q" for q by (rule grows_bytes [OF g])
  moreover have "lookup_inode w' q \<noteq> None" if "lookup_inode w q \<noteq> None" for q using that grows_lookup [OF g] by auto
  ultimately show ?thesis
    using spec [OF logged [unfolded dir_logged_def], of "cf_id f"] f d unfolding file_logged_def data_bytes_def
    by (auto simp: id_of_def max_file_size_def)
qed

text \<open>The writer starts with an empty queue.\<close>

lemma ccask_writer_start_no_fault:
  fixes w :: "'a writer_state_scheme"
  assumes "fault_script w = []" and "cap \<noteq> 0" and "unat cap * RECORD_SLOT_SIZE < 2 ^ 64"
  obtains rb where "ccask_writer_start cap w = (CCASK_OK, w\<lparr>wr_ringbuf := Some rb, wr_thread := True\<rparr>)"
    and "ring_inv rb" and "ring_contents rb = []" and "\<not> rb_locked rb"
proof -
  obtain st rbo w1 where init: "ccask_writer_ringbuf_init cap w = ((st, rbo), w1)" by (metis surj_pair)
  have ok: "st = CCASK_OK" "w1 = w"
    using init assms by (auto simp: ccask_writer_ringbuf_init_def Let_def sys_malloc_no_fault)
  obtain rb where rb: "rbo = Some rb" "ring_inv rb" "ring_contents rb = []"
    using ccask_writer_ringbuf_init_result(3) [OF init ok(1)] assms(2) by blast
  moreover have "\<not> rb_locked rb"
    using init ok(1) rb(1) by (auto simp: ccask_writer_ringbuf_init_def Let_def split: if_splits prod.splits)
  moreover have "attempt_pthread_create (w\<lparr>wr_ringbuf := Some rb\<rparr>) = (0, w\<lparr>wr_ringbuf := Some rb\<rparr>)"
    unfolding attempt_pthread_create_def
    by (rule ccask_attempt_done) (use assms(1) in \<open>simp_all add: sys_pthread_create_no_fault\<close>)
  ultimately show thesis using init ok by (intro that [of rb]) (simp_all add: ccask_writer_start_def)
qed

lemma queued_ok_empty: "ring_inv rb \<Longrightarrow> ring_contents rb = [] \<Longrightarrow> wr_ringbuf w = Some rb \<Longrightarrow> queued_ok crc32 w \<and> pending_puts w = []"
  by (simp add: queued_ok_def pending_puts_def)

text \<open>The files and the directory.\<close>

lemma recovered_store_inv:
  assumes st: "started k w ps w1" and logged: "dir_logged crc32 (data_dir w) L w"
    and max: "unat (max_active_file_size w) \<le> max_file_size"
    and rec: "recovered (w1\<lparr>kd_table := None, kd_readers := 0\<rparr>)
      (replay_files (map (\<lambda>p. (the (file_heap w1 p), L (id_of (file_heap w1) p))) (rev ps)) Map.empty) w2"
  shows "store_inv crc32 w2 ps" and "store_map w2 = log_map (concat (map L (dir_ids (data_dir w) w))) Map.empty"
    and "grows {data_path (data_dir w) k} {} w w2" and "same_files w1 w2"
proof -
  let ?u = "w1\<lparr>kd_table := None, kd_readers := 0\<rparr>"
  have ok: "files_ok w1 ps" and g1: "grows {data_path (data_dir w) k} {} w w1"
    and same1: "data_dir w1 = data_dir w" "max_active_file_size w1 = max_active_file_size w"
    and ids: "id_of (file_heap w1) ` set ps = insert k {i. map_of (dir_entries w) (data_path (data_dir w) i) \<noteq> None}"
    using st by (simp_all add: started_def)
  have g2: "grows {} {} ?u w2" and same2: "same_files ?u w2" and inv2: "posix_inv w2" "keydir_inv w2"
    and kd: "kd_lookup w2 = replay_files (map (\<lambda>p. (the (file_heap w1 p), L (id_of (file_heap w1) p))) (rev ps)) Map.empty"
    using rec by (simp_all add: recovered_def)
  note same = same2 [unfolded same_files_def, simplified]
  have "grows {} {} w1 ?u" by (rule grows_same) simp_all
  from this g2 have g2': "grows {} {} w1 w2" by (rule grows_trans_same)
  show sf: "same_files w1 w2" using same2 by (simp add: same_files_def)
  show "grows {data_path (data_dir w) k} {} w w2"
    using g1 grows_mono [OF g2', of "{data_path (data_dir w) k}" "{}"] grows_trans_same by blast
  have ok2: "files_ok w2 ps" by (rule files_ok_grows_same [OF ok g2' inv2(1) sf]) simp
  have data: "data_bytes w2 i = encode_log (L i)" for i
    using logged grows_bytes [OF g1] grows_bytes [OF g2'] same same1 by (simp add: data_bytes_def dir_logged_def)
  let ?I = "id_of (file_heap w1) ` set ps"
  let ?fs = "map (\<lambda>p. (the (file_heap w1 p), L (id_of (file_heap w1) p))) (rev ps)"
  have "map_located crc32 w2 ?I (replay_files ?fs Map.empty) (log_map (concat (map snd ?fs)) Map.empty)"
  proof (rule map_located_replay_files [OF map_located_empty])
    fix f es assume "(f, es) \<in> set ?fs"
    then obtain p where p: "p \<in> set ps" "f = the (file_heap w1 p)" "es = L (id_of (file_heap w1) p)" by auto
    obtain h where "file_heap w1 p = Some h" using ok p(1) files_rep_allocated by (force simp: files_ok_def)
    then have "cf_id f = id_of (file_heap w1) p" by (simp add: p(2) id_of_def)
    with p data logged show "cf_id f \<in> ?I \<and> data_bytes w2 (cf_id f) = encode_log es
        \<and> (\<forall>e \<in> set es. ent_ok e \<and> entry_valid crc32 e) \<and> log_size es \<le> max_file_size"
      by (simp add: dir_logged_def)
  qed
  moreover have "concat (map snd ?fs) = concat (map L (dir_ids (data_dir w) w))"
    using concat_dir_logs [OF _ ids logged] ok by (simp add: comp_def files_ok_def files_rep_def)
  ultimately have loc: "map_located crc32 w2 ?I (kd_lookup w2) (log_map (concat (map L (dir_ids (data_dir w) w))) Map.empty)"
    by (simp add: kd)
  show "store_map w2 = log_map (concat (map L (dir_ids (data_dir w) w))) Map.empty"
    by (rule map_located_store(1) [OF loc])
  have "length (data_bytes w2 j) \<le> max_file_size" for j
    using logged data by (simp add: dir_logged_def length_encode_log)
  moreover have "\<exists>p \<in> set ps. id_of (file_heap w2) p = loc_file l" if "kd_lookup w2 k = Some l" for k l
    using map_located_store(2) [OF loc that] same by (auto simp: image_iff)
  moreover have "unat (max_active_file_size w2) \<le> max_file_size" using max same same1 by simp
  ultimately show "store_inv crc32 w2 ps"
    using ok2 inv2(2) map_located_store(2) [OF loc] unfolding store_inv_def by blast
qed

lemma boot_ready_more:
  fixes w w' :: "'a files_state_scheme"
  assumes "boot_ready dir w" and "posix.truncate w' = posix.truncate w" and "same_files w w'"
  shows "boot_ready dir w'"
  using assms by (cases w; cases w')
    (simp add: boot_ready_def posix_inv_def clean_dir_def named_file_def dir_names_def same_files_def posix.truncate_def)

text \<open>Nothing is running: no thread has work, nobody iterates, the queue is not locked.\<close>

definition idle :: "'a writer_state_scheme \<Rightarrow> bool" where
  "idle w \<longleftrightarrow> hint_pending w = [] \<and> kd_readers w = 0
     \<and> (\<exists>rb. wr_ringbuf w = Some rb \<and> ring_inv rb \<and> \<not> rb_locked rb \<and> ring_contents rb = [])"

lemma ccask_init_result:
  fixes w :: "'a store_state_scheme"
  assumes ready: "boot_ready (opt_data_dir opts) w" and dir: "dir_logged crc32 (opt_data_dir opts) L w"
    and ptrs: "\<forall>p. kd_heap w p \<noteq> None \<longrightarrow> p < kd_next_ptr w"
    and cap: "opt_writer_ringbuf_capacity opts \<noteq> 0" "unat (opt_writer_ringbuf_capacity opts) * RECORD_SLOT_SIZE < 2 ^ 64"
    and max: "unat (opt_datafile_rotate_threshold opts) \<le> max_file_size"
  obtains w' k p ps where "ccask_init opts w = Some (CCASK_OK, w')" and "store_inv crc32 w' (p # ps)"
    and "queued_ok crc32 w'" and "pending_puts w' = []"
    and "store_map w' = log_map (concat (map L (dir_ids (opt_data_dir opts) w))) Map.empty"
    and "fault_script w' = []" and "hint_pending w' = []" and "data_dir w' = opt_data_dir opts"
    and "max_active_file_size w' = opt_datafile_rotate_threshold opts" and "id_of (file_heap w') p = k"
    and "\<And>q. q \<noteq> data_path (opt_data_dir opts) k \<Longrightarrow> map_of (dir_entries w') q = map_of (dir_entries w) q"
    and "\<And>q. bytes_at w' q = bytes_at w q"
    and "id_of (file_heap w') ` set (p # ps) = insert k {i. map_of (dir_entries w) (data_path (opt_data_dir opts) i) \<noteq> None}"
    and "\<And>q. q \<in> set (p # ps) \<Longrightarrow> has_hint_of (file_heap w') q \<Longrightarrow>
      map_of (dir_entries w) (hint_path (opt_data_dir opts) (id_of (file_heap w') q)) \<noteq> None"
    and "\<And>q. q \<in> set (p # ps) \<Longrightarrow> map_of (dir_entries w) (data_path (opt_data_dir opts) (id_of (file_heap w') q)) \<noteq> None \<Longrightarrow>
      map_of (dir_entries w) (hint_path (opt_data_dir opts) (id_of (file_heap w') q)) \<noteq> None \<Longrightarrow> has_hint_of (file_heap w') q"
    and "map_of (dir_entries w) (data_path (opt_data_dir opts) k) = None
      \<or> map_of (dir_entries w) (hint_path (opt_data_dir opts) k) = None"
    and "k = 0 \<or> (\<exists>i. map_of (dir_entries w) (data_path (opt_data_dir opts) i) \<noteq> None \<and> (k = i \<or> k = i + 1))"
    and "idle w'"
proof -
  let ?dir = "opt_data_dir opts" and ?m = "opt_datafile_rotate_threshold opts"
  let ?w = "w\<lparr>is_shutting_down := False\<rparr>"
  have "boot_ready ?dir ?w"
    by (rule boot_ready_more [OF ready]) (simp_all add: posix.truncate_def same_files_def)
  then obtain w0 k ps w1 where files: "ccask_files_init ?dir ?m ?w = Some (CCASK_OK, w1)" and st: "started k w0 ps w1"
    and w0: "dir_entries w0 = dir_entries w" "inode_data w0 = inode_data w" "data_dir w0 = ?dir"
      "max_active_file_size w0 = ?m" "files_state.more w0 = files_state.more ?w"
    and fresh: "map_of (dir_entries w) (data_path ?dir k) = None \<or> map_of (dir_entries w) (hint_path ?dir k) = None"
    and pend: "hint_pending w1 = []"
    and near: "k = 0 \<or> (\<exists>i. map_of (dir_entries w) (data_path ?dir i) \<noteq> None \<and> (k = i \<or> k = i + 1))"
    by (rule ccask_files_init_started [where m = ?m]) (simp add: hint_path_def)
  note at = bytes_at_cong [OF w0(1,2)] lookup_inode_cong [OF w0(1)]
  have logged: "dir_logged crc32 (data_dir w0) L w0"
    using dir unfolding dir_logged_def at w0(1,3) .
  have ids: "dir_ids (data_dir w0) w0 = dir_ids ?dir w" by (simp add: dir_ids_def w0)
  have more: "files_state.more w1 = files_state.more ?w" using st w0 by (simp add: started_def)
  have kd: "kd_heap w1 = kd_heap w" "kd_next_ptr w1 = kd_next_ptr w"
    using more by (cases w1; cases w; simp)+
  have ok: "posix_inv w1" "files_rep w1 ps" "fault_script w1 = []" using st by (simp_all add: started_def files_ok_def)
  have heap: "p < kd_next_ptr w1" if "kd_heap w1 p \<noteq> None" for p using ptrs that kd by simp
  obtain w2 where keydir: "ccask_keydir_init w1 = Some (CCASK_OK, w2)"
    and rec: "recovered (w1\<lparr>kd_table := None, kd_readers := 0\<rparr>)
      (replay_files (map (\<lambda>p. (the (file_heap w1 p), L (id_of (file_heap w1) p))) (rev ps)) Map.empty) w2"
    by (rule ccask_keydir_init_logs [OF ok started_file_logged [OF st logged] heap])
  have max0: "unat (max_active_file_size w0) \<le> max_file_size" using max w0 by simp
  note si = recovered_store_inv [OF st logged max0 rec]
  have nf: "fault_script w2 = []" using rec by (simp add: recovered_def)
  obtain rb where writer: "ccask_writer_start (opt_writer_ringbuf_capacity opts) w2
      = (CCASK_OK, w2\<lparr>wr_ringbuf := Some rb, wr_thread := True\<rparr>)" and rb: "ring_inv rb" "ring_contents rb = []" "\<not> rb_locked rb"
    by (rule ccask_writer_start_no_fault [OF nf cap])
  let ?w' = "w2\<lparr>wr_ringbuf := Some rb, wr_thread := True, hint_threads := []\<rparr>"
  have init: "ccask_init opts w = Some (CCASK_OK, ?w')"
    using files keydir writer
    by (simp add: ccask_init_def ccask_attempt_opt_done [where r = CCASK_OK] ccask_attempt_done [where r = CCASK_OK]
        ccask_hintfile_generator_init_def)
  have inv: "store_inv crc32 ?w' ps = store_inv crc32 w2 ps" "store_map ?w' = store_map w2"
    by (rule store_inv_cong; simp)+
  have queue: "queued_ok crc32 ?w'" "pending_puts ?w' = []"
    using queued_ok_empty [OF rb(1,2), of ?w' crc32] by simp_all
  obtain p qs where ps: "ps = p # qs" using st files_ok_ne by (cases ps) (auto simp: started_def)
  note sf = si(4) [unfolded same_files_def]
  have alloc: "has_hint_of (file_heap w1) q = cf_has_hint (the (file_heap w1 q))" if "q \<in> set (p # qs)" for q
    using files_rep_allocated [OF ok(2), of q] that ps by (auto simp: has_hint_of_def)
  have claims: "hint_claim w0 (id_of (file_heap w1) q) (has_hint_of (file_heap w1) q)" if "q \<in> set (p # qs)" for q
    unfolding alloc [OF that] using st that ps unfolding started_def by blast
  show thesis
  proof (rule that [OF init])
    show "store_inv crc32 ?w' (p # qs)" using inv(1) si(1) ps by simp
    show "store_map ?w' = log_map (concat (map L (dir_ids ?dir w))) Map.empty" using inv(2) si(2) ids by simp
    show "map_of (dir_entries ?w') q = map_of (dir_entries w) q" if "q \<noteq> data_path ?dir k" for q
      using si(3) that w0 by (simp add: grows_def)
    show "bytes_at ?w' q = bytes_at w q" for q
      using grows_bytes [OF si(3)] at(1) bytes_at_cong [of ?w' w2] by simp
    have "id_of (file_heap w1) ` set ps = insert k {i. map_of (dir_entries w) (data_path ?dir i) \<noteq> None}"
      using st unfolding started_def w0 by blast
    moreover have "file_heap ?w' = file_heap w1" using sf by simp
    ultimately show "id_of (file_heap ?w') ` set (p # qs) = insert k {i. map_of (dir_entries w) (data_path ?dir i) \<noteq> None}"
      by (simp only: ps)
    show "map_of (dir_entries w) (hint_path ?dir (id_of (file_heap ?w') q)) \<noteq> None"
      if "q \<in> set (p # qs)" "has_hint_of (file_heap ?w') q" for q
      using claims [OF that(1)] that(2) sf w0 by (simp add: hint_claim_def hint_path_def)
    show "has_hint_of (file_heap ?w') q"
      if "q \<in> set (p # qs)" "map_of (dir_entries w) (data_path ?dir (id_of (file_heap ?w') q)) \<noteq> None"
        "map_of (dir_entries w) (hint_path ?dir (id_of (file_heap ?w') q)) \<noteq> None" for q
      using claims [OF that(1)] that(2,3) sf w0 by (simp add: hint_claim_def hint_path_def)
    show "k = 0 \<or> (\<exists>i. map_of (dir_entries w) (data_path ?dir i) \<noteq> None \<and> (k = i \<or> k = i + 1))" by (rule near)
    show "idle ?w'" using rec rb pend sf by (simp add: idle_def recovered_def)
  qed (use queue nf pend sf st ps w0 fresh in \<open>simp_all add: started_def\<close>)
qed

section \<open>Properties\<close>


text \<open>A directory with one datafile of one record.\<close>

definition boot_entry :: entry where
  "boot_entry = new_entry (\<lambda>c b. c + 1) 7 [1, 2] 2 (Some [3]) 1"

definition boot_store :: store_state where
  "boot_store = demo_keydir (encode_log [boot_entry]) \<lparr>wr_ringbuf = None, wr_thread = False, is_shutting_down = True\<rparr>"

definition boot_options :: ccask_options where
  "boot_options = \<lparr>opt_data_dir = ''d'', opt_writer_ringbuf_capacity = 4, opt_datafile_rotate_threshold = 1000\<rparr>"

lemma boot_entry_facts:
  "ent_ok boot_entry" "entry_valid (\<lambda>c b. c + 1) boot_entry" "ent_size boot_entry = 19"
  "ent_key boot_entry = [1, 2]" "ent_value boot_entry = [3]" "ent_timestamp boot_entry = 7"
  by (simp_all add: boot_entry_def new_entry_def ent_ok_def entry_valid_def ent_size_def bytes_of_def)

lemma boot_store_ids: "map_of (dir_entries boot_store) (data_path ''d'' i) \<noteq> None \<longleftrightarrow> i = 0"
  by (auto simp: boot_store_def demo_keydir_def data_path_inj)

lemma boot_store_logged:
  "dir_logged (\<lambda>c b. c + 1) ''d'' (\<lambda>i. if i = 0 then [boot_entry] else []) boot_store"
proof -
  have "bytes_at boot_store (data_path ''d'' i) = (if i = 0 then encode_log [boot_entry] else [])" for i
    by (simp add: boot_store_def demo_keydir_def bytes_at_def lookup_inode_def data_path_inj)
  moreover have "map_of (dir_entries boot_store) (hint_path ''d'' i) = None" for i
    by (simp add: boot_store_def demo_keydir_def hint_path_data_path)
  ultimately show ?thesis
    by (simp add: dir_logged_def boot_entry_facts max_file_size_def)
qed

lemma boot_store_ready: "boot_ready ''d'' boot_store"
proof -
  have "CHR ''/'' \<notin> set (decimal 0)" using decimal_digits digit_char_cases(5) by blast
  then have "drop 2 (dir_names boot_store (dir_prefix ''d'')) = [decimal (unat (0 :: u64)) @ ''.data'']"
    by (simp add: boot_store_def demo_keydir_def dir_names_def dir_prefix_def data_path_def ext_path_def
        filepath_text_def ext_chars_def)
  moreover have "named_file ''d'' boot_store (decimal (unat (0 :: u64)) @ ''.data'') 0 FILE_DATA"
    by (simp add: named_file_def boot_store_def demo_keydir_def ext_chars_def data_path_def)
  ultimately have "clean_dir ''d'' boot_store" unfolding clean_dir_def by auto
  moreover have "posix_inv boot_store"
    by (simp add: boot_store_def demo_keydir_def demo_files_def posix_inv_def)
  moreover have "hint_pending boot_store = []" "fd_invalidators boot_store = []" "next_file_ptr boot_store = 1"
      "file_heap boot_store = [0 \<mapsto> demo_node]" "fault_script boot_store = []"
    by (simp_all add: boot_store_def demo_keydir_def demo_files_def)
  ultimately show ?thesis by (simp add: boot_ready_def)
qed


end
