(* ===== verification/Durable.thy ===== *)
theory Durable
  imports Startup
begin

text \<open>
  What is on disk while the store runs.  Without faults the datafiles are always logs that spell the
  map of the store, and the hintfiles list them, so that a store that is shut down and started again
  stands for the same map.
\<close>

section \<open>The records of all datafiles\<close>

text \<open>The records in the order in which a start replays them.\<close>

definition logs :: "(u64 \<Rightarrow> entry list) \<Rightarrow> entry list" where
  "logs L = concat (map L (sorted_list_of_set {i. L i \<noteq> []}))"

lemma concat_insert_empty:
  fixes S :: "u64 set"
  assumes "L k = []"
  shows "concat (map L (sorted_list_of_set (insert k S))) = concat (map L (sorted_list_of_set S))"
  using assms by (cases "k \<in> S") (simp_all add: insert_absorb concat_insort)

lemma concat_over_logs:
  assumes "{i. L i \<noteq> []} \<subseteq> S"
  shows "concat (map L (sorted_list_of_set S)) = logs L"
proof -
  let ?B = "{i. L i \<noteq> []}"
  have add: "(\<forall>k \<in> D. L k = []) \<longrightarrow> concat (map L (sorted_list_of_set (D \<union> ?B))) = logs L" if "finite D" for D
    using that
  proof (induction D)
    case (insert k D)
    show ?case
    proof
      assume e: "\<forall>k \<in> insert k D. L k = []"
      then have "concat (map L (sorted_list_of_set (D \<union> ?B))) = logs L" using insert.IH by blast
      moreover have "L k = []" using e by blast
      ultimately show "concat (map L (sorted_list_of_set (insert k D \<union> ?B))) = logs L"
        unfolding Un_insert_left using concat_insert_empty [of L k "D \<union> ?B"] by (simp only:)
    qed
  qed (simp add: logs_def)
  have "S - ?B \<union> ?B = S" using assms by blast
  with add [of "S - ?B"] show ?thesis by simp
qed

lemma logs_dir_ids:
  assumes "dir_logged crc32 dir L w"
  shows "concat (map L (dir_ids dir w)) = logs L"
  unfolding dir_ids_def using dir_logged_new [OF assms] by (intro concat_over_logs) blast

lemma sorted_list_of_set_top:
  fixes i :: u64
  assumes "\<And>a. a \<in> S \<Longrightarrow> a < i"
  shows "sorted_list_of_set (insert i S) = sorted_list_of_set S @ [i]"
proof -
  have "sorted (sorted_list_of_set S @ [i])" "distinct (sorted_list_of_set S @ [i])"
    using assms by (auto simp: sorted_append less_imp_le)
  then have "sorted_list_of_set (set (sorted_list_of_set S @ [i])) = sorted_list_of_set S @ [i]"
    by (rule sorted_list_of_set.idem_if_sorted_distinct)
  then show ?thesis by simp
qed

text \<open>Records go to the newest file.\<close>

lemma logs_append:
  assumes "\<And>j. i < j \<Longrightarrow> L j = []"
  shows "logs (L(i := L i @ es)) = logs L @ es"
proof -
  have top: "sorted_list_of_set {..i} = sorted_list_of_set {..<i} @ [i]"
    using sorted_list_of_set_top [of "{..<i}" i] by (simp add: ivl_disj_un_singleton(2) [symmetric] insert_absorb)
  have below: "{j. K j \<noteq> []} \<subseteq> {..i}" if "\<And>j. i < j \<Longrightarrow> K j = []" for K :: "u64 \<Rightarrow> entry list"
    using that not_le by blast
  have "logs (L(i := L i @ es)) = concat (map (L(i := L i @ es)) (sorted_list_of_set {..i}))"
    using assms by (intro concat_over_logs [symmetric] below) auto
  also have "\<dots> = concat (map L (sorted_list_of_set {..i})) @ es" unfolding top by simp
  also have "\<dots> = logs L @ es" using concat_over_logs [OF below, of L] assms by simp
  finally show ?thesis .
qed

section \<open>The invariant\<close>

definition hint_absent :: "'a files_state_scheme \<Rightarrow> u64 \<Rightarrow> bool" where
  "hint_absent w i \<longleftrightarrow> map_of (dir_entries w) (hint_path (data_dir w) i) = None"

text \<open>Every datafile has a node, which knows whether there is a hintfile.\<close>

definition nodes_known :: "'a files_state_scheme \<Rightarrow> bool" where
  "nodes_known w \<longleftrightarrow> (\<forall>i. map_of (dir_entries w) (data_path (data_dir w) i) \<noteq> None \<longrightarrow>
     (\<exists>p. ccask_files_get_file i w = Some p \<and> (has_hint_of (file_heap w) p \<longleftrightarrow> \<not> hint_absent w i)))"

text \<open>The data directory: logs, and hintfiles that list them completely.\<close>

definition log_disk :: "crc_fun \<Rightarrow> (u64 \<Rightarrow> entry list) \<Rightarrow> 'a files_state_scheme \<Rightarrow> bool" where
  "log_disk crc32 L w \<longleftrightarrow> data_dir w \<noteq> [] \<and> clean_dir (data_dir w) w \<and> (\<forall>i. data_bytes w i = encode_log (L i)
     \<and> (\<forall>e \<in> set (L i). ent_ok e \<and> entry_valid crc32 e \<and> hintable e) \<and> log_size (L i) < 2 ^ 62
     \<and> (\<not> hint_absent w i \<longrightarrow> bytes_at w (hint_path (data_dir w) i) = hints_of (L i)
          \<and> map_of (dir_entries w) (data_path (data_dir w) i) \<noteq> None)
     \<and> (map_of (dir_entries w) (data_path (data_dir w) i) \<noteq> None \<longrightarrow> unat i + 1 < 2 ^ 31))"

text \<open>The active file has no hintfile, nor has any file whose generator thread has yet to run.\<close>

definition hints_due :: "'a files_state_scheme \<Rightarrow> bool" where
  "hints_due w \<longleftrightarrow> nodes_known w \<and> distinct (hint_pending w)
     \<and> (\<forall>q \<in> set (hint_pending w). files_head w \<noteq> Some q \<and> hint_absent w (id_of (file_heap w) q))
     \<and> (\<exists>p. files_head w = Some p \<and> (\<forall>i. id_of (file_heap w) p \<le> i \<longrightarrow> hint_absent w i))"

text \<open>A key that a hintfile can list.\<close>

definition listable_key :: "byte list \<Rightarrow> bool" where
  "listable_key k \<longleftrightarrow> k \<noteq> [] \<and> 20 + length k < 2 ^ 32"

definition durable :: "crc_fun \<Rightarrow> (u64 \<Rightarrow> entry list) \<Rightarrow> 'a writer_state_scheme \<Rightarrow> bool" where
  "durable crc32 L w \<longleftrightarrow> system_inv crc32 w \<and> log_disk crc32 L w \<and> hints_due w
     \<and> store_map w = log_map (logs L) Map.empty \<and> unat (max_active_file_size w) < 2 ^ 62
     \<and> (\<forall>b \<in> set (pending_puts w). listable_key (fst b))"

text \<open>The hintfile of a log is at most twice as long.\<close>

lemma length_hints_of: "\<forall>e \<in> set es. ent_ok e \<Longrightarrow> length (hints_of es) \<le> 2 * log_size es"
proof -
  have "\<forall>e \<in> set es. ent_ok e \<Longrightarrow> length (encode_hints (log_positions pos es)) \<le> 2 * log_size es" for pos
  proof (induction es arbitrary: pos)
    case (Cons e es)
    have "0 < length (ent_value e)" using Cons.prems by (simp add: ent_ok_def)
    then have "length (encode_hint pos e) \<le> 2 * ent_size e" by (simp add: encode_hint_def ent_size_def)
    moreover have "length (encode_hints (log_positions (pos + ent_size e) es)) \<le> 2 * log_size es"
      using Cons by simp
    ultimately show ?case by simp
  qed simp
  then show "\<forall>e \<in> set es. ent_ok e \<Longrightarrow> length (hints_of es) \<le> 2 * log_size es" by (simp add: hints_of_def)
qed

section \<open>Names in the directory\<close>

lemma dir_names_iff:
  "name \<in> set (drop 2 (dir_names w pre)) \<longleftrightarrow>
     name \<noteq> [] \<and> CHR ''/'' \<notin> set name \<and> map_of (dir_entries w) (pre @ name) \<noteq> None"
proof
  assume n: "name \<in> set (drop 2 (dir_names w pre))"
  with dir_names_entries [OF n] show "name \<noteq> [] \<and> CHR ''/'' \<notin> set name \<and> map_of (dir_entries w) (pre @ name) \<noteq> None"
    by (simp add: dir_names_def)
next
  assume n: "name \<noteq> [] \<and> CHR ''/'' \<notin> set name \<and> map_of (dir_entries w) (pre @ name) \<noteq> None"
  then have "pre @ name \<in> fst ` set (dir_entries w)" by (simp add: map_of_eq_None_iff)
  with n show "name \<in> set (drop 2 (dir_names w pre))" by (force simp: dir_names_def)
qed

text \<open>Only regular files with names of the store are added.\<close>

lemma clean_dir_add:
  assumes "clean_dir dir w"
    and "\<And>q. map_of (dir_entries w') q = map_of (dir_entries w) q
      \<or> (\<exists>i ext j. q = ext_path dir i ext \<and> ext \<noteq> FILE_UNKNOWN \<and> unat i < 2 ^ 31 \<and> map_of (dir_entries w') q = Some (Regular j))"
  shows "clean_dir dir w'"
  unfolding clean_dir_def
proof
  fix name assume n: "name \<in> set (drop 2 (dir_names w' (dir_prefix dir)))"
  let ?q = "dir_prefix dir @ name"
  from assms(2) [of ?q] show "\<exists>i ext. named_file dir w' name i ext"
  proof
    assume same: "map_of (dir_entries w') ?q = map_of (dir_entries w) ?q"
    then have "name \<in> set (drop 2 (dir_names w (dir_prefix dir)))" using n by (simp add: dir_names_iff)
    then obtain i ext where nf: "named_file dir w name i ext" using assms(1) by (auto simp: clean_dir_def)
    then have "ext_path dir i ext = ?q" using prefix_name_path [of dir i ext] by (simp add: named_file_def)
    with nf same have "named_file dir w' name i ext" by (auto simp: named_file_def)
    then show ?thesis by blast
  next
    assume "\<exists>i ext j. ?q = ext_path dir i ext \<and> ext \<noteq> FILE_UNKNOWN \<and> unat i < 2 ^ 31
      \<and> map_of (dir_entries w') ?q = Some (Regular j)"
    then obtain i ext j where q: "?q = ext_path dir i ext" "ext \<noteq> FILE_UNKNOWN" "unat i < 2 ^ 31"
      "map_of (dir_entries w') ?q = Some (Regular j)" by blast
    have "dir_prefix dir @ name = dir_prefix dir @ decimal (unat i) @ the (ext_chars ext)"
      unfolding prefix_name_path by (rule q(1))
    then have "name = decimal (unat i) @ the (ext_chars ext)" by (simp only: same_append_eq)
    with q have "named_file dir w' name i ext" by (auto simp: named_file_def)
    then show ?thesis by blast
  qed
qed

lemma clean_dir_cong:
  assumes "\<And>q. map_of (dir_entries w') q = map_of (dir_entries w) q"
  shows "clean_dir dir w' = clean_dir dir w"
  using clean_dir_add [of dir w w'] clean_dir_add [of dir w' w] assms by auto

section \<open>Steps that leave the directory as it is\<close>

definition disk_frame :: "'a files_state_scheme \<Rightarrow> 'a files_state_scheme \<Rightarrow> bool" where
  "disk_frame w w' \<longleftrightarrow> (\<forall>q. map_of (dir_entries w') q = map_of (dir_entries w) q) \<and> (\<forall>q. bytes_at w' q = bytes_at w q)
     \<and> data_dir w' = data_dir w \<and> files_head w' = files_head w \<and> hint_pending w' = hint_pending w
     \<and> (\<forall>i. ccask_files_get_file i w' = ccask_files_get_file i w) \<and> has_hint_of (file_heap w') = has_hint_of (file_heap w)
     \<and> (\<forall>q. files_head w = Some q \<or> q \<in> set (hint_pending w) \<longrightarrow> id_of (file_heap w') q = id_of (file_heap w) q)"

lemma get_file_cong:
  assumes "files_rep w ps" and "files_rep w' ps" and "\<And>q. q \<in> set ps \<Longrightarrow> id_of (file_heap w') q = id_of (file_heap w) q"
  shows "ccask_files_get_file i w' = ccask_files_get_file i w"
proof -
  have "ccask_files_get_file i w' = Some p \<longleftrightarrow> ccask_files_get_file i w = Some p" for p
    unfolding ccask_files_get_file_iff [OF assms(1)] ccask_files_get_file_iff [OF assms(2)] using assms(3) by auto
  then show ?thesis by (metis not_None_eq)
qed

lemma disk_frame_grows:
  assumes "files_ok w ps" and "grows {} F w w'" and "data_dir w' = data_dir w" and "files_head w' = files_head w"
    and "hint_pending w' = hint_pending w" and "\<And>q. q \<in> set ps \<Longrightarrow> id_of (file_heap w') q = id_of (file_heap w) q"
    and "files_ok w' ps" and "has_hint_of (file_heap w') = has_hint_of (file_heap w)"
  shows "disk_frame w w'"
proof -
  have "ccask_files_get_file i w' = ccask_files_get_file i w" for i
    by (rule get_file_cong [of w ps]) (use assms(1,6,7) in \<open>simp_all add: files_ok_def\<close>)
  moreover obtain p qs where ps: "ps = p # qs" using files_ok_ne [OF assms(1)] by (cases ps) auto
  then have "files_head w = Some p" using assms(1) files_list_head by (auto simp: files_ok_def files_rep_def)
  then have "q \<in> set ps" if "files_head w = Some q \<or> q \<in> set (hint_pending w)" for q
    using that ps assms(1) by (auto simp: files_ok_def)
  ultimately show ?thesis using assms(2-6,8) by (auto simp: disk_frame_def grows_def)
qed

lemma disk_frame_reader: "files_ok w ps \<Longrightarrow> reader_frame ps w w' \<Longrightarrow> disk_frame w w'"
  by (rule disk_frame_grows [of w ps "{}"]) (simp_all add: reader_frame_def)

lemma disk_frame_same:
  assumes "dir_entries w' = dir_entries w" and "inode_data w' = inode_data w" and "same_files w w'"
  shows "disk_frame w w'"
  using assms(3) bytes_at_cong [OF assms(1,2)]
  by (simp add: disk_frame_def same_files_def ccask_files_get_file_def assms(1))

lemma disk_frame_io: "io_frame w w' \<Longrightarrow> disk_frame w w'"
  by (rule disk_frame_same) (simp_all add: frame_simps same_files_more io_frame_more)

lemma disk_frame_trans: "disk_frame w w' \<Longrightarrow> disk_frame w' w'' \<Longrightarrow> disk_frame w w''"
  by (simp add: disk_frame_def)

lemma log_disk_frame:
  assumes "disk_frame w w'"
  shows "log_disk crc32 L w' = log_disk crc32 L w" and "hints_due w' = hints_due w"
proof -
  have c: "clean_dir dir w' = clean_dir dir w" for dir using assms by (intro clean_dir_cong) (simp add: disk_frame_def)
  show "log_disk crc32 L w' = log_disk crc32 L w"
    using assms by (simp add: log_disk_def disk_frame_def data_bytes_def hint_absent_def c)
  have a: "hint_absent w' i = hint_absent w i" for i using assms by (simp add: disk_frame_def hint_absent_def)
  moreover have "nodes_known w' = nodes_known w" using assms by (simp add: nodes_known_def disk_frame_def a)
  moreover have "files_head w' = files_head w" "hint_pending w' = hint_pending w"
    "\<forall>q. files_head w = Some q \<or> q \<in> set (hint_pending w) \<longrightarrow> id_of (file_heap w') q = id_of (file_heap w) q"
    using assms by (simp_all add: disk_frame_def)
  ultimately show "hints_due w' = hints_due w" by (auto simp: hints_due_def)
qed

lemma durable_frame:
  assumes "durable crc32 L w" and "disk_frame w w'" and "system_inv crc32 w'" and "store_map w' = store_map w"
    and "max_active_file_size w' = max_active_file_size w"
    and "\<And>b. b \<in> set (pending_puts w') \<Longrightarrow> b \<in> set (pending_puts w) \<or> listable_key (fst b)"
  shows "durable crc32 L w'"
proof -
  have "\<forall>b \<in> set (pending_puts w'). listable_key (fst b)"
    using assms(1,6) unfolding durable_def by blast
  with assms(1,3-5) log_disk_frame [OF assms(2)] show ?thesis by (simp add: durable_def)
qed

section \<open>A record is written\<close>

text \<open>Without faults a write succeeds and touches nothing but datafiles.\<close>

definition write_frame :: "nat \<Rightarrow> 'a files_state_scheme \<Rightarrow> 'a files_state_scheme \<Rightarrow> bool" where
  "write_frame p w w' \<longleftrightarrow> fault_script w' = []
     \<and> has_hint_of (file_heap w') = has_hint_of (file_heap w)
     \<and> (\<forall>q. map_of (dir_entries w') q = map_of (dir_entries w) q
          \<or> q = data_path (data_dir w) (id_of (file_heap w) p + 1) \<and> (\<exists>j. map_of (dir_entries w') q = Some (Regular j)))
     \<and> (\<forall>q. q \<notin> range (data_path (data_dir w)) \<longrightarrow>
          map_of (dir_entries w') q = map_of (dir_entries w) q \<and> bytes_at w' q = bytes_at w q)
     \<and> (files_head w' = files_head w \<and> hint_pending w' = hint_pending w
        \<or> files_head w' \<noteq> Some p \<and> (hint_pending w' = hint_pending w \<or> hint_pending w' = p # hint_pending w))"

lemma write_frame_dirs:
  "write_frame p w w' \<Longrightarrow> map_of (dir_entries w') q = map_of (dir_entries w) q
     \<or> q = data_path (data_dir w) (id_of (file_heap w) p + 1) \<and> (\<exists>j. map_of (dir_entries w') q = Some (Regular j))"
  by (simp add: write_frame_def)

lemma write_here_frame:
  assumes ok: "files_ok w (p # ps)" and ready: "write_ready e p w" and nf: "fault_script w = []"
    and max: "unat (max_active_file_size w) \<le> max_file_size"
    and fit: "length (data_bytes w (id_of (file_heap w) p)) + ent_size e \<le> unat (max_active_file_size w)"
    and run: "ccask_write_record_blocking (ent_record e) w = Some (st, w')"
  shows "st = CCASK_OK" and "write_frame r w w'" and "files_head w' = files_head w" and "hint_pending w' = hint_pending w"
    and "dir_entries w' = dir_entries w" and "same_files w w'"
proof -
  obtain u l where wr: "ccask_write_record_blocking (ent_record e) w = do {
      (y, w3) \<leftarrow> ccask_attempt_opt 5 CCASK_RETRY (kd_upsert (ent_key e) l) u;
      Some (if y \<noteq> CCASK_OK then CCASK_FAIL else CCASK_OK, w3) }"
    and a: "appends (data_path (data_dir w) (id_of (file_heap w) p)) (encode_entry e) w u"
    by (rule write_here_calm [OF ok ready nf max fit])
  note same = same_files_fields [OF appends_fields(6) [OF a]]
  have kdi: "keydir_inv u" and key: "length (ent_key e) < 2 ^ 32"
    using ready more_kd_inv [OF same(11)] by (simp_all add: write_ready_def ent_ok_def ent_size_def)
  have inv: "posix_inv w" using ok by (simp add: files_ok_def)
  have nfu: "fault_script u = []" using appends_no_fault [OF a nf] .
  obtain y where y: "ccask_attempt_opt 5 CCASK_RETRY (kd_upsert (ent_key e) l) u = Some (y, w')"
    and st: "st = (if y \<noteq> CCASK_OK then CCASK_FAIL else CCASK_OK)"
    using run wr by (auto simp: bind_eq_Some_conv)
  have "y = CCASK_OK" by (rule attempt_upsert_calm [OF nfu kdi key y])
  with st show "st = CCASK_OK" by simp
  have kf: "kd_frame u w'" using y attempt_upsert_frame by (simp add: kd_upsert_def [abs_def])
  note k = kd_frame_same [OF kf]
  have "bytes_at w' q = bytes_at u q" for q by (rule bytes_at_cong) (simp_all add: k)
  then have "bytes_at w' q = bytes_at w q" if "q \<notin> range (data_path (data_dir w))" for q
    using appends_bytes [OF a inv] that by auto
  moreover show "files_head w' = files_head w" "hint_pending w' = hint_pending w" "same_files w w'"
    using kd_frame_files [OF kf] same_files_more [OF appends_fields(6) [OF a]] by (simp_all add: same_files_def)
  moreover show "dir_entries w' = dir_entries w" by (simp add: k appends_fields [OF a])
  ultimately show "write_frame r w w'"
    using kd_frame_files [OF kf] grows_no_fault [OF kd_frame_grows [OF kf] nfu]
    unfolding write_frame_def by (simp add: k same appends_fields [OF a] same_files_def)
qed

lemma write_calm:
  assumes ok: "files_ok w (p # ps)" and ready: "write_ready e p w" and nf: "fault_script w = []"
    and max: "unat (max_active_file_size w) \<le> max_file_size"
    and run: "ccask_write_record_blocking (ent_record e) w = Some (st, w')"
  shows "st = CCASK_OK" and "write_frame p w w'"
    and "files_head w' = Some h \<Longrightarrow> id_of (file_heap w') h = id_of (file_heap w) p \<or> id_of (file_heap w') h = id_of (file_heap w) p + 1"
    and "files_head w' = Some h \<Longrightarrow> h \<noteq> p \<Longrightarrow> \<not> has_hint_of (file_heap w') h"
proof -
  have head: "files_head w = Some p" using ok files_list_head by (auto simp: files_ok_def files_rep_def)
  have "st = CCASK_OK \<and> write_frame p w w' \<and> (files_head w' = Some h \<longrightarrow>
      id_of (file_heap w') h = id_of (file_heap w) p \<or> id_of (file_heap w') h = id_of (file_heap w) p + 1)
      \<and> (files_head w' = Some h \<longrightarrow> h \<noteq> p \<longrightarrow> \<not> has_hint_of (file_heap w') h)"
  proof (cases "length (data_bytes w (id_of (file_heap w) p)) + ent_size e \<le> unat (max_active_file_size w)")
    case True
    show ?thesis using write_here_frame [OF ok ready nf max True run] head by (auto simp: same_files_def)
  next
    case False
    obtain q u F where u: "ccask_write_record_blocking (ent_record e) w = ccask_write_record_blocking (ent_record e) u"
      "files_ok u (q # p # ps)" "write_ready e q u" "fault_script u = []"
      "length (data_bytes u (id_of (file_heap u) q)) + ent_size e \<le> unat (max_active_file_size u)"
      "grows {data_path (data_dir w) (id_of (file_heap w) p + 1)} F w u"
      "data_dir u = data_dir w" "max_active_file_size u = max_active_file_size w"
      "hint_pending u = hint_pending w \<or> hint_pending u = p # hint_pending w"
      "id_of (file_heap u) q = id_of (file_heap w) p + 1" "has_hint_of (file_heap u) = has_hint_of (file_heap w)"
      "\<not> has_hint_of (file_heap u) q"
      by (rule write_rotate_calm [OF ok ready nf False])
    have "lookup_inode u (data_path (data_dir w) (id_of (file_heap w) p + 1)) \<noteq> None"
      using files_ok_exists [OF u(2), of q] u(7,10) by simp
    then have reg: "\<exists>j. map_of (dir_entries u) (data_path (data_dir w) (id_of (file_heap w) p + 1)) = Some (Regular j)"
      by (auto simp: lookup_inode_def split: option.splits node.splits)
    have maxu: "unat (max_active_file_size u) \<le> max_file_size" using max u(8) by simp
    have st: "st = CCASK_OK" and fr: "write_frame p u w'"
      using write_here_frame [OF u(2-4) maxu u(5) run [unfolded u(1)]] by blast+
    have rep: "files_list u (q # p # ps)" using u(2) by (simp add: files_ok_def files_rep_def)
    have headu: "files_head u = Some q" "q \<noteq> p" using rep files_list_head by (auto simp: files_list_def)
    have "files_head w' = files_head u \<and> hint_pending w' = hint_pending u \<and> dir_entries w' = dir_entries u"
      using write_here_frame(3-5) [OF u(2-4) maxu u(5) run [unfolded u(1)]] by blast
    moreover have "map_of (dir_entries u) x = map_of (dir_entries w) x
        \<or> x = data_path (data_dir w) (id_of (file_heap w) p + 1) \<and> (\<exists>j. map_of (dir_entries u) x = Some (Regular j))" for x
      using u(6) reg by (cases "x = data_path (data_dir w) (id_of (file_heap w) p + 1)") (auto simp: grows_def)
    moreover have "map_of (dir_entries u) x = map_of (dir_entries w) x \<and> bytes_at u x = bytes_at w x"
      if "x \<notin> range (data_path (data_dir w))" for x using that u(6) by (auto simp: grows_def)
    ultimately have "write_frame p w w'"
      using fr u(7,9,11) headu by (auto simp: write_frame_def)
    moreover have "same_files u w'" using write_here_frame(6) [OF u(2-4) maxu u(5) run [unfolded u(1)]] .
    ultimately show ?thesis using st headu u(10,12) by (auto simp: same_files_def)
  qed
  then show "st = CCASK_OK" and "write_frame p w w'" and "files_head w' = Some h \<Longrightarrow>
    id_of (file_heap w') h = id_of (file_heap w) p \<or> id_of (file_heap w') h = id_of (file_heap w) p + 1"
    and "files_head w' = Some h \<Longrightarrow> h \<noteq> p \<Longrightarrow> \<not> has_hint_of (file_heap w') h" by blast+
qed

text \<open>A new file has a node without a hintfile.\<close>

lemma nodes_known_write:
  assumes known: "nodes_known w" and ok: "files_ok w (p # ps)" and ok': "files_ok w' (qs @ p # ps)" and d: "data_dir w' = data_dir w"
    and ids: "\<forall>q \<in> set (p # ps). id_of (file_heap w') q = id_of (file_heap w) q" and fr: "write_frame p w w'"
    and head: "files_head w' = Some h" "id_of (file_heap w') h = id_of (file_heap w) p \<or> id_of (file_heap w') h = id_of (file_heap w) p + 1"
      "h \<noteq> p \<Longrightarrow> \<not> has_hint_of (file_heap w') h"
    and room: "id_of (file_heap w) p + 1 \<noteq> 0" and absent: "\<And>j. id_of (file_heap w) p \<le> j \<Longrightarrow> hint_absent w j"
  shows "nodes_known w'"
  unfolding nodes_known_def d
proof (intro allI impI)
  fix i assume there: "map_of (dir_entries w') (data_path (data_dir w) i) \<noteq> None"
  let ?k = "id_of (file_heap w) p"
  have rep: "files_rep w (p # ps)" and rep': "files_rep w' (qs @ p # ps)" using ok ok' by (simp_all add: files_ok_def)
  have "hint_path (data_dir w) i \<notin> range (data_path (data_dir w))" using hint_path_data_path by blast
  then have habs: "hint_absent w' i = hint_absent w i" and flag: "has_hint_of (file_heap w') = has_hint_of (file_heap w)"
    using fr by (simp_all add: write_frame_def hint_absent_def d)
  show "\<exists>p. ccask_files_get_file i w' = Some p \<and> (has_hint_of (file_heap w') p \<longleftrightarrow> \<not> hint_absent w' i)"
  proof (cases "map_of (dir_entries w) (data_path (data_dir w) i) = None")
    case False
    then obtain r where r: "ccask_files_get_file i w = Some r" "has_hint_of (file_heap w) r \<longleftrightarrow> \<not> hint_absent w i"
      using known by (auto simp: nodes_known_def)
    then have "r \<in> set (p # ps)" "id_of (file_heap w) r = i" using ccask_files_get_file_iff [OF rep] by blast+
    then have "ccask_files_get_file i w' = Some r" using ids by (subst ccask_files_get_file_iff [OF rep']) auto
    with r habs flag show ?thesis by auto
  next
    case True
    then have "data_path (data_dir w) i = data_path (data_dir w) (?k + 1)" using fr there unfolding write_frame_def by metis
    then have i: "i = ?k + 1" by (simp add: data_path_inj)
    obtain g gs where list: "qs @ p # ps = g # gs" by (cases qs) auto
    have g: "g = h" using files_list_head [of w' g gs] rep' head(1) by (simp add: files_rep_def list)
    have lt: "?k < ?k + 1" using room by (rule u64_less_inc)
    have "\<not> id_of (file_heap w') h < i"
      using active_newer_absent [OF ok' [unfolded list], of i] there by (auto simp: g d)
    then have idh: "id_of (file_heap w') h = i" using head(2) i lt by auto
    moreover have "h \<in> set (qs @ p # ps)" using list g by simp
    ultimately have "ccask_files_get_file i w' = Some h" by (subst ccask_files_get_file_iff [OF rep']) simp
    moreover have "h \<noteq> p" using idh ids i lt by auto
    moreover have "hint_absent w' i" using habs absent [of i] i lt by simp
    ultimately show ?thesis using head(3) by auto
  qed
qed

text \<open>The logs after the write.\<close>

lemma durable_write:
  fixes w w' :: "'a keydir_state_scheme"
  assumes si: "store_inv crc32 w (p # ps)" and ld: "log_disk crc32 L w" and due: "hints_due w"
    and m: "store_map w = log_map (logs L) Map.empty" and max: "unat (max_active_file_size w) < 2 ^ 62"
    and e: "ent_ok e" "entry_valid crc32 e" "hintable e" and fit: "ent_size e \<le> unat (max_active_file_size w)"
    and room: "id_of (file_heap w) p + 1 \<noteq> 0" and nf: "fault_script w = []"
    and run: "ccask_write_record_blocking (ent_record e) w = Some (st, w')"
    and small: "\<And>q. files_head w' = Some q \<Longrightarrow> unat (id_of (file_heap w') q) + 1 < 2 ^ 31"
  shows "st = CCASK_OK" and "fault_script w' = []"
    and "\<exists>L'. log_disk crc32 L' w' \<and> hints_due w' \<and> store_map w' = log_map (logs L') Map.empty"
proof -
  have ok: "files_ok w (p # ps)" and kdi: "keydir_inv w" and max': "unat (max_active_file_size w) \<le> max_file_size"
    using si by (simp_all add: store_inv_def)
  have ready: "write_ready e p w"
    using si e(1) fit room by (simp add: write_ready_def store_inv_def)
  note calm = write_calm [OF ok ready nf max' run]
  have st: "st = CCASK_OK" and fr: "write_frame p w w'" using calm by blast+
  show "st = CCASK_OK" and "fault_script w' = []" using st fr by (simp_all add: write_frame_def)
  obtain ps' where m': "store_map w' = (store_map w)(ent_key e \<mapsto> (ent_timestamp e, ent_value e))"
    by (rule record_write [OF si e(1,2) fit _ run]) (use room st in simp_all)
  obtain qs bs i where ok': "files_ok w' (qs @ p # ps)" and d: "data_dir w' = data_dir w"
    and ids: "\<forall>q \<in> set (p # ps). id_of (file_heap w') q = id_of (file_heap w) q"
    and i: "i = id_of (file_heap w') (hd (qs @ p # ps))"
    and data: "\<forall>j. data_bytes w' j = data_bytes w j @ (if j = i then bs else [])"
    and fits: "bs \<noteq> [] \<longrightarrow> length (data_bytes w i) + ent_size e \<le> unat (max_active_file_size w)"
    and bs: "bs = encode_entry e"
    using write_result [OF run ok ready] st unfolding write_outcome_def by blast
  obtain h hs where list: "qs @ p # ps = h # hs" by (cases qs) auto
  have ih: "i = id_of (file_heap w') h" using i list by simp
  have fl: "files_list w' (h # hs)" using ok' unfolding list by (simp add: files_ok_def files_rep_def)
  have head': "files_head w' = Some h" using files_list_head [OF fl] .
  have head: "files_head w = Some p" using ok files_list_head by (auto simp: files_ok_def files_rep_def)
  have ge: "id_of (file_heap w) p \<le> i"
  proof -
    have "p = h \<or> p \<in> set hs" using list by (cases qs) auto
    then have "id_of (file_heap w') p \<le> id_of (file_heap w') h" using fl by (auto simp: files_list_def less_imp_le)
    with ids ih show ?thesis by simp
  qed
  have above: "L j = []" if "i < j" for j
  proof -
    have "data_bytes w' j = []" using active_newer_empty [OF ok' [unfolded list]] that ih by simp
    then have "encode_log (L j) = []" using data ld by (simp add: log_disk_def)
    then show ?thesis by (rule encode_log_empty)
  qed
  let ?L = "L(i := L i @ [e])"
  have no_data: "hint_path (data_dir w) j \<notin> range (data_path (data_dir w))" for j using hint_path_data_path by blast
  have hp: "hint_absent w' j = hint_absent w j" "bytes_at w' (hint_path (data_dir w) j) = bytes_at w (hint_path (data_dir w) j)" for j
    using fr no_data [of j] by (simp_all add: write_frame_def hint_absent_def d)
  have absent: "hint_absent w j" if "id_of (file_heap w) p \<le> j" for j
    using due head that by (simp add: hints_due_def)
  have "log_disk crc32 ?L w'"
  proof -
    have "clean_dir (data_dir w) w'"
    proof (rule clean_dir_add)
      show "clean_dir (data_dir w) w" using ld by (simp add: log_disk_def)
      fix q
      show "map_of (dir_entries w') q = map_of (dir_entries w) q \<or> (\<exists>i ext j. q = ext_path (data_dir w) i ext
          \<and> ext \<noteq> FILE_UNKNOWN \<and> unat i < 2 ^ 31 \<and> map_of (dir_entries w') q = Some (Regular j))"
      proof (cases "q \<in> range (data_path (data_dir w))")
        case False
        with fr show ?thesis by (simp add: write_frame_def)
      next
        case True
        then obtain k where q: "q = data_path (data_dir w) k" by blast
        show ?thesis
        proof (cases "i < k")
          case True
          have "map_of (dir_entries w') q = None" using active_newer_absent [OF ok' [unfolded list]] True ih q d by simp
          moreover have "map_of (dir_entries w') q = map_of (dir_entries w) q \<or> (\<exists>j. map_of (dir_entries w') q = Some (Regular j))"
            using write_frame_dirs [OF fr, of q] by blast
          ultimately show ?thesis by simp
        next
          case False
          then have "unat k \<le> unat i" by (simp add: word_le_nat_alt not_less)
          then have "unat k < 2 ^ 31" using small [OF head'] ih by simp
          moreover have "map_of (dir_entries w') q = map_of (dir_entries w) q \<or> (\<exists>j. map_of (dir_entries w') q = Some (Regular j))"
            using write_frame_dirs [OF fr, of q] by blast
          ultimately show ?thesis using q by (auto simp: data_path_def)
        qed
      qed
    qed
    moreover have "data_bytes w' j = encode_log (?L j)" for j using data ld bs by (simp add: log_disk_def)
    moreover have "log_size (?L j) < 2 ^ 62" for j
    proof -
      have "length bs \<noteq> 0" by (simp add: bs encode_entry_def)
      then have "bs \<noteq> []" by simp
      then have "log_size (L i) + ent_size e \<le> unat (max_active_file_size w)" using fits ld by (simp add: log_disk_def)
      with max ld show ?thesis by (auto simp: log_disk_def)
    qed
    moreover have keep: "map_of (dir_entries w') q = map_of (dir_entries w) q \<or> (\<exists>j. map_of (dir_entries w') q = Some (Regular j))" for q
      using write_frame_dirs [OF fr, of q] by blast
    have "bytes_at w' (hint_path (data_dir w) j) = hints_of (?L j)
        \<and> map_of (dir_entries w') (data_path (data_dir w) j) \<noteq> None" if present: "\<not> hint_absent w' j" for j
    proof -
      have "\<not> hint_absent w j" using present hp by simp
      moreover from this have "j \<noteq> i" using absent [OF ge] by blast
      ultimately show ?thesis using ld hp keep [of "data_path (data_dir w) j"] by (auto simp: log_disk_def)
    qed
    moreover have "unat j + 1 < 2 ^ 31" if "map_of (dir_entries w') (data_path (data_dir w) j) \<noteq> None" for j
    proof -
      have "\<not> i < j" using active_newer_absent [OF ok' [unfolded list], of j] that ih d by auto
      then have "unat j \<le> unat i" by (simp add: word_le_nat_alt not_less)
      then show ?thesis using small [OF head'] ih by simp
    qed
    moreover have "\<forall>e' \<in> set (?L j). ent_ok e' \<and> entry_valid crc32 e' \<and> hintable e'" for j
      using ld e by (simp add: log_disk_def)
    ultimately show ?thesis using ld d unfolding log_disk_def by simp
  qed
  moreover have "hints_due w'"
  proof -
    have sub: "set (hint_pending w) \<subseteq> set (p # ps)" using ok by (simp add: files_ok_def)
    have fresh: "p \<notin> set (hint_pending w)" using due head by (auto simp: hints_due_def)
    have pend: "hint_pending w' = hint_pending w \<or> hint_pending w' = p # hint_pending w"
      and new: "h = p \<Longrightarrow> hint_pending w' = hint_pending w"
      using fr head head' by (auto simp: write_frame_def)
    have "distinct (hint_pending w')" using due fresh pend by (auto simp: hints_due_def)
    moreover have "files_head w' \<noteq> Some q \<and> hint_absent w' (id_of (file_heap w') q)" if q: "q \<in> set (hint_pending w')" for q
    proof -
      have qs: "q \<in> set (p # ps)" using q pend sub by auto
      have "hint_absent w (id_of (file_heap w) q)" using q pend absent due by (auto simp: hints_due_def)
      moreover have "h \<noteq> q"
      proof (cases "h = p")
        case True
        with new fresh q show ?thesis by auto
      next
        case False
        then have "h \<notin> set (p # ps)" using list fl by (cases qs) (auto simp: files_list_def)
        with qs show ?thesis by blast
      qed
      moreover have "id_of (file_heap w') q = id_of (file_heap w) q" using ids qs by blast
      ultimately show ?thesis using hp(1) head' by simp
    qed
    moreover have "hint_absent w' j" if "id_of (file_heap w') h \<le> j" for j
      using that ge absent hp(1) ih by simp
    moreover have "nodes_known w'"
      by (rule nodes_known_write [OF _ ok ok' d ids fr head' calm(3,4) [OF head'] room absent]) (use due in \<open>simp_all add: hints_due_def\<close>)
    ultimately show ?thesis using head' by (auto simp: hints_due_def)
  qed
  moreover have "store_map w' = log_map (logs ?L) Map.empty"
  proof -
    have "logs ?L = logs L @ [e]" by (rule logs_append) (rule above)
    then show ?thesis by (simp only: m' m log_map_simps)
  qed
  ultimately show "\<exists>L'. log_disk crc32 L' w' \<and> hints_due w' \<and> store_map w' = log_map (logs L') Map.empty" by blast
qed

section \<open>A hintfile is generated\<close>

lemma files_list_head_newest:
  assumes "files_list w (h # hs)" and "q \<in> set hs"
  shows "id_of (file_heap w) q < id_of (file_heap w) h"
  using assms by (simp add: files_list_def)

lemma durable_hint:
  fixes w :: "'a keydir_state_scheme"
  assumes si: "store_inv crc32 w ps" and ld: "log_disk crc32 L w" and due: "hints_due w" and nf: "fault_script w = []"
    and pend: "p \<in> set (hint_pending w)"
  obtains w' where "hint_thread_run p w = Some w'" and "fault_script w' = []" and "log_disk crc32 L w'" and "hints_due w'"
    and "data_dir w' = data_dir w" and "files_head w' = files_head w" and "id_of (file_heap w') = id_of (file_heap w)"
proof -
  let ?u = "w\<lparr>hint_pending := remove1 p (hint_pending w)\<rparr>"
  have ok: "files_ok w ps" using si by (simp add: store_inv_def)
  have "set (remove1 p (hint_pending w)) \<subseteq> set ps"
    using ok set_remove1_subset [of p "hint_pending w"] by (auto simp: files_ok_def)
  then have oku: "files_ok ?u ps" using store_inv_pending(1) [OF si] by (simp add: store_inv_def)
  have p: "p \<in> set ps" using ok pend by (auto simp: files_ok_def)
  obtain f where f: "file_heap ?u p = Some f" using oku p files_rep_allocated by (force simp: files_ok_def)
  let ?i = "cf_id f" and ?hp = "hint_path (data_dir w) (cf_id f)"
  have idp: "id_of (file_heap w) p = ?i" using f by (simp add: id_of_def)
  have invu: "posix_inv ?u" using oku by (simp add: files_ok_def)
  have du: "data_bytes ?u j = data_bytes w j" for j using bytes_at_cong [of ?u w] by (simp add: data_bytes_def)
  have es: "data_bytes ?u ?i = encode_log (L ?i)" "\<forall>e \<in> set (L ?i). ent_ok e \<and> hintable e" "log_size (L ?i) < 2 ^ 62"
    using ld du by (simp_all add: log_disk_def)
  have size: "log_size (L ?i) < 2 ^ 63" using es(3) by simp
  have "length (hints_of (L ?i)) \<le> 2 * log_size (L ?i)" using es(2) length_hints_of by blast
  then have room: "length (hints_of (L ?i)) \<le> max_file_size" using es(3) by (simp add: max_file_size_def)
  have abs: "hint_absent w ?i" using due pend idp by (auto simp: hints_due_def)
  have new: "map_of (dir_entries ?u) (hint_path (data_dir ?u) ?i) = None" using abs by (simp add: hint_absent_def)
  have nfu: "fault_script ?u = []" using nf by simp
  obtain w' where gen: "hintfile_generator_thread p ?u = Some w'" and node': "file_heap w' p = Some (f\<lparr>cf_has_hint := True\<rparr>)" and v: "bytes_at w' (hint_path (data_dir ?u) ?i) = hints_of (L ?i)"
    "lookup_inode w' (hint_path (data_dir ?u) ?i) \<noteq> None" and nf': "fault_script w' = []"
    by (rule hintfile_generator_thread_no_fault [OF nfu oku p f es(1,2) size new room])
  have w': "bytes_at w' ?hp = hints_of (L ?i)" "lookup_inode w' ?hp \<noteq> None" using v by simp_all
  have run: "hint_thread_run p w = Some w'" using pend gen by (simp add: hint_thread_run_def)
  have "besides {?hp} ?u w' \<and> data_dir w' = data_dir ?u \<and> files_head w' = files_head ?u
      \<and> hint_pending w' = hint_pending ?u \<and> id_of (file_heap w') = id_of (file_heap ?u)
      \<and> file_table w' = file_table ?u \<and> (\<forall>q. q \<noteq> p \<longrightarrow> has_hint_of (file_heap w') q = has_hint_of (file_heap ?u) q)"
  proof (cases rule: generator_thread_files [OF gen invu f, case_names unmarked marked])
    case unmarked
    from unmarked(1) same_files_fields [OF unmarked(2)] show ?thesis by simp
  next
    case (marked x bs)
    note sx = same_files_fields [OF marked(2)]
    have "besides {?hp} ?u w'"
      by (rule besides_same [where u = x]) (use marked(1) in \<open>simp_all add: marked(3)\<close>)
    moreover have "id_of (file_heap w') = id_of (file_heap ?u)"
      using f sx by (auto simp: marked(3) id_of_def fun_eq_iff)
    ultimately show ?thesis using sx by (simp add: marked(3))
  qed
  then have bes: "besides {?hp} ?u w'" and same: "data_dir w' = data_dir w" "files_head w' = files_head w"
    "hint_pending w' = remove1 p (hint_pending w)" "id_of (file_heap w') = id_of (file_heap w)"
    and table: "file_table w' = file_table w" and flags: "\<And>q. q \<noteq> p \<Longrightarrow> has_hint_of (file_heap w') q = has_hint_of (file_heap w) q"
    by simp_all
  have other: "map_of (dir_entries w') q = map_of (dir_entries w) q \<and> bytes_at w' q = bytes_at w q" if "q \<noteq> ?hp" for q
    using bes that bytes_at_cong [of ?u w] by (simp add: besides_def)
  have hpath: "hint_path (data_dir w) j = ?hp \<longleftrightarrow> j = ?i" for j by (simp add: hint_path_def ext_path_inj)
  have habs: "hint_absent w' j = hint_absent w j" if "j \<noteq> ?i" for j
    using other [of "hint_path (data_dir w) j"] hpath that by (simp add: hint_absent_def same)
  have "log_disk crc32 L w'"
  proof -
    have clean: "clean_dir (data_dir w) w" using ld by (simp add: log_disk_def)
    have there: "map_of (dir_entries w) (data_path (data_dir w) ?i) \<noteq> None"
      using files_ok_exists [OF ok p] idp by (auto simp: lookup_inode_def split: option.splits)
    from clean_dir_ids(1) [OF clean this] have small: "unat ?i < 2 ^ 31" .
    have reg: "\<exists>j. map_of (dir_entries w') ?hp = Some (Regular j)"
      using w'(2) by (auto simp: lookup_inode_def split: option.splits node.splits)
    have "clean_dir (data_dir w) w'"
    proof (rule clean_dir_add [OF clean])
      fix q
      show "map_of (dir_entries w') q = map_of (dir_entries w) q \<or> (\<exists>i ext j. q = ext_path (data_dir w) i ext
          \<and> ext \<noteq> FILE_UNKNOWN \<and> unat i < 2 ^ 31 \<and> map_of (dir_entries w') q = Some (Regular j))"
        using other [of q] small reg by (cases "q = ?hp") (auto simp: hint_path_def)
    qed
    moreover have "data_bytes w' j = data_bytes w j" for j
      using other [of "data_path (data_dir w) j"] hint_path_data_path [of "data_dir w" ?i j]
      by (simp add: data_bytes_def same)
    moreover have dsame: "map_of (dir_entries w') (data_path (data_dir w) j) = map_of (dir_entries w) (data_path (data_dir w) j)" for j
      using other [of "data_path (data_dir w) j"] hint_path_data_path [of "data_dir w" ?i j] by simp
    have "bytes_at w' (hint_path (data_dir w) j) = hints_of (L j)
        \<and> map_of (dir_entries w) (data_path (data_dir w) j) \<noteq> None" if "\<not> hint_absent w' j" for j
    proof (cases "j = ?i")
      case True
      with w'(1) there show ?thesis by simp
    next
      case False
      with that habs other [of "hint_path (data_dir w) j"] hpath ld show ?thesis by (simp add: log_disk_def)
    qed
    ultimately show ?thesis using ld dsame unfolding log_disk_def same by simp
  qed
  moreover have "hints_due w'"
  proof -
    obtain h hs where hs: "ps = h # hs" using files_ok_ne [OF ok] by (cases ps) auto
    have fl: "files_list w (h # hs)" using ok hs by (simp add: files_ok_def files_rep_def)
    have head: "files_head w = Some h" using files_list_head [OF fl] .
    have "p \<noteq> h" using due pend head by (auto simp: hints_due_def)
    then have older: "?i < id_of (file_heap w) h" using files_list_head_newest [OF fl, of p] p hs idp by simp
    have dist: "distinct (hint_pending w)" using due by (simp add: hints_due_def)
    have "files_head w' \<noteq> Some q \<and> hint_absent w' (id_of (file_heap w') q)" if q: "q \<in> set (hint_pending w')" for q
    proof -
      have q': "q \<in> set (hint_pending w)" "q \<noteq> p" using q dist same(3) by auto
      have "q \<in> set ps" using q'(1) ok by (auto simp: files_ok_def)
      then have "id_of (file_heap w) q \<noteq> ?i" using files_rep_id_inj [of w ps q p] ok q'(2) p idp by (auto simp: files_ok_def)
      then show ?thesis using habs due q'(1) by (simp add: hints_due_def same)
    qed
    moreover have "hint_absent w' j" if "id_of (file_heap w) h \<le> j" for j
      using habs [of j] older that due head by (auto simp: hints_due_def)
    moreover have "nodes_known w'"
      unfolding nodes_known_def same(1)
    proof (intro allI impI)
      fix i assume there: "map_of (dir_entries w') (data_path (data_dir w) i) \<noteq> None"
      have rep: "files_rep w ps" using ok by (simp add: files_ok_def)
      have "map_of (dir_entries w) (data_path (data_dir w) i) \<noteq> None"
        using there other [of "data_path (data_dir w) i"] hint_path_data_path [of "data_dir w" ?i i] by simp
      then obtain r where r: "ccask_files_get_file i w = Some r" "has_hint_of (file_heap w) r \<longleftrightarrow> \<not> hint_absent w i"
        using due by (auto simp: hints_due_def nodes_known_def)
      then have r': "r \<in> set ps" "id_of (file_heap w) r = i" using ccask_files_get_file_iff [OF rep] by blast+
      have get: "ccask_files_get_file i w' = Some r" using r(1) by (simp add: ccask_files_get_file_def table)
      have "has_hint_of (file_heap w') r \<longleftrightarrow> \<not> hint_absent w' i"
      proof (cases "r = p")
        case True
        then have "i = ?i" using r'(2) idp by simp
        moreover have "\<not> hint_absent w' ?i" using w'(2) by (auto simp: hint_absent_def same lookup_inode_def split: option.splits)
        ultimately show ?thesis using True node' by (simp add: has_hint_of_def)
      next
        case False
        then have "i \<noteq> ?i" using files_rep_id_inj [OF rep r'(1) p] r'(2) idp by auto
        with False flags r(2) habs show ?thesis by simp
      qed
      with get show "\<exists>p. ccask_files_get_file i w' = Some p \<and> (has_hint_of (file_heap w') p \<longleftrightarrow> \<not> hint_absent w' i)" by blast
    qed
    ultimately show ?thesis using dist head by (simp add: hints_due_def same distinct_remove1)
  qed
  ultimately show thesis using that [OF run nf'] same by blast
qed

section \<open>Runs without faults\<close>

text \<open>
  A state without faults whose identifiers fit the \<open>int\<close> of \<open>atoi\<close>, which reads them at the next
  start; and the steps between such states, for keys that a hintfile can list.
\<close>

definition calm :: "'a files_state_scheme \<Rightarrow> bool" where
  "calm w \<longleftrightarrow> fault_script w = [] \<and> (\<forall>p. files_head w = Some p \<longrightarrow> unat (id_of (file_heap w) p) + 1 < 2 ^ 31)"

definition event_listable :: "store_event \<Rightarrow> bool" where
  "event_listable e \<longleftrightarrow> (case e of Put_blocking k _ _ _ \<Rightarrow> listable_key k | Put k _ _ _ \<Rightarrow> listable_key k | _ \<Rightarrow> True)"

definition calm_step :: "crc_fun \<Rightarrow> store_event \<Rightarrow> 'a store_state_scheme \<Rightarrow> 'a store_state_scheme \<Rightarrow> bool" where
  "calm_step crc32 e w w' \<longleftrightarrow> store_step crc32 e w w' \<and> event_listable e \<and> calm w'"

lemma hintable_key: "hintable e \<longleftrightarrow> listable_key (ent_key e)"
  by (auto simp: hintable_def listable_key_def)

lemma durableE:
  assumes "durable crc32 L w"
  obtains p ps where "store_inv crc32 w (p # ps)" and "files_ok w (p # ps)" and "queued_ok crc32 w" and "log_disk crc32 L w"
    and "hints_due w" and "store_map w = log_map (logs L) Map.empty" and "unat (max_active_file_size w) < 2 ^ 62"
proof -
  obtain qs where qs: "store_inv crc32 w qs" and rest: "queued_ok crc32 w" "log_disk crc32 L w" "hints_due w"
    "store_map w = log_map (logs L) Map.empty" "unat (max_active_file_size w) < 2 ^ 62"
    using assms by (auto simp: durable_def system_inv_def)
  have ok: "files_ok w qs" using qs by (simp add: store_inv_def)
  obtain p ps where "qs = p # ps" using files_ok_ne [OF ok] by (cases qs) auto
  with that qs ok rest show thesis by blast
qed

text \<open>What a write in a durable store leaves; the queue is what the caller makes of it.\<close>

lemma durable_record:
  fixes w w' :: "'a writer_state_scheme"
  assumes dur: "durable crc32 L w" and nf: "fault_script w = []"
    and e: "ent_ok e" "entry_valid crc32 e" "hintable e" and fit: "ent_size e \<le> unat (max_active_file_size w)"
    and room: "next_id_left w" and io: "disk_frame w u" "store_inv crc32 u (p # ps)" "store_map u = store_map w"
      "fault_script u = []" "max_active_file_size u = max_active_file_size w" "next_id_left u"
    and run: "ccask_write_record_blocking (ent_record e) u = Some (st, w')" and calm: "calm w'"
    and inv: "system_inv crc32 w'" and queue: "\<And>b. b \<in> set (pending_puts w') \<Longrightarrow> b \<in> set (pending_puts w)"
    and max': "max_active_file_size w' = max_active_file_size w"
  shows "st = CCASK_OK" and "\<exists>L'. durable crc32 L' w'"
proof -
  have d: "log_disk crc32 L u" "hints_due u" "store_map u = log_map (logs L) Map.empty"
    "unat (max_active_file_size u) < 2 ^ 62" "ent_size e \<le> unat (max_active_file_size u)"
    using dur io(3,5) fit log_disk_frame [OF io(1)] by (simp_all add: durable_def)
  have id: "id_of (file_heap u) p + 1 \<noteq> 0" using next_id_hd [OF io(2,6)] by simp
  have small: "unat (id_of (file_heap w') q) + 1 < 2 ^ 31" if "files_head w' = Some q" for q
    using calm that by (simp add: calm_def)
  note w = durable_write [OF io(2) d(1-4) e d(5) id io(4) run small]
  show "st = CCASK_OK" by (rule w(1))
  have "\<forall>b \<in> set (pending_puts w'). listable_key (fst b)" using queue dur by (simp add: durable_def)
  with w(3) inv dur max' show "\<exists>L'. durable crc32 L' w'" by (auto simp: durable_def)
qed

lemma durable_put_blocking:
  fixes w w' :: "'a store_state_scheme"
  assumes dur: "durable crc32 L w" and nf: "fault_script w = []" and args: "put_args key ksize v vsize w"
    and ids: "next_id_left w" and key: "listable_key (take (unat ksize) key)"
    and run: "ccask_put_blocking crc32 key ksize (Some v) vsize w = Some (st, w')" and calm: "calm w'"
  shows "\<exists>L'. durable crc32 L' w'"
proof -
  let ?e = "new_entry crc32 (sys_time w) key ksize (Some v) vsize"
  obtain p ps where si: "store_inv crc32 w (p # ps)" by (rule durableE [OF dur])
  have sys: "system_inv crc32 w" using dur by (simp add: durable_def)
  note keep = put_blocking_simulates(1) [OF sys args ids run]
  have same: "max_active_file_size w' = max_active_file_size w" "keydir_state.more w' = keydir_state.more w"
    by (rule ccask_put_blocking_result [OF si put_args_ok [OF args ids si] run], assumption)+
  note queue = queue_same [OF same(2,1)]
  have b: "buffers_ok key ksize (Some v) vsize" using args by (simp add: put_args_def buffers_ok_def bytes_of_def)
  have size: "0 < vsize" "16 + unat ksize + unat vsize < 2 ^ 32" using args by (simp_all add: put_args_def)
  show ?thesis
  proof (cases rule: ccask_put_blocking_cases [OF run b, case_names unchanged written])
    case unchanged
    have "durable crc32 L w'"
      by (rule durable_frame [OF dur disk_frame_io [OF unchanged(2)] keep])
         (use store_inv_io(2) [OF si unchanged(2)] same queue in simp_all)
    then show ?thesis by blast
  next
    case (written u res)
    note sio = store_inv_io [OF si written(1)] same_files_fields [OF io_frame_more [OF written(1)]]
    have "ent_size ?e \<le> unat (max_active_file_size w)" using new_entry_ok [OF b size] args by (simp add: put_args_def)
    moreover have "hintable ?e" using key by (simp add: hintable_key new_entry_def)
    moreover have "next_id_left u" using ids unfolding next_id_left_def sio(6,8) .
    ultimately show ?thesis
      using durable_record(2) [OF dur nf new_entry_ok(1) [OF b size] new_entry_valid [OF b] _ _ ids
          disk_frame_io [OF written(1)] sio(1,2) io_frame_no_fault [OF written(1) nf] sio(3) _ written(2) calm keep _ same(1)]
        queue by simp
  qed
qed

text \<open>A put changes the queue only.\<close>

lemma ccask_put_disk:
  assumes run: "ccask_put crc32 key ksize (Some v) vsize w = Some (st, w')" and b: "buffers_ok key ksize (Some v) vsize"
  shows "disk_frame w w'"
proof -
  have step: "disk_frame u u'" if put: "put_attempt crc32 key ksize (Some v) vsize u = Some (x, u')" for u u' x
  proof -
    obtain rb rb' t where push: "ccask_writer_ringbuf_push crc32 (sys_time u) key ksize (Some v) vsize rb u = Some (x, rb', t)"
      and u': "u' = t\<lparr>wr_ringbuf := Some rb'\<rparr>"
      using put by (auto simp: put_attempt_def bind_eq_Some_conv)
    have "io_frame u t"
      using push b by (cases rule: ccask_writer_ringbuf_push_cases) (simp_all add: io_frame_set_errno)
    moreover have "disk_frame t u'" by (rule disk_frame_same) (simp_all add: u' same_files_def)
    ultimately show ?thesis using disk_frame_io disk_frame_trans by blast
  qed
  have refl: "disk_frame w w" by (simp add: disk_frame_def)
  show ?thesis
  proof (cases "is_shutting_down w")
    case True
    with run refl show ?thesis by (simp add: ccask_put_def)
  next
    case False
    then obtain res where "ccask_attempt_opt 5 CCASK_RETRY (put_attempt crc32 key ksize (Some v) vsize) w = Some (res, w')"
      using run by (auto simp: ccask_put_def bind_eq_Some_conv)
    then show ?thesis using refl
      by (rule ccask_attempt_opt_inv [where P = "disk_frame w"]) (use step disk_frame_trans in blast)
  qed
qed

lemma ccask_put_max:
  assumes sys: "system_inv crc32 w" and args: "put_args key ksize v vsize w"
    and run: "ccask_put crc32 key ksize (Some v) vsize w = Some (st, w')"
  shows "max_active_file_size w' = max_active_file_size w"
proof -
  let ?P = "\<lambda>u. max_active_file_size u = max_active_file_size w \<and> system_inv crc32 u"
  have keep: "?P u'" if "?P u" "put_attempt crc32 key ksize (Some v) vsize u = Some (x, u')" for u u' x
  proof -
    have "put_args key ksize v vsize u" using args that(1) by (simp add: put_args_def)
    from put_attempt_simulates(1,3) [OF _ this that(2)] that(1) show ?thesis by simp
  qed
  show ?thesis
  proof (cases "is_shutting_down w")
    case True
    with run show ?thesis by (simp add: ccask_put_def)
  next
    case False
    then obtain res where "ccask_attempt_opt 5 CCASK_RETRY (put_attempt crc32 key ksize (Some v) vsize) w = Some (res, w')"
      using run by (auto simp: ccask_put_def bind_eq_Some_conv)
    then have "?P w'" by (rule ccask_attempt_opt_inv [where P = ?P]) (use sys keep in blast)+
    then show ?thesis by blast
  qed
qed

inductive_cases spec_putE: "spec_step (Put k t v st) s s'"

lemma durable_put:
  fixes w w' :: "'a store_state_scheme"
  assumes dur: "durable crc32 L w" and args: "put_args key ksize v vsize w"
    and key: "listable_key (take (unat ksize) key)"
    and run: "ccask_put crc32 key ksize (Some v) vsize w = Some (st, w')"
  shows "durable crc32 L w'"
proof -
  have sys: "system_inv crc32 w" using dur by (simp add: durable_def)
  note keep = put_simulates [OF sys args run]
  have b: "buffers_ok key ksize (Some v) vsize" using args by (simp add: put_args_def buffers_ok_def bytes_of_def)
  have q: "store_map w' = store_map w \<and> (pending_puts w' = pending_puts w
      \<or> pending_puts w' = pending_puts w @ [(take (unat ksize) key, sys_time w, take (unat vsize) v)])"
    using keep(2) unfolding store_abs_def by (rule spec_putE) auto
  show ?thesis
    by (rule durable_frame [OF dur ccask_put_disk [OF run b] keep(1) _ ccask_put_max [OF sys args run]])
       (use q key in auto)
qed

text \<open>A round of the writer thread.\<close>

lemma durable_writer:
  fixes w w' :: "'a writer_state_scheme"
  assumes dur: "durable crc32 L w" and nf: "fault_script w = []" and ids: "next_id_left w"
    and run: "writer_thread_round w = Some (go, w')" and calm: "calm w'"
  shows "\<exists>L'. durable crc32 L' w'"
    and "store_abs w' = (case pending_puts w of [] \<Rightarrow> store_abs w | (k, t, v) # q \<Rightarrow> ((store_map w)(k \<mapsto> (t, v)), q))"
    and "go \<longleftrightarrow> pending_puts w \<noteq> []"
proof -
  obtain p ps where si: "store_inv crc32 w (p # ps)" and q: "queued_ok crc32 w" by (rule durableE [OF dur])
  have sys: "system_inv crc32 w" using dur by (simp add: durable_def)
  note keep = writer_simulates(1) [OF sys ids run]
  obtain rb res r rb' where rb: "wr_ringbuf w = Some rb" and pop: "ccask_writer_ringbuf_pop rb = Some (res, r, rb')"
    using run by (auto simp: writer_thread_round_def bind_eq_Some_conv)
  let ?w1 = "w\<lparr>wr_ringbuf := Some rb'\<rparr>"
  have ring: "ring_inv rb" and old: "\<forall>r \<in> set (ring_contents rb). \<exists>e. r = ent_record e \<and> ent_ok e
      \<and> entry_valid crc32 e \<and> ent_size e \<le> unat (max_active_file_size w)"
    using q rb by (auto simp: queued_ok_def)
  have si1: "store_inv crc32 ?w1 (p # ps)" "store_map ?w1 = store_map w" using si by (simp_all add: store_inv_ringbuf)
  from pop have "(\<exists>L'. durable crc32 L' w') \<and> (go \<longleftrightarrow> pending_puts w \<noteq> [])
    \<and> store_abs w' = (case pending_puts w of [] \<Rightarrow> store_abs w | (k, t, v) # q \<Rightarrow> ((store_map w)(k \<mapsto> (t, v)), q))"
  proof (cases rule: ccask_writer_ringbuf_pop_cases)
    case shutdown
    then have w': "w' = ?w1" "\<not> go" using run rb pop by (auto simp: writer_thread_round_def)
    have "pending_puts w = []" using shutdown(5) ring rb by (simp add: pending_puts_def ring.deq_none)
    moreover have "?w1 = w" using rb shutdown(3) by simp
    ultimately show ?thesis using dur w' by auto
  next
    case (popped x)
    note deq = ring.deq_some [OF ring popped(3)]
    obtain e where x: "x = ent_record e" and e: "ent_ok e" "entry_valid crc32 e" "ent_size e \<le> unat (max_active_file_size w)"
      using old deq by auto
    have room: "id_of (file_heap ?w1) (hd (p # ps)) + 1 \<noteq> 0" using next_id_hd [OF si ids] by simp
    obtain st where wr: "ccask_write_record_blocking (ent_record e) ?w1 = Some (st, w')" and go: "go"
      using run rb pop popped x by (auto simp: writer_thread_round_def bind_eq_Some_conv)
    have fit: "ent_size e \<le> unat (max_active_file_size ?w1)" using e(3) by simp
    have m: "store_map w' = (if st = CCASK_OK then (store_map ?w1)(ent_key e \<mapsto> (ent_timestamp e, ent_value e)) else store_map ?w1)"
      and same: "max_active_file_size w' = max_active_file_size ?w1" "keydir_state.more w' = keydir_state.more ?w1"
      by (rule record_write [OF si1(1) e(1,2) fit room wr], assumption)+
    have rb1: "wr_ringbuf w' = Some rb'" using more_ring [OF same(2)] by simp
    have pend: "pending_puts w = (ent_key e, ent_timestamp e, ent_value e) # pending_puts w'"
      using rb rb1 deq x by (simp add: pending_puts_def record_binding_entry)
    have "hintable e" using dur pend by (simp add: durable_def hintable_key)
    moreover have "disk_frame w ?w1" by (rule disk_frame_same) (simp_all add: same_files_def)
    moreover have "next_id_left ?w1" using ids by (auto simp: next_id_left_def split: option.splits)
    ultimately have "st = CCASK_OK" "\<exists>L'. durable crc32 L' w'"
      using durable_record [OF dur nf e(1,2) _ e(3) ids _ si1 _ _ _ wr calm keep] pend same(1) nf by auto
    with m si1(2) pend go show ?thesis by (simp add: store_abs_def)
  qed
  then show "\<exists>L'. durable crc32 L' w'" and "go \<longleftrightarrow> pending_puts w \<noteq> []"
    and "store_abs w' = (case pending_puts w of [] \<Rightarrow> store_abs w | (k, t, v) # q \<Rightarrow> ((store_map w)(k \<mapsto> (t, v)), q))"
    by blast+
qed

text \<open>The other steps keep the directory and the map.\<close>

lemma durable_silent:
  fixes w w' :: "'a store_state_scheme"
  assumes dur: "durable crc32 L w" and frame: "disk_frame w w'" and sys: "system_inv crc32 w'"
    and abs: "store_abs w' = store_abs w" and max: "max_active_file_size w' = max_active_file_size w"
  shows "durable crc32 L w'"
  by (rule durable_frame [OF dur frame sys _ max]) (use abs in \<open>simp_all add: store_abs_def\<close>)

lemma durable_step:
  fixes w w' :: "'a store_state_scheme"
  assumes step: "calm_step crc32 e w w'" and dur: "durable crc32 L w" and calm: "calm w"
  shows "\<exists>L'. durable crc32 L' w'"
proof -
  have run: "store_step crc32 e w w'" and key: "event_listable e" and calm': "calm w'"
    using step by (simp_all add: calm_step_def)
  have nf: "fault_script w = []" using calm by (simp add: calm_def)
  have sys: "system_inv crc32 w" using dur by (simp add: durable_def)
  have sys': "system_inv crc32 w'" using store.step_inv [OF sys run] .
  obtain p ps where si: "store_inv crc32 w (p # ps)" and ok: "files_ok w (p # ps)" by (rule durableE [OF dur])
  note silent = durable_silent [OF dur _ sys']
  from run show ?thesis
  proof (cases rule: store_step.cases)
    case (step_put_blocking key ksize v vsize st)
    with durable_put_blocking [OF dur nf] key calm' show ?thesis by (simp add: event_listable_def)
  next
    case (step_put key ksize v vsize st)
    have "listable_key (take (unat ksize) key)" using key step_put(1) by (simp add: event_listable_def)
    from durable_put [OF dur step_put(2) this step_put(3)] show ?thesis by blast
  next
    case (step_get ksize key r st r')
    have g: "store_map w' = store_map w \<and> keydir_state.more w' = keydir_state.more w
      \<and> max_active_file_size w' = max_active_file_size w \<and> reader_frame (p # ps) w w'"
      by (rule ccask_get_result [OF si step_get(2), of r]) (use step_get(3) in auto)
    with silent [OF disk_frame_reader [OF ok]] queue_same [of w' w] show ?thesis by (auto simp: store_abs_def)
  next
    case step_writer
    with durable_writer(1) [OF dur nf] calm' show ?thesis by blast
  next
    case (step_hint q)
    have d: "log_disk crc32 L w" "hints_due w" using dur by (simp_all add: durable_def)
    have "q \<in> set (hint_pending w)" using step_hint(2) by (simp add: hint_thread_run_def split: if_splits)
    then obtain u where u: "hint_thread_run q w = Some u" "log_disk crc32 L u" "hints_due u"
      by (rule durable_hint [OF si d nf])
    have h: "log_disk crc32 L w'" "hints_due w'" using u step_hint(2) by simp_all
    have "store_abs w' = store_abs w" using hint_step_silent(2) [OF sys step_hint(2)] .
    with h dur sys' step_hint hint_step_silent(3) [OF sys step_hint(2)] have "durable crc32 L w'"
      by (simp add: durable_def store_abs_def)
    then show ?thesis by blast
  next
    case (step_invalidator q go)
    have q: "q \<in> set (p # ps)" using step_invalidator(2) ok by (auto simp: files_ok_def)
    note g = datafile_fd_invalidator_round_result [OF ok q step_invalidator(3)]
    obtain F where F: "grows {} F w w'" using g(7) by blast
    have "disk_frame w w'" by (rule disk_frame_grows [OF ok F g(4,8,9,6,1,10)])
    from silent [OF this invalidator_step_silent(2) [OF sys step_invalidator(2,3)] g(5)] show ?thesis by blast
  next
    case (step_list_keys iter)
    obtain u where u: "io_frame w u" "\<exists>n. w' = u\<lparr>kd_readers := n\<rparr>" by (rule ccask_list_keys_io [OF step_list_keys(2)])
    have "disk_frame u w'" by (rule disk_frame_same) (use u(2) in \<open>auto simp: same_files_def\<close>)
    moreover have "max_active_file_size w' = max_active_file_size w"
      using u(2) same_files_fields(1) [OF io_frame_more [OF u(1)]] by auto
    ultimately show ?thesis
      using silent [OF disk_frame_trans [OF disk_frame_io [OF u(1)]] list_keys_silent(2) [OF sys step_list_keys(2)]] by blast
  next
    case (step_close_keys iter)
    have "disk_frame w w'"
      by (rule disk_frame_same) (simp_all add: step_close_keys ccask_keys_iter_close_def ccask_keydir_record_iter_close_def same_files_def)
    moreover have "max_active_file_size w' = max_active_file_size w"
      by (simp add: step_close_keys ccask_keys_iter_close_def ccask_keydir_record_iter_close_def)
    ultimately show ?thesis using silent close_keys_silent(2) [OF sys] step_close_keys by blast
  next
    case (step_faults fs)
    have "disk_frame w w'" by (rule disk_frame_same) (simp_all add: step_faults same_files_def)
    with silent environment_silent(2) [OF sys] step_faults show ?thesis by auto
  next
    case (step_time t)
    have "disk_frame w w'" by (rule disk_frame_same) (simp_all add: step_time same_files_def)
    with silent environment_silent(4) [OF sys] step_time show ?thesis by auto
  qed
qed

interpretation calm: forward_simulation "calm_step crc32" spec_step "\<lambda>w. calm w \<and> (\<exists>L. durable crc32 L w)" store_abs
  for crc32
proof unfold_locales
  fix e and s t :: "'a store_state_scheme"
  assume inv: "calm s \<and> (\<exists>L. durable crc32 L s)" and step: "calm_step crc32 e s t"
  have "\<exists>L. durable crc32 L t" using inv durable_step [OF step] by blast
  with step show "calm t \<and> (\<exists>L. durable crc32 L t)" by (simp add: calm_step_def)
  show "spec_step e (store_abs s) (store_abs t)"
    using inv step store.step_spec by (auto simp: calm_step_def durable_def)
qed

section \<open>Starting again\<close>

text \<open>What is on disk, without the process.\<close>

definition log_dir :: "crc_fun \<Rightarrow> string \<Rightarrow> (u64 \<Rightarrow> entry list) \<Rightarrow> 'a posix_scheme \<Rightarrow> bool" where
  "log_dir crc32 dir L w \<longleftrightarrow> dir \<noteq> [] \<and> clean_dir dir w \<and> (\<forall>i. bytes_at w (data_path dir i) = encode_log (L i)
     \<and> (\<forall>e \<in> set (L i). ent_ok e \<and> entry_valid crc32 e \<and> hintable e) \<and> log_size (L i) < 2 ^ 62
     \<and> (map_of (dir_entries w) (hint_path dir i) \<noteq> None \<longrightarrow> bytes_at w (hint_path dir i) = hints_of (L i)
          \<and> map_of (dir_entries w) (data_path dir i) \<noteq> None)
     \<and> (map_of (dir_entries w) (data_path dir i) \<noteq> None \<longrightarrow> unat i + 1 < 2 ^ 31))"

lemma log_disk_dir: "log_disk crc32 L w \<longleftrightarrow> log_dir crc32 (data_dir w) L w"
  by (simp add: log_disk_def log_dir_def hint_absent_def data_bytes_def)

lemma log_dir_cong:
  assumes "dir_entries v = dir_entries w" and "inode_data v = inode_data w"
  shows "log_dir crc32 dir L v = log_dir crc32 dir L w"
proof -
  have "clean_dir dir v = clean_dir dir w" by (rule clean_dir_cong) (simp add: assms)
  then show ?thesis by (simp add: log_dir_def assms bytes_at_cong [OF assms])
qed

lemma clean_dir_regular:
  assumes "clean_dir dir w" and "map_of (dir_entries w) (ext_path dir i ext) \<noteq> None" and "ext \<noteq> FILE_UNKNOWN"
  shows "lookup_inode w (ext_path dir i ext) \<noteq> None"
proof -
  let ?name = "decimal (unat i) @ the (ext_chars ext)"
  have "CHR ''/'' \<notin> set (decimal (unat i))" using decimal_digits digit_char_cases(5) by blast
  then have "?name \<in> set (drop 2 (dir_names w (dir_prefix dir)))"
    using assms(2,3) by (cases ext) (simp_all add: dir_names_iff prefix_name_path [symmetric] ext_chars_def)
  then obtain k e where n: "named_file dir w ?name k e" using assms(1) by (auto simp: clean_dir_def)
  then have "ext_path dir k e = ext_path dir i ext"
    using prefix_name_path [of dir k e] prefix_name_path [of dir i ext] by (simp add: named_file_def)
  with n show ?thesis by (auto simp: named_file_def lookup_inode_def)
qed

lemma log_dir_logged:
  assumes "log_dir crc32 dir L w"
  shows "dir_logged crc32 dir L w"
  unfolding dir_logged_def
proof
  fix i
  have clean: "clean_dir dir w" and es: "\<forall>e \<in> set (L i). ent_ok e \<and> entry_valid crc32 e \<and> hintable e"
    and size: "log_size (L i) < 2 ^ 62" and data: "bytes_at w (data_path dir i) = encode_log (L i)"
    and hint: "map_of (dir_entries w) (hint_path dir i) \<noteq> None \<longrightarrow> bytes_at w (hint_path dir i) = hints_of (L i)"
    using assms by (simp_all add: log_dir_def)
  have "length (hints_of (L i)) \<le> 2 * log_size (L i)" using es length_hints_of by blast
  then have short: "length (encode_hints (log_positions 0 (L i))) < 2 ^ 63" using size by (simp add: hints_of_def)
  have "hint_ok pe" if "pe \<in> set (log_positions 0 (L i))" for pe
  proof -
    obtain pos e where pe: "pe = (pos, e)" by fastforce
    then have "e \<in> snd ` set (log_positions 0 (L i))" using that by force
    then have "e \<in> set (L i)" using map_snd_log_positions [of 0 "L i"] by (metis list.set_map)
    with es pe show ?thesis by (simp add: hintable_hint_ok)
  qed
  moreover have "lookup_inode w (hint_path dir i) \<noteq> None" if "map_of (dir_entries w) (hint_path dir i) \<noteq> None"
    using clean_dir_regular [OF clean, of i FILE_HINT] that by (simp add: hint_path_def)
  ultimately show "bytes_at w (data_path dir i) = encode_log (L i) \<and> (\<forall>e \<in> set (L i). ent_ok e \<and> entry_valid crc32 e)
     \<and> log_size (L i) \<le> max_file_size
     \<and> (map_of (dir_entries w) (hint_path dir i) \<noteq> None \<longrightarrow> lookup_inode w (hint_path dir i) \<noteq> None
          \<and> bytes_at w (hint_path dir i) = encode_hints (log_positions 0 (L i))
          \<and> (\<forall>pe \<in> set (log_positions 0 (L i)). hint_ok pe) \<and> length (encode_hints (log_positions 0 (L i))) < 2 ^ 63)"
    using es size data hint short by (simp add: hints_of_def max_file_size_def)
qed

text \<open>A process that has just started: it holds nothing of the store yet.\<close>

definition fresh_process :: "'a keydir_state_scheme \<Rightarrow> bool" where
  "fresh_process v \<longleftrightarrow> posix_inv v \<and> fault_script v = [] \<and> hint_pending v = [] \<and> fd_invalidators v = []
     \<and> (\<forall>p. file_heap v p \<noteq> None \<longrightarrow> p < next_file_ptr v) \<and> (\<forall>p. kd_heap v p \<noteq> None \<longrightarrow> p < kd_next_ptr v)"

definition options_ok :: "ccask_options \<Rightarrow> bool" where
  "options_ok opts \<longleftrightarrow> opt_writer_ringbuf_capacity opts \<noteq> 0
     \<and> unat (opt_writer_ringbuf_capacity opts) * RECORD_SLOT_SIZE < 2 ^ 64
     \<and> unat (opt_datafile_rotate_threshold opts) < 2 ^ 62"

lemma unat_inc_le: "unat (i + 1 :: u64) \<le> unat i + 1"
  by (simp add: unat_word_ariths)

lemma init_durable_idle:
  fixes v :: "'a store_state_scheme"
  assumes proc: "fresh_process v" and disk: "log_dir crc32 (opt_data_dir opts) L v" and opts: "options_ok opts"
    and room: "\<And>i. map_of (dir_entries v) (data_path (opt_data_dir opts) i) \<noteq> None \<Longrightarrow> unat i + 2 < 2 ^ 31"
  obtains v' where "ccask_init opts v = Some (CCASK_OK, v')" and "durable crc32 L v'" and "calm v'"
    and "store_abs v' = (log_map (logs L) Map.empty, [])" and "idle v'" and "data_dir v' = opt_data_dir opts"
    and "\<And>q. q \<notin> range (data_path (opt_data_dir opts)) \<Longrightarrow> map_of (dir_entries v') q = map_of (dir_entries v) q"
proof -
  let ?dir = "opt_data_dir opts"
  have clean: "clean_dir ?dir v" using disk by (simp add: log_dir_def)
  have ready: "boot_ready ?dir v" using proc disk by (simp add: fresh_process_def boot_ready_def log_dir_def)
  note logged = log_dir_logged [OF disk]
  have ptrs: "\<forall>p. kd_heap v p \<noteq> None \<longrightarrow> p < kd_next_ptr v" using proc by (simp add: fresh_process_def)
  have max: "unat (opt_datafile_rotate_threshold opts) \<le> max_file_size" using opts by (simp add: options_ok_def max_file_size_def)
  obtain v' k p ps where init: "ccask_init opts v = Some (CCASK_OK, v')" and si: "store_inv crc32 v' (p # ps)"
    and q: "queued_ok crc32 v'" "pending_puts v' = []"
    and m: "store_map v' = log_map (concat (map L (dir_ids ?dir v))) Map.empty"
    and nf: "fault_script v' = []" and pend: "hint_pending v' = []" and dd: "data_dir v' = ?dir"
    and thr: "max_active_file_size v' = opt_datafile_rotate_threshold opts" and idp: "id_of (file_heap v') p = k"
    and dirs: "\<And>q. q \<noteq> data_path ?dir k \<Longrightarrow> map_of (dir_entries v') q = map_of (dir_entries v) q"
    and bytes: "\<And>q. bytes_at v' q = bytes_at v q"
    and ids: "id_of (file_heap v') ` set (p # ps) = insert k {i. map_of (dir_entries v) (data_path ?dir i) \<noteq> None}"
    and claim: "\<And>q. q \<in> set (p # ps) \<Longrightarrow> has_hint_of (file_heap v') q \<Longrightarrow>
      map_of (dir_entries v) (hint_path ?dir (id_of (file_heap v') q)) \<noteq> None"
      "\<And>q. q \<in> set (p # ps) \<Longrightarrow> map_of (dir_entries v) (data_path ?dir (id_of (file_heap v') q)) \<noteq> None \<Longrightarrow>
        map_of (dir_entries v) (hint_path ?dir (id_of (file_heap v') q)) \<noteq> None \<Longrightarrow> has_hint_of (file_heap v') q"
    and fresh: "map_of (dir_entries v) (data_path ?dir k) = None \<or> map_of (dir_entries v) (hint_path ?dir k) = None"
    and near: "k = 0 \<or> (\<exists>i. map_of (dir_entries v) (data_path ?dir i) \<noteq> None \<and> (k = i \<or> k = i + 1))"
    and idle: "idle v'"
    by (rule ccask_init_result [OF ready logged ptrs _ _ max]) (use opts in \<open>simp_all add: options_ok_def\<close>)
  have ok: "files_ok v' (p # ps)" using si by (simp add: store_inv_def)
  have head: "files_head v' = Some p" using ok files_list_head by (auto simp: files_ok_def files_rep_def)
  have small: "unat k + 1 < 2 ^ 31"
    using near
  proof
    assume "\<exists>i. map_of (dir_entries v) (data_path ?dir i) \<noteq> None \<and> (k = i \<or> k = i + 1)"
    then obtain i where i: "unat i + 2 < 2 ^ 31" "k = i \<or> k = i + 1" using room by blast
    then show ?thesis using unat_inc_le [of i] by auto
  qed simp
  have hp: "map_of (dir_entries v') (hint_path ?dir i) = map_of (dir_entries v) (hint_path ?dir i)" for i
    by (rule dirs) (rule hint_path_data_path)
  have there: "map_of (dir_entries v') (data_path ?dir k) \<noteq> None" "lookup_inode v' (data_path ?dir k) \<noteq> None"
    using files_ok_exists [OF ok, of p] idp dd by (auto simp: lookup_inode_def split: option.splits)
  have reg: "\<exists>j. map_of (dir_entries v') (data_path ?dir k) = Some (Regular j)"
    using there(2) by (auto simp: lookup_inode_def split: option.splits node.splits)
  have keep: "map_of (dir_entries v') q \<noteq> None" if "map_of (dir_entries v) q \<noteq> None" for q
    using that dirs [of q] there(1) by (cases "q = data_path ?dir k") simp_all
  have "clean_dir ?dir v'"
  proof (rule clean_dir_add [OF clean])
    fix q
    show "map_of (dir_entries v') q = map_of (dir_entries v) q \<or> (\<exists>i ext j. q = ext_path ?dir i ext
        \<and> ext \<noteq> FILE_UNKNOWN \<and> unat i < 2 ^ 31 \<and> map_of (dir_entries v') q = Some (Regular j))"
    proof (cases "q = data_path ?dir k")
      case True
      have "unat k < 2 ^ 31" using small by simp
      with True reg show ?thesis by (auto simp: data_path_def)
    next
      case False
      with dirs show ?thesis by blast
    qed
  qed
  moreover have "map_of (dir_entries v') (data_path ?dir i) \<noteq> None \<longrightarrow> unat i + 1 < 2 ^ 31" for i
    using dirs [of "data_path ?dir i"] disk small by (cases "i = k") (auto simp: log_dir_def)
  ultimately have ld: "log_disk crc32 L v'"
    using disk keep unfolding log_disk_dir dd log_dir_def hp bytes by blast
  have absent: "hint_absent v' i" if "k \<le> i" for i
  proof (rule ccontr)
    assume "\<not> hint_absent v' i"
    then have h: "map_of (dir_entries v) (hint_path ?dir i) \<noteq> None" by (simp add: hint_absent_def dd hp)
    then have d: "map_of (dir_entries v) (data_path ?dir i) \<noteq> None" using disk by (simp add: log_dir_def)
    have "\<not> k < i" using active_newer_absent [OF ok, of i] keep [OF d] idp dd by auto
    then have "i = k" using that by simp
    with fresh h d show False unfolding \<open>i = k\<close> by blast
  qed
  have "nodes_known v'"
    unfolding nodes_known_def dd
  proof (intro allI impI)
    fix i assume there: "map_of (dir_entries v') (data_path ?dir i) \<noteq> None"
    have "i \<in> insert k {i. map_of (dir_entries v) (data_path ?dir i) \<noteq> None}"
    proof (cases "i = k")
      case False
      then have "map_of (dir_entries v') (data_path ?dir i) = map_of (dir_entries v) (data_path ?dir i)"
        by (intro dirs) (simp add: data_path_inj)
      with there show ?thesis by simp
    qed simp
    then obtain q where q: "q \<in> set (p # ps)" "id_of (file_heap v') q = i" unfolding ids [symmetric] by auto
    have "ccask_files_get_file i v' = Some q" using q ok ccask_files_get_file_iff [of v' "p # ps" i q] by (simp add: files_ok_def)
    moreover have "has_hint_of (file_heap v') q \<longleftrightarrow> \<not> hint_absent v' i"
    proof
      assume "has_hint_of (file_heap v') q"
      from claim(1) [OF q(1) this] show "\<not> hint_absent v' i" by (simp add: hint_absent_def dd hp q(2))
    next
      assume "\<not> hint_absent v' i"
      then have "map_of (dir_entries v) (hint_path ?dir i) \<noteq> None" by (simp add: hint_absent_def dd hp)
      moreover from this have "map_of (dir_entries v) (data_path ?dir i) \<noteq> None" using disk by (simp add: log_dir_def)
      ultimately show "has_hint_of (file_heap v') q" using claim(2) [OF q(1)] q(2) by simp
    qed
    ultimately show "\<exists>p. ccask_files_get_file i v' = Some p \<and> (has_hint_of (file_heap v') p \<longleftrightarrow> \<not> hint_absent v' i)" by blast
  qed
  with absent have due: "hints_due v'" using head idp pend by (auto simp: hints_due_def)
  have m': "store_map v' = log_map (logs L) Map.empty" using m logs_dir_ids [OF logged] by simp
  have "durable crc32 L v'"
    unfolding durable_def using si q ld due m' thr opts by (auto simp: system_inv_def options_ok_def)
  moreover have "calm v'" using nf head idp small by (simp add: calm_def)
  moreover have "map_of (dir_entries v') q = map_of (dir_entries v) q" if "q \<notin> range (data_path ?dir)" for q
    using that by (intro dirs) blast
  ultimately show thesis using that init m' q(2) idle dd by (simp add: store_abs_def)
qed

lemma init_durable:
  fixes v :: "'a store_state_scheme"
  assumes "fresh_process v" and "log_dir crc32 (opt_data_dir opts) L v" and "options_ok opts"
    and "\<And>i. map_of (dir_entries v) (data_path (opt_data_dir opts) i) \<noteq> None \<Longrightarrow> unat i + 2 < 2 ^ 31"
  obtains v' where "ccask_init opts v = Some (CCASK_OK, v')" and "durable crc32 L v'" and "calm v'"
    and "store_abs v' = (log_map (logs L) Map.empty, [])"
  by (rule init_durable_idle [OF assms]) (assumption | rule that)+

section \<open>Properties\<close>


text \<open>An empty store, and a put.\<close>

lemma demo_log_empty: "log_disk crc32 (\<lambda>_. []) demo_store"
proof -
  have b: "bytes_at demo_store (data_path ''d'' i) = []" for i
    by (simp add: demo_store_def demo_keydir_def bytes_at_def lookup_inode_def data_path_inj)
  have h: "map_of (dir_entries demo_store) (hint_path ''d'' i) = None" for i
    by (simp add: demo_store_def demo_keydir_def hint_path_data_path)
  have c: "clean_dir ''d'' demo_store"
    using boot_store_ready clean_dir_cong [of demo_store boot_store "''d''"]
    by (simp add: boot_ready_def demo_store_def boot_store_def demo_keydir_def)
  have "map_of (dir_entries demo_store) (data_path ''d'' i) \<noteq> None \<longleftrightarrow> i = 0" for i
    by (auto simp: demo_store_def demo_keydir_def data_path_inj)
  then show ?thesis using b h c unfolding log_disk_dir log_dir_def by (auto simp: demo_store_def demo_keydir_def)
qed

lemma demo_durable: "durable crc32 (\<lambda>_. []) demo_store" "calm demo_store"
proof -
  have rep: "files_rep demo_store [0]" using demo_store_inv by (simp add: store_inv_def files_ok_def)
  have "nodes_known demo_store"
    unfolding nodes_known_def
  proof (intro allI impI)
    fix i assume "map_of (dir_entries demo_store) (data_path (data_dir demo_store) i) \<noteq> None"
    then have i: "i = 0" by (auto simp: demo_store_def demo_keydir_def data_path_inj split: if_splits)
    have heap: "file_heap demo_store = [0 \<mapsto> demo_node]" by (simp add: demo_store_def)
    have "ccask_files_get_file i demo_store = Some 0"
      using ccask_files_get_file_iff [OF rep, of i 0] by (simp add: i heap demo_node_def id_of_def)
    moreover have "\<not> has_hint_of (file_heap demo_store) 0" by (simp add: heap demo_node_def has_hint_of_def)
    moreover have "hint_absent demo_store i"
      by (simp add: hint_absent_def demo_store_def demo_keydir_def demo_files_def hint_path_data_path)
    ultimately show "\<exists>p. ccask_files_get_file i demo_store = Some p
      \<and> (has_hint_of (file_heap demo_store) p \<longleftrightarrow> \<not> hint_absent demo_store i)" by blast
  qed
  then have "hints_due demo_store"
    by (simp add: hints_due_def hint_absent_def demo_store_def demo_keydir_def demo_files_def hint_path_data_path)
  moreover have "system_inv crc32 demo_store" by (rule demo_system_inv)
  moreover have "store_map demo_store = Map.empty" "pending_puts demo_store = []"
    using demo_abs by (simp_all add: store_abs_def)
  moreover have "unat (max_active_file_size demo_store) < 2 ^ 62" by (simp add: demo_store_def demo_keydir_max)
  ultimately show "durable crc32 (\<lambda>_. []) demo_store"
    using demo_log_empty by (simp add: durable_def logs_def)
  show "calm demo_store" by (simp add: calm_def demo_store_def demo_keydir_def)
qed

lemma demo_put_calm:
  assumes "ccask_put_blocking crc32 [1, 2] 2 (Some [3]) 1 demo_store = Some (CCASK_OK, w')"
  shows "calm_step crc32 (Put_blocking [1, 2] 7 [3] CCASK_OK) demo_store w'" and "posix_inv w'" and "data_dir w' = ''d''"
    and "map_of (dir_entries w') (data_path ''d'' i) \<noteq> None \<longleftrightarrow> i = 0" and "dir_entries w' = dir_entries demo_store"
proof -
  let ?e = "new_entry crc32 (sys_time demo_store) [1, 2] 2 (Some [3]) 1"
  have step: "store_step crc32 (Put_blocking [1, 2] 7 [3] CCASK_OK) demo_store w'" by (rule demo_put_step [OF assms])
  obtain ps where si: "store_inv crc32 w' ps" and max: "max_active_file_size w' = max_active_file_size demo_store"
    by (rule ccask_put_blocking_result [OF demo_store_inv demo_put_ok assms])
  have b: "buffers_ok [1, 2] 2 (Some [3]) 1" by (simp add: buffers_ok_def bytes_of_def)
  have "0 < (1 :: u32)" "16 + unat (2 :: u32) + unat (1 :: u32) < 2 ^ 32" by simp_all
  note e = new_entry_ok [OF b this, of crc32 "sys_time demo_store"]
  from assms b obtain u where io: "io_frame demo_store u"
    and wr: "ccask_write_record_blocking (ent_record ?e) u = Some (CCASK_OK, w')"
    by (cases rule: ccask_put_blocking_cases) (auto split: if_splits)
  have su: "store_inv crc32 u [0]" by (rule store_inv_io(1) [OF demo_store_inv io])
  then have ok: "files_ok u [0]" and max': "unat (max_active_file_size u) \<le> max_file_size" by (simp_all add: store_inv_def)
  have nf: "fault_script u = []" by (rule io_frame_no_fault [OF io demo_store_ready(1)])
  have same: "same_files demo_store u" by (rule same_files_more [OF io_frame_more [OF io]])
  then have "put_ok u [0] [1, 2] 2 [3] 1" using demo_put_ok by (simp add: put_ok_def same_files_def)
  then have ready: "write_ready ?e 0 u" using su by (rule put_ok_ready)
  have "data_bytes u (id_of (file_heap u) 0) = []"
    using bytes_at_cong [OF io_frame_same(1,2) [OF io]] same
    by (simp add: same_files_def data_bytes_def demo_store_def demo_keydir_def bytes_at_def lookup_inode_def)
  then have fit: "length (data_bytes u (id_of (file_heap u) 0)) + ent_size ?e \<le> unat (max_active_file_size u)"
    using e(2) same by (simp add: same_files_def demo_store_def demo_keydir_max)
  note f = write_here_frame [OF ok ready nf max' fit wr]
  have head: "files_head w' = Some 0" "id_of (file_heap w') 0 = 0" "data_dir w' = ''d''"
    using f(6) same by (simp_all add: same_files_def demo_store_def demo_keydir_def)
  then have "calm w'" using f(2) by (simp add: calm_def write_frame_def)
  then show "calm_step crc32 (Put_blocking [1, 2] 7 [3] CCASK_OK) demo_store w'"
    using step by (simp add: calm_step_def event_listable_def listable_key_def)
  show "data_dir w' = ''d''" by (rule head)
  show "map_of (dir_entries w') (data_path ''d'' i) \<noteq> None \<longleftrightarrow> i = 0"
    unfolding f(5) io_frame_same(1) [OF io] by (auto simp: demo_store_def demo_keydir_def data_path_inj)
  show "dir_entries w' = dir_entries demo_store" unfolding f(5) io_frame_same(1) [OF io] ..
  show "posix_inv w'" using si by (simp add: store_inv_def files_ok_def)
qed

text \<open>The process that starts next.\<close>

definition next_process :: "store_state \<Rightarrow> store_state" where
  "next_process w = w\<lparr>open_fds := Map.empty, fault_script := [], file_table := None, files_head := None, files_tail := None,
     file_heap := Map.empty, hint_threads := [], hint_pending := [], fd_invalidators := [],
     kd_table := None, kd_heap := Map.empty, kd_readers := 0, wr_ringbuf := None, wr_thread := False\<rparr>"

lemma next_process_fresh:
  assumes "posix_inv w"
  shows "fresh_process (next_process w)" "dir_entries (next_process w) = dir_entries w"
    "inode_data (next_process w) = inode_data w"
  using assms by (simp_all add: fresh_process_def next_process_def posix_inv_def)

inductive_cases spec_put_okE: "spec_step (Put_blocking k t v CCASK_OK) s s'"


end
