(* ===== verification/Shutdown.thy ===== *)
theory Shutdown
  imports Durable
begin

text \<open>
  The end of a process: \<open>ccask_shutdown\<close> joins the hintfile generators, lets the writer drain the
  ring buffer and releases directory and file list.
\<close>

section \<open>The file list is released\<close>

text \<open>The links between the nodes that are still there.\<close>

definition file_chain :: "'a files_state_scheme \<Rightarrow> nat list \<Rightarrow> bool" where
  "file_chain w ps \<longleftrightarrow> distinct ps \<and> dll (file_heap w) None ps None"

text \<open>What the release of nodes leaves alone.\<close>

definition disk_same :: "'a files_state_scheme \<Rightarrow> 'a files_state_scheme \<Rightarrow> bool" where
  "disk_same w w' \<longleftrightarrow> dir_entries w' = dir_entries w \<and> inode_data w' = inode_data w \<and> data_dir w' = data_dir w
     \<and> fault_script w' = fault_script w \<and> (posix_inv w \<longrightarrow> posix_inv w')"

lemma posix_inv_names:
  assumes "dir_entries w' = dir_entries w" and "next_inode w' = next_inode w" and "open_fds w' = open_fds w" and "next_fd w' = next_fd w"
  shows "posix_inv w' = posix_inv w"
  using assms by (simp add: posix_inv_def)

lemma disk_same_trans: "disk_same w u \<Longrightarrow> disk_same u w' \<Longrightarrow> disk_same w w'"
  by (simp add: disk_same_def)

lemma files_release_disk: "files_release p w = Some w' \<Longrightarrow> disk_same w w'"
  by (auto simp: files_release_def write_file_def disk_same_def sys_close_def posix_inv_def bind_eq_Some_conv
      split: option.splits if_splits)

lemma files_release_result:
  assumes "file_chain w ps" and "p \<in> set ps"
  obtains w' where "files_release p w = Some w'" and "file_chain w' (remove1 p ps)" and "disk_same w w'"
proof -
  obtain xs ys where ps: "ps = xs @ p # ys" using assms(2) by (meson split_list)
  have dist: "distinct (xs @ p # ys)" and chain: "dll (file_heap w) None (xs @ p # ys) None"
    using assms(1) by (simp_all add: file_chain_def ps)
  have rm: "remove1 p ps = xs @ ys" using dist by (simp add: ps remove1_append)
  obtain f where f: "file_heap w p = Some f" using dll_allocated [OF chain [folded ps] assms(2)] by blast
  have links: "cf_previous f = last_of xs None" "cf_next f = first_of ys None" using chain f by simp_all
  have "\<exists>w'. files_release p w = Some w' \<and> file_chain w' (xs @ ys)"
  proof (cases xs rule: rev_cases)
    case Nil
    show ?thesis
    proof (cases ys)
      case ys: Nil
      with Nil f links show ?thesis
        by (simp add: files_release_def file_chain_def sys_close_def)
    next
      case (Cons b zs)
      then obtain g where "file_heap w b = Some g" using chain by (auto split: option.splits)
      with Nil Cons f links dist chain show ?thesis
        by (auto simp: files_release_def write_file_def file_chain_def sys_close_def)
    qed
  next
    case (snoc zs a)
    then obtain h where a: "file_heap w a = Some h" using chain by (auto split: option.splits)
    show ?thesis
    proof (cases ys)
      case Nil
      with snoc a f links dist chain show ?thesis
        by (auto simp: files_release_def write_file_def file_chain_def sys_close_def)
    next
      case (Cons b us)
      then obtain g where "file_heap w b = Some g" using chain by (auto split: option.splits)
      with snoc Cons a f links dist chain show ?thesis
        by (auto simp: files_release_def write_file_def file_chain_def sys_close_def)
    qed
  qed
  then show thesis using that rm files_release_disk by metis
qed

lemma files_release_all_result:
  assumes "file_chain w ps" and "distinct qs" and "set qs \<subseteq> set ps"
  obtains w' where "files_release_all qs w = Some w'" and "disk_same w w'"
proof -
  have "\<exists>w'. files_release_all qs w = Some w' \<and> disk_same w w'"
    using assms
  proof (induction qs arbitrary: w ps)
    case Nil
    show ?case by (simp add: disk_same_def)
  next
    case (Cons q qs)
    have "q \<in> set ps" using Cons.prems by simp
    then obtain u where u: "files_release q w = Some u" "file_chain u (remove1 q ps)" "disk_same w u"
      by (rule files_release_result [OF Cons.prems(1)])
    have "set qs \<subseteq> set (remove1 q ps)" using Cons.prems by (auto simp: file_chain_def)
    then obtain w' where "files_release_all qs u = Some w'" "disk_same u w'"
      using Cons.IH [OF u(2)] Cons.prems(2) by auto
    with u disk_same_trans [OF u(3)] show ?case by auto
  qed
  then show thesis using that by blast
qed

lemma ccask_files_shutdown_result:
  assumes "files_rep w ps"
  obtains w' where "ccask_files_shutdown w = Some w'" and "disk_same w w'"
proof -
  have chain: "file_chain w ps" using assms by (simp add: file_chain_def files_rep_def files_list_def)
  have tab: "uthash_inv (file_table w)"
    and elems: "set (hash_elems (file_table w)) = (\<lambda>p. (host64 (id_of (file_heap w) p), p)) ` set ps"
    using assms by (simp_all add: files_rep_def)
  have "distinct (map snd (hash_elems (file_table w)))" using tab by (rule ut.elems_distinct)
  moreover have "set (map snd (hash_elems (file_table w))) \<subseteq> set ps" using elems by auto
  ultimately show thesis
    using files_release_all_result [OF chain] that by (metis ccask_files_shutdown_def)
qed

section \<open>The directory is released\<close>

lemma ccask_keydir_shutdown_result:
  assumes "kd_readers w = 0"
  obtains t h where "ccask_keydir_shutdown w = Some (w\<lparr>kd_table := t, kd_heap := h\<rparr>)"
proof -
  have "\<exists>t h. fold kd_release ps w = w\<lparr>kd_table := t, kd_heap := h\<rparr>" for ps and w :: "'a keydir_state_scheme"
  proof (induction ps arbitrary: w)
    case Nil
    show ?case by (cases w) auto
  next
    case (Cons p ps)
    obtain t h where "fold kd_release ps (kd_release p w) = (kd_release p w)\<lparr>kd_table := t, kd_heap := h\<rparr>"
      using Cons.IH by blast
    moreover have "(kd_release p w)\<lparr>kd_table := t, kd_heap := h\<rparr> = w\<lparr>kd_table := t, kd_heap := h\<rparr>"
      by (simp add: kd_release_def)
    ultimately have "fold kd_release (p # ps) w = w\<lparr>kd_table := t, kd_heap := h\<rparr>" by simp
    then show ?case by blast
  qed
  then obtain t h where "fold kd_release (map snd (hash_elems (kd_table w))) w = w\<lparr>kd_table := t, kd_heap := h\<rparr>" by blast
  then have "ccask_keydir_shutdown w = Some (w\<lparr>kd_table := None, kd_heap := h\<rparr>)"
    using assms by (simp add: ccask_keydir_shutdown_def kd_wrlock_def)
  then show thesis by (rule that)
qed

section \<open>The queue is drained\<close>

text \<open>
  The ring buffer is shutting down, nobody iterates over the directory, and the identifiers last for
  \<open>n\<close> more rotations.
\<close>

definition draining :: "nat \<Rightarrow> 'a writer_state_scheme \<Rightarrow> bool" where
  "draining n w \<longleftrightarrow> fault_script w = [] \<and> kd_readers w = 0
     \<and> (\<exists>rb. wr_ringbuf w = Some rb \<and> \<not> rb_locked rb \<and> rb_shutdown rb)
     \<and> (\<forall>p. files_head w = Some p \<longrightarrow> unat (id_of (file_heap w) p) + n + 2 < 2 ^ 31)"

definition apply_puts :: "binding list \<Rightarrow> (byte list \<Rightarrow> (u32 \<times> byte list) option) \<Rightarrow> byte list \<Rightarrow> (u32 \<times> byte list) option" where
  "apply_puts q m = fold (\<lambda>(k, t, v) m. m(k \<mapsto> (t, v))) q m"

lemma apply_puts_simps [simp]:
  "apply_puts [] m = m" "apply_puts ((k, t, v) # q) m = apply_puts q (m(k \<mapsto> (t, v)))"
  by (simp_all add: apply_puts_def)

lemma ring_shutdown_pop:
  assumes "ring_inv rb" and "\<not> rb_locked rb" and "rb_shutdown rb"
  shows "ring_contents rb = [] \<Longrightarrow> ccask_writer_ringbuf_pop rb = Some (CCASK_FAIL, None, rb)"
    and "ring_contents rb = r # rs \<Longrightarrow> \<exists>rb'. ccask_writer_ringbuf_pop rb = Some (CCASK_OK, Some r, rb')
      \<and> ring_inv rb' \<and> ring_contents rb' = rs \<and> \<not> rb_locked rb' \<and> rb_shutdown rb'"
proof -
  show "ccask_writer_ringbuf_pop rb = Some (CCASK_FAIL, None, rb)" if "ring_contents rb = []"
    using that assms ring.deq_none [OF assms(1)] by (auto simp: ccask_writer_ringbuf_pop_def ring_deq_def split: if_splits)
  assume "ring_contents rb = r # rs"
  then obtain x rb' where d: "ring_deq rb = Some (x, rb')" using ring.deq_none [OF assms(1)] by fastforce
  have "ccask_writer_ringbuf_pop rb = Some (CCASK_OK, Some x, rb')" "\<not> rb_locked rb'" "rb_shutdown rb'"
    using d assms ring_inv_cap [OF assms(1)] by (auto simp: ccask_writer_ringbuf_pop_def ring_deq_def split: if_splits)
  with ring.deq_some [OF assms(1) d] \<open>ring_contents rb = r # rs\<close> show "\<exists>rb'. ccask_writer_ringbuf_pop rb = Some (CCASK_OK, Some r, rb')
      \<and> ring_inv rb' \<and> ring_contents rb' = rs \<and> \<not> rb_locked rb' \<and> rb_shutdown rb'" by auto
qed

lemma drain_round:
  fixes w :: "'a writer_state_scheme"
  assumes dur: "durable crc32 L w" and dr: "draining (length (pending_puts w)) w" and b: "pending_puts w = (k, t, v) # q"
  obtains w' L' where "writer_thread_round w = Some (True, w')" and "durable crc32 L' w'" and "draining (length q) w'"
    and "store_map w' = (store_map w)(k \<mapsto> (t, v))" and "pending_puts w' = q" and "data_dir w' = data_dir w"
proof -
  obtain p ps where si: "store_inv crc32 w (p # ps)" and qok: "queued_ok crc32 w" by (rule durableE [OF dur])
  obtain rb where rb: "wr_ringbuf w = Some rb" "\<not> rb_locked rb" "rb_shutdown rb" using dr by (auto simp: draining_def)
  have nf: "fault_script w = []" and rd: "kd_readers w = 0" using dr by (simp_all add: draining_def)
  have head: "files_head w = Some p" using store_inv_hd [OF si] by simp
  have id: "unat (id_of (file_heap w) p) + length q + 3 < 2 ^ 31" using dr head b by (simp add: draining_def)
  have ids: "next_id_left w"
  proof -
    have "id_of (file_heap w) p \<noteq> - 1" using id by (auto simp: unsigned_minus_1_eq_mask mask_eq_exp_minus_1)
    then show ?thesis using head by (simp add: next_id_left_def eq_neg_iff_add_eq_0)
  qed
  have ring: "ring_inv rb" using qok rb by (simp add: queued_ok_def)
  obtain r rs where rs: "ring_contents rb = r # rs" "record_binding r = (k, t, v)"
    using b rb by (auto simp: pending_puts_def)
  obtain rb' where pop: "ccask_writer_ringbuf_pop rb = Some (CCASK_OK, Some r, rb')" and ring': "ring_inv rb'"
    "ring_contents rb' = rs" "\<not> rb_locked rb'" "rb_shutdown rb'"
    using ring_shutdown_pop(2) [OF ring rb(2,3) rs(1)] by blast
  obtain e where r: "r = ent_record e" and e: "ent_ok e" "ent_size e \<le> unat (max_active_file_size w)"
    using qok rb rs(1) by (auto simp: queued_ok_def)
  let ?w1 = "w\<lparr>wr_ringbuf := Some rb'\<rparr>"
  have si1: "store_inv crc32 ?w1 (p # ps)" using si by (simp add: store_inv_ringbuf)
  have ok1: "files_ok ?w1 (p # ps)" and max1: "unat (max_active_file_size ?w1) \<le> max_file_size"
    using si1 by (simp_all add: store_inv_def)
  have ready: "write_ready e p ?w1"
    using si1 e next_id_hd [OF si ids] by (simp add: write_ready_def store_inv_def)
  have nf1: "fault_script ?w1 = []" and rd1: "kd_readers ?w1 = 0" using nf rd by simp_all
  obtain w' where wr: "ccask_write_record_blocking (ent_record e) ?w1 = Some (CCASK_OK, w')"
    using write_no_fault [OF ok1 ready nf1 rd1 max1] by blast
  have round: "writer_thread_round w = Some (True, w')"
    using rb pop r wr by (simp add: writer_thread_round_def)
  note c = write_calm [OF ok1 ready nf1 max1 wr]
  have more: "kd_readers w' = 0" "wr_ringbuf w' = Some rb'" "data_dir w' = data_dir w"
    using write_result [OF wr ok1 ready] rd more_ring [of w' ?w1] unfolding write_outcome_def by auto
  have nf': "fault_script w' = []" using c(2) by (simp add: write_frame_def)
  have small: "unat (id_of (file_heap w') h) + length q + 2 < 2 ^ 31" if "files_head w' = Some h" for h
    using c(3) [OF that] id unat_inc_le [of "id_of (file_heap w) p"] by auto
  then have calm: "calm w'" using nf' by (auto simp: calm_def)
  note d = durable_writer [OF dur nf ids round calm]
  have "draining (length q) w'" using nf' more ring' small by (auto simp: draining_def)
  then show thesis using that [OF round] d b more(3) by (auto simp: store_abs_def)
qed

lemma drained_stops:
  assumes "wr_ringbuf w = Some rb" and "ring_inv rb" and "\<not> rb_locked rb" and "rb_shutdown rb" and "ring_contents rb = []"
  shows "writer_thread_main w = Some w"
proof -
  have "w\<lparr>wr_ringbuf := Some rb\<rparr> = w" using assms(1) by (cases w) simp
  then show ?thesis
    using assms(1) ring_shutdown_pop(1) [OF assms(2-5)]
    by (simp add: writer_thread_main.simps writer_thread_round_def)
qed

lemma writer_drains:
  fixes w :: "'a writer_state_scheme"
  assumes "durable crc32 L w" and "draining (length (pending_puts w)) w"
  obtains w' L' where "writer_thread_main w = Some w'" and "durable crc32 L' w'" and "draining 0 w'"
    and "store_map w' = apply_puts (pending_puts w) (store_map w)" and "pending_puts w' = []" and "data_dir w' = data_dir w"
proof -
  have "\<exists>w' L'. writer_thread_main w = Some w' \<and> durable crc32 L' w' \<and> draining 0 w'
      \<and> store_map w' = apply_puts q (store_map w) \<and> pending_puts w' = [] \<and> data_dir w' = data_dir w"
    if "durable crc32 L w" "draining (length q) w" "pending_puts w = q" for q L and w :: "'a writer_state_scheme"
    using that
  proof (induction q arbitrary: L w)
    case Nil
    obtain rb where rb: "wr_ringbuf w = Some rb" "\<not> rb_locked rb" "rb_shutdown rb"
      using Nil.prems(2) by (auto simp: draining_def)
    have "ring_inv rb" using Nil.prems(1) rb by (simp add: durable_def system_inv_def queued_ok_def)
    moreover have "ring_contents rb = []" using Nil.prems(3) rb by (simp add: pending_puts_def)
    ultimately have "writer_thread_main w = Some w" using drained_stops rb by blast
    with Nil.prems show ?case by auto
  next
    case (Cons b q)
    obtain k t v where b: "b = (k, t, v)" by (cases b) auto
    have pend: "pending_puts w = (k, t, v) # q" "draining (length (pending_puts w)) w" using Cons.prems b by simp_all
    obtain u L1 where u: "writer_thread_round w = Some (True, u)" "durable crc32 L1 u" "draining (length q) u"
      "store_map u = (store_map w)(k \<mapsto> (t, v))" "pending_puts u = q" "data_dir u = data_dir w"
      by (rule drain_round [OF Cons.prems(1) pend(2,1)])
    obtain w' L' where "writer_thread_main u = Some w'" "durable crc32 L' w'" "draining 0 w'"
      "store_map w' = apply_puts q (store_map u)" "pending_puts w' = []" "data_dir w' = data_dir u"
      using Cons.IH [OF u(2,3,5)] by blast
    with u b show ?case by (auto simp: writer_thread_main.simps [of w])
  qed
  from this [OF assms(1,2) refl] that show thesis by blast
qed

section \<open>The shutdown\<close>

lemma hint_join_all_result:
  fixes w :: "'a store_state_scheme"
  assumes "durable crc32 L w" and "fault_script w = []"
  obtains w' where "hint_join_all ps w = Some w'" and "durable crc32 L w'" and "fault_script w' = []"
    and "store_abs w' = store_abs w" and "keydir_state.more w' = keydir_state.more w" and "kd_readers w' = kd_readers w"
    and "data_dir w' = data_dir w" and "files_head w' = files_head w" and "id_of (file_heap w') = id_of (file_heap w)"
proof -
  have "\<exists>w'. hint_join_all ps w = Some w' \<and> durable crc32 L w' \<and> fault_script w' = [] \<and> store_abs w' = store_abs w
      \<and> keydir_state.more w' = keydir_state.more w \<and> kd_readers w' = kd_readers w \<and> data_dir w' = data_dir w
      \<and> files_head w' = files_head w \<and> id_of (file_heap w') = id_of (file_heap w)"
    using assms
  proof (induction ps arbitrary: w)
    case (Cons p ps)
    show ?case
    proof (cases "p \<in> set (hint_pending w)")
      case False
      with Cons show ?thesis by simp
    next
      case True
      obtain qs where si: "store_inv crc32 w qs" using Cons.prems(1) by (auto simp: durable_def system_inv_def)
      have d: "log_disk crc32 L w" "hints_due w" and sys: "system_inv crc32 w" using Cons.prems(1) by (simp_all add: durable_def)
      obtain u where u: "hint_thread_run p w = Some u" "fault_script u = []" "log_disk crc32 L u" "hints_due u"
        "data_dir u = data_dir w" "files_head u = files_head w" "id_of (file_heap u) = id_of (file_heap w)"
        by (rule durable_hint [OF si d Cons.prems(2) True])
      note s = hint_step_silent [OF sys u(1)]
      note more = s(4)
      have "durable crc32 L u" using u s Cons.prems(1) by (simp add: durable_def store_abs_def)
      from Cons.IH [OF this u(2)] u s True more_kd [OF more] show ?thesis by auto
    qed
  qed simp
  then show thesis using that by blast
qed

text \<open>
  Without faults, key iterators and a lock that a failed push has kept, and with identifiers left, the
  shutdown returns.  Then the logs on disk spell the map with all queued puts.
\<close>

definition may_shut_down :: "'a writer_state_scheme \<Rightarrow> bool" where
  "may_shut_down w \<longleftrightarrow> fault_script w = [] \<and> kd_readers w = 0 \<and> (\<exists>rb. wr_ringbuf w = Some rb \<and> \<not> rb_locked rb)
     \<and> (\<forall>p. files_head w = Some p \<longrightarrow> unat (id_of (file_heap w) p) + length (pending_puts w) + 2 < 2 ^ 31)"

lemma durable_ringbuf:
  fixes w :: "'a writer_state_scheme"
  assumes dur: "durable crc32 L w" and rb: "wr_ringbuf w = Some rb"
    and same: "\<forall>rb'. r = Some rb' \<longrightarrow> ring_inv rb' \<and> ring_contents rb' = ring_contents rb"
  shows "durable crc32 L (w\<lparr>wr_ringbuf := r, wr_thread := b\<rparr>)"
proof (rule durable_frame [OF dur])
  let ?u = "w\<lparr>wr_ringbuf := r, wr_thread := b\<rparr>"
  have si: "store_inv crc32 ?u ps = store_inv crc32 w ps" for ps by (rule store_inv_cong) simp_all
  show "store_map ?u = store_map w" by (rule store_inv_cong) simp_all
  show "disk_frame w ?u" by (rule disk_frame_same) (simp_all add: same_files_def)
  show "system_inv crc32 ?u"
    using dur rb same by (simp add: durable_def system_inv_def si queued_ok_def)
  show "\<And>b. b \<in> set (pending_puts ?u) \<Longrightarrow> b \<in> set (pending_puts w) \<or> listable_key (fst b)"
    using rb same by (auto simp: pending_puts_def split: option.splits)
qed simp

lemma durable_flag:
  fixes w :: "'a store_state_scheme"
  assumes "durable crc32 L w"
  shows "durable crc32 L (w\<lparr>is_shutting_down := b\<rparr>)" and "store_map (w\<lparr>is_shutting_down := b\<rparr>) = store_map w"
proof -
  let ?u = "w\<lparr>is_shutting_down := b\<rparr>"
  have si: "store_inv crc32 ?u ps = store_inv crc32 w ps" for ps by (rule store_inv_cong) simp_all
  show m: "store_map ?u = store_map w" by (rule store_inv_cong) simp_all
  have "disk_frame w ?u" by (rule disk_frame_same) (simp_all add: same_files_def)
  then show "durable crc32 L ?u"
    by (rule durable_frame [OF assms _ _ m]) (use assms si in \<open>simp_all add: durable_def system_inv_def queued_ok_def pending_puts_def\<close>)
qed

lemma ccask_writer_stop_result:
  fixes w :: "'a writer_state_scheme"
  assumes dur: "durable crc32 L w" and may: "may_shut_down w"
  obtains w' L' where "ccask_writer_stop w = Some w'" and "durable crc32 L' w'" and "fault_script w' = []" and "kd_readers w' = 0"
    and "store_map w' = apply_puts (pending_puts w) (store_map w)" and "data_dir w' = data_dir w"
    and "\<forall>p. files_head w' = Some p \<longrightarrow> unat (id_of (file_heap w') p) + 2 < 2 ^ 31"
proof -
  obtain rb where rb: "wr_ringbuf w = Some rb" "\<not> rb_locked rb" using may by (auto simp: may_shut_down_def)
  let ?rb = "rb\<lparr>rb_shutdown := True\<rparr>"
  let ?u = "w\<lparr>wr_ringbuf := Some ?rb\<rparr>"
  have ring: "ring_inv rb" using dur rb by (simp add: durable_def system_inv_def queued_ok_def)
  have cont: "ring_inv ?rb" "ring_contents ?rb = ring_contents rb"
    using ring by (simp_all add: ring_inv_def ring_contents_def ring_count_def)
  have "durable crc32 L (w\<lparr>wr_ringbuf := Some ?rb, wr_thread := wr_thread w\<rparr>)"
    by (rule durable_ringbuf [OF dur rb(1)]) (use cont in simp)
  then have du: "durable crc32 L ?u" by simp
  have pend: "pending_puts ?u = pending_puts w" using rb cont by (simp add: pending_puts_def)
  have "draining (length (pending_puts ?u)) ?u" unfolding pend using may rb by (simp add: draining_def may_shut_down_def)
  then obtain v L' where v: "writer_thread_main ?u = Some v" "durable crc32 L' v" "draining 0 v"
    "store_map v = apply_puts (pending_puts ?u) (store_map ?u)" "pending_puts v = []" "data_dir v = data_dir ?u"
    by (rule writer_drains [OF du])
  obtain rv where rv: "wr_ringbuf v = Some rv" using v(3) by (auto simp: draining_def)
  have dv: "durable crc32 L' (v\<lparr>wr_ringbuf := None, wr_thread := False\<rparr>)"
    by (rule durable_ringbuf [OF v(2) rv]) simp
  have map: "store_map (v\<lparr>wr_ringbuf := None, wr_thread := False\<rparr>) = store_map v" by (rule store_inv_cong) simp_all
  have "ccask_writer_stop w = Some (v\<lparr>wr_ringbuf := None, wr_thread := False\<rparr>)"
    using rb v(1) by (simp add: ccask_writer_stop_def ccask_writer_ringbuf_start_shutdown_def
      ccask_writer_ringbuf_destroy_def)
  then show thesis
    by (rule that [OF _ dv]) (use v pend map in \<open>simp_all add: draining_def store_inv_ringbuf\<close>)
qed

lemma ccask_shutdown_result:
  fixes w :: "'a store_state_scheme"
  assumes dur: "durable crc32 L w" and may: "may_shut_down w"
  obtains w' L' where "ccask_shutdown w = Some w'" and "log_dir crc32 (data_dir w) L' w'"
    and "log_map (logs L') Map.empty = apply_puts (pending_puts w) (store_map w)" and "fault_script w' = []"
    and "posix_inv w'" and "\<And>i. map_of (dir_entries w') (data_path (data_dir w) i) \<noteq> None \<Longrightarrow> unat i + 2 < 2 ^ 31"
proof -
  let ?w0 = "w\<lparr>is_shutting_down := True\<rparr>"
  have d0: "durable crc32 L ?w0" and m0: "store_map ?w0 = store_map w" using durable_flag [OF dur] by blast+
  have nf0: "fault_script ?w0 = []" using may by (simp add: may_shut_down_def)
  obtain w1 where w1: "hint_join_all (hint_threads ?w0) ?w0 = Some w1" "durable crc32 L w1" "fault_script w1 = []"
    "store_abs w1 = store_abs ?w0" "keydir_state.more w1 = keydir_state.more ?w0" "kd_readers w1 = kd_readers ?w0"
    "data_dir w1 = data_dir ?w0" "files_head w1 = files_head ?w0" "id_of (file_heap w1) = id_of (file_heap ?w0)"
    by (rule hint_join_all_result [OF d0 nf0])
  have p0: "pending_puts ?w0 = pending_puts w" by (simp add: pending_puts_def)
  have a1: "pending_puts w1 = pending_puts w" "store_map w1 = store_map w" using w1(4) p0 m0 by (simp_all add: store_abs_def)
  have may1: "may_shut_down w1"
    unfolding may_shut_down_def a1 using may w1(3,6,8,9) more_ring [OF w1(5)] by (simp add: may_shut_down_def)
  obtain w2 L' where w2: "ccask_writer_stop w1 = Some w2" "durable crc32 L' w2" "fault_script w2 = []" "kd_readers w2 = 0"
    "store_map w2 = apply_puts (pending_puts w1) (store_map w1)" "data_dir w2 = data_dir w1"
    "\<forall>p. files_head w2 = Some p \<longrightarrow> unat (id_of (file_heap w2) p) + 2 < 2 ^ 31"
    by (rule ccask_writer_stop_result [OF w1(2) may1])
  obtain t h where w3: "ccask_keydir_shutdown w2 = Some (w2\<lparr>kd_table := t, kd_heap := h\<rparr>)"
    by (rule ccask_keydir_shutdown_result [OF w2(4)])
  let ?w3 = "w2\<lparr>kd_table := t, kd_heap := h\<rparr>"
  obtain p ps where ok: "files_ok w2 (p # ps)" by (rule durableE [OF w2(2)])
  have "same_files w2 ?w3" by (simp add: same_files_def)
  then have "files_rep ?w3 (p # ps)" using ok same_files_rep by (auto simp: files_ok_def)
  then obtain w' where w': "ccask_files_shutdown ?w3 = Some w'" "disk_same ?w3 w'"
    by (rule ccask_files_shutdown_result)
  have run: "ccask_shutdown w = Some w'"
    using w1(1) w2(1) w3 w'(1) by (simp add: ccask_shutdown_def ccask_hintfile_generator_shutdown_def)
  have ld: "log_dir crc32 (data_dir w) L' w2" using w2(2,6) w1(7) by (simp add: durable_def log_disk_dir)
  have dir: "log_dir crc32 (data_dir w) L' w'" using ld log_dir_cong [of w' w2] w'(2) by (simp add: disk_same_def)
  have map: "log_map (logs L') Map.empty = apply_puts (pending_puts w) (store_map w)"
    using w2(2,5) a1 by (simp add: durable_def)
  have room: "unat i + 2 < 2 ^ 31" if "map_of (dir_entries w') (data_path (data_dir w) i) \<noteq> None" for i
  proof -
    have "map_of (dir_entries w2) (data_path (data_dir w2) i) \<noteq> None" using that w'(2) w1(7) w2(6) by (simp add: disk_same_def)
    then have "\<not> id_of (file_heap w2) p < i" using active_newer_absent [OF ok, of i] by (intro notI) simp
    moreover have "files_head w2 = Some p" using ok files_list_head by (auto simp: files_ok_def files_rep_def)
    then have "unat (id_of (file_heap w2) p) + 2 < 2 ^ 31" using w2(7) by simp
    ultimately show ?thesis by (simp add: word_less_nat_alt)
  qed
  have inv: "posix_inv ?w3 = posix_inv w2" by (rule posix_inv_names) simp_all
  have "posix_inv w2" using ok by (simp add: files_ok_def)
  then have inv': "posix_inv w'" using inv w'(2) by (simp add: disk_same_def)
  have nf: "fault_script w' = []" using w'(2) w2(3) by (simp add: disk_same_def)
  show thesis by (rule that [OF run dir map nf inv' room])
qed

section \<open>Properties\<close>


text \<open>A put that is still queued when the process shuts down.\<close>

lemma ccask_put_calm:
  assumes "fault_script w = []" and "\<not> is_shutting_down w" and "wr_ringbuf w = Some rb" and "\<not> rb_locked rb" and "ring_inv rb"
    and "buffers_ok key ksize (Some v) vsize"
    and "ring_enq (ent_record (new_entry crc32 (sys_time w) key ksize (Some v) vsize)) rb = Some rb'"
  shows "ccask_put crc32 key ksize (Some v) vsize w = Some (CCASK_OK, w\<lparr>wr_ringbuf := Some rb'\<rparr>)"
proof -
  have m: "sys_mallocs 3 w = (True, w)" using assms(1) by (simp add: numeral_3_eq_3 sys_malloc_no_fault)
  have "ccask_writer_ringbuf_push crc32 (sys_time w) key ksize (Some v) vsize rb w = Some (CCASK_OK, rb', w)"
    using assms(4,7) ring_inv_cap [OF assms(5)] m
    by (auto simp: ccask_writer_ringbuf_push_def ring_enq_def Let_def ccask_create_datafile_record_result [OF assms(6)]
        split: if_splits)
  then have "put_attempt crc32 key ksize (Some v) vsize w = Some (CCASK_OK, w\<lparr>wr_ringbuf := Some rb'\<rparr>)"
    using assms(3) by (simp add: put_attempt_def)
  then have "ccask_attempt_opt 5 CCASK_RETRY (put_attempt crc32 key ksize (Some v) vsize) w = Some (CCASK_OK, w\<lparr>wr_ringbuf := Some rb'\<rparr>)"
    by (intro ccask_attempt_opt_done) simp_all
  with assms(2) show ?thesis by (simp add: ccask_put_def)
qed


end
