(* ===== verification/Compactor.thy ===== *)
theory Compactor
  imports Core
begin

text \<open>
  src/compactor.c: the records that the directory points at are copied to temporary datafiles, then
  the datafiles and hintfiles are deleted and the temporary files renamed.
\<close>

section \<open>The compaction\<close>

text \<open>How the loop over the directory ends: with the last temporary file still open, with the jump
  to \<open>cancel_compaction\<close>, or with the early return that keeps everything open.\<close>

datatype compact_end = Compacted u64 int | Cancelled u64 | Aborted

text \<open>Another temporary file when the record does not fit the current one; \<open>None\<close> cancels.\<close>

definition compact_make_room ::
  "u64 \<Rightarrow> int \<Rightarrow> nat \<Rightarrow> datafile_record \<Rightarrow> 'a files_state_scheme
     \<Rightarrow> (u64 \<times> int option) \<times> 'a files_state_scheme" where
  "compact_make_room curr_temp_id temp_file_fd pos df_record w =
     (if max_active_file_size w < of_nat pos + ccask_get_datafile_record_total_size df_record
      then let w1 = sys_close temp_file_fd w;
               (fd, w2) = attempt_fd (ccask_files_get_temp_datafile_fd (curr_temp_id + 1)) w1
           in ((curr_temp_id + 1, if fd < 0 then None else Some fd), w2)
      else ((curr_temp_id, Some temp_file_fd), w))"

partial_function (option) compact_records ::
  "nat option \<Rightarrow> u64 \<Rightarrow> int \<Rightarrow> 'a keydir_state_scheme \<Rightarrow> (compact_end \<times> 'a keydir_state_scheme) option" where
  "compact_records iter curr_temp_id temp_file_fd w =
     (case ccask_keydir_record_iter_next iter w of
        (None, iter') \<Rightarrow> Some (Compacted curr_temp_id temp_file_fd, w)
      | (Some p, iter') \<Rightarrow> do {
          kd_record \<leftarrow> kd_heap w p;
          case ccask_allocate_datafile_record (kd_key_size kd_record) (kd_value_size kd_record) w of
            ((st, df0), w1) \<Rightarrow>
              if st \<noteq> CCASK_OK then Some (Aborted, w1)
              else do {
                (res, (df, w2)) \<leftarrow> ccask_attempt_opt 5 CCASK_RETRY
                  (\<lambda>(df, u). do {
                     ((st, df'), u') \<leftarrow> ccask_read_datafile_record (kd_file_id kd_record) df (kd_record_pos kd_record) u;
                     Some (st, (df', u')) }) (df0, w1);
                if res \<noteq> CCASK_OK then Some (Cancelled curr_temp_id, sys_close temp_file_fd w2)
                else (case sys_lseek_end temp_file_fd w2 of
                    (Inl e, w3) \<Rightarrow> Some (Cancelled curr_temp_id, sys_close temp_file_fd w3)
                  | (Inr pos, w3) \<Rightarrow>
                      (case compact_make_room curr_temp_id temp_file_fd pos df w3 of
                         ((temp_id, None), w4) \<Rightarrow> Some (Cancelled temp_id, w4)
                       | ((temp_id, Some fd), w4) \<Rightarrow> do {
                           (res, w5) \<leftarrow> safe_writev fd (datafile_record_iov df) w4;
                           if res \<noteq> CCASK_OK then Some (Cancelled temp_id, sys_close fd w5)
                           else compact_records iter' temp_id fd w5 })) } })"

text \<open>The loop that deletes, from the oldest node along the \<open>previous\<close> links.\<close>

definition compact_delete_file ::
  "ccask_file \<Rightarrow> 'a files_state_scheme \<Rightarrow> ccask_status \<times> 'a files_state_scheme" where
  "compact_delete_file f w =
     (let (res, w1) = ccask_attempt 5 CCASK_RETRY (ccask_files_delete (cf_id f) FILE_DATA) w;
          (res2, w2) = (if cf_has_hint f
             then ccask_attempt 5 CCASK_RETRY (ccask_files_delete (cf_id f) FILE_HINT) w1 else (CCASK_OK, w1))
      in (if res \<noteq> CCASK_OK \<or> res2 \<noteq> CCASK_OK then CCASK_FAIL else CCASK_OK, w2))"

partial_function (option) compact_delete_from ::
  "nat option \<Rightarrow> ccask_status \<Rightarrow> 'a files_state_scheme \<Rightarrow> (ccask_status \<times> 'a files_state_scheme) option" where
  "compact_delete_from curr_file delete_res w = (case curr_file of
      None \<Rightarrow> Some (delete_res, w)
    | Some p \<Rightarrow> do {
        f \<leftarrow> file_heap w p;
        let (res, w1) = compact_delete_file f w;
        f' \<leftarrow> file_heap w1 p;
        compact_delete_from (cf_previous f') (if res \<noteq> CCASK_OK then CCASK_FAIL else delete_res) w1 })"

text \<open>The loop that renames: its results are only logged.  There are fewer than 2^64 files.\<close>

definition compact_rename ::
  "nat \<Rightarrow> 'a files_state_scheme \<Rightarrow> 'a files_state_scheme" where
  "compact_rename i w = snd (ccask_attempt 5 CCASK_RETRY
     (ccask_files_change_ext (of_nat i) FILE_TEMP_DATA FILE_DATA) w)"

text \<open>The loop at \<open>cancel_compaction\<close> counts an \<open>int\<close> down from the identifier.\<close>

definition compact_cancel :: "u64 \<Rightarrow> 'a files_state_scheme \<Rightarrow> 'a files_state_scheme" where
  "compact_cancel curr_temp_id w =
     fold (\<lambda>i u. snd (ccask_attempt 5 CCASK_RETRY (ccask_files_delete (word_of_int i) FILE_TEMP_DATA) u))
       (rev [0 .. sint (ucast curr_temp_id :: 32 word)]) w"

text \<open>The first part: the temporary files are written.  \<open>None\<close>: the first one could not be opened.\<close>

definition compact_copy ::
  "'a keydir_state_scheme \<Rightarrow> (compact_end option \<times> 'a keydir_state_scheme) option" where
  "compact_copy w = (case attempt_fd (ccask_files_get_temp_datafile_fd 0) w of
      (temp_file_fd, w1) \<Rightarrow>
        if temp_file_fd < 0 then Some (None, w1)
        else (case ccask_keydir_record_iter w1 of (iter, w2) \<Rightarrow> do {
          (r, w3) \<leftarrow> compact_records iter 0 temp_file_fd w2;
          Some (Some r, w3) }))"

definition ccask_compactor_dump_keydir ::
  "'a keydir_state_scheme \<Rightarrow> (ccask_status \<times> 'a keydir_state_scheme) option" where
  "ccask_compactor_dump_keydir w = do {
     (r, w1) \<leftarrow> compact_copy w;
     case r of
       None \<Rightarrow> Some (CCASK_FAIL, w1)
     | Some Aborted \<Rightarrow> Some (CCASK_FAIL, w1)
     | Some (Cancelled curr_temp_id) \<Rightarrow> Some (CCASK_FAIL, compact_cancel curr_temp_id w1)
     | Some (Compacted curr_temp_id temp_file_fd) \<Rightarrow> do {
         let w2 = ccask_keydir_record_iter_close (sys_close temp_file_fd w1);
         (delete_res, w3) \<leftarrow> compact_delete_from (ccask_files_get_oldest_file w2) CCASK_OK w2;
         if delete_res \<noteq> CCASK_OK then Some (delete_res, w3)
         else Some (CCASK_OK, fold compact_rename [0..<Suc (unat curr_temp_id)] w3) } }"

section \<open>What copying leaves alone\<close>

definition temp_path :: "string \<Rightarrow> u64 \<Rightarrow> string" where
  "temp_path dir i = ext_path dir i FILE_TEMP_DATA"

lemma temp_path_not_data: "range (data_path dir) \<inter> {temp_path dir i} = {}"
  by (auto simp: temp_path_def data_path_def ext_path_inj)

definition compact_frame :: "nat list \<Rightarrow> 'a files_state_scheme \<Rightarrow> 'a files_state_scheme \<Rightarrow> bool" where
  "compact_frame ps w w' \<longleftrightarrow> files_ok w' ps \<and> (\<forall>j. data_bytes w' j = data_bytes w j)
     \<and> (\<forall>p \<in> set ps. id_of (file_heap w') p = id_of (file_heap w) p)
     \<and> data_dir w' = data_dir w \<and> max_active_file_size w' = max_active_file_size w
     \<and> files_state.more w' = files_state.more w \<and> has_hint_of (file_heap w') = has_hint_of (file_heap w)
     \<and> hint_pending w' = hint_pending w"

lemma compact_frame_refl: "files_ok w ps \<Longrightarrow> compact_frame ps w w"
  by (simp add: compact_frame_def)

lemma compact_frame_trans: "compact_frame ps w u \<Longrightarrow> compact_frame ps u w' \<Longrightarrow> compact_frame ps w w'"
  by (simp add: compact_frame_def)

lemma compact_frame_reader: "reader_frame ps w w' \<Longrightarrow> compact_frame ps w w'"
  using data_bytes_grows by (auto simp: reader_frame_def compact_frame_def)

lemma compact_frame_besides:
  assumes "files_ok w ps" and "besides H w w'" and "range (data_path (data_dir w)) \<inter> H = {}"
    and "posix.more w' = posix.more w"
  shows "compact_frame ps w w'"
  using files_ok_besides [OF assms] same_files_fields [OF assms(4)] by (simp add: compact_frame_def)

lemma compact_frame_appends:
  assumes "files_ok w ps" and "appends (temp_path (data_dir w) i) bs w w'"
  shows "compact_frame ps w w'"
proof (rule compact_frame_besides [OF assms(1)])
  show "besides {temp_path (data_dir w) i} w w'"
    using besides_appends [OF assms(2)] assms(1) by (simp add: files_ok_def)
qed (use temp_path_not_data appends_fields(6) [OF assms(2)] in simp_all)

text \<open>The descriptor of a temporary file is none of the nodes'.\<close>

lemma compact_frame_close:
  assumes ok: "files_ok w ps" and fd: "fd_on (temp_path (data_dir w) i) fd w"
  shows "compact_frame ps w (sys_close fd w)"
proof -
  let ?w = "sys_close fd w"
  have inv: "posix_inv w" and nodes: "nodes_ok (data_dir w) w (file_nodes (file_heap w) ps)"
    using ok by (simp_all add: files_ok_def)
  have look: "lookup_inode ?w q = lookup_inode w q" for q by (rule lookup_inode_cong) (simp add: sys_close_def)
  have other: "open_fds ?w (cf_fd f) = open_fds w (cf_fd f)" if n: "node_ok (data_dir w) w f" "0 \<le> cf_fd f" for f
  proof -
    have "cf_fd f \<noteq> fd"
    proof
      assume "cf_fd f = fd"
      then have "\<exists>j. lookup_inode w (data_path (data_dir w) (cf_id f)) = Some j
        \<and> lookup_inode w (temp_path (data_dir w) i) = Some j"
        using n fd by (auto simp: node_ok_def fd_on_def)
      then have "data_path (data_dir w) (cf_id f) = temp_path (data_dir w) i"
        using lookup_inode_inj [OF inv] by blast
      then show False using temp_path_not_data by blast
    qed
    then show ?thesis by (simp add: sys_close_def)
  qed
  have node: "node_ok (data_dir w) ?w f" if "node_ok (data_dir w) w f" for f
    using that other [OF that] by (auto simp: node_ok_def look)
  obtain f gs where fs: "file_nodes (file_heap w) ps = f # gs"
    using nodes by (cases "file_nodes (file_heap w) ps") (auto simp: nodes_ok_def)
  have "open_fds ?w (cf_fd f) = open_fds w (cf_fd f)" using nodes fs other by (simp add: nodes_ok_def)
  moreover have "dir_entries ?w = dir_entries w" by (simp add: sys_close_def)
  ultimately have "nodes_ok (data_dir w) ?w (file_nodes (file_heap w) ps)"
    using nodes node unfolding fs by (simp add: nodes_ok_def)
  moreover have "posix_inv ?w" using inv by (rule posix_inv_close)
  moreover have same: "posix.more ?w = posix.more w" by (simp add: sys_close_def)
  note f = same_files_fields [OF this]
  moreover have "files_rep ?w ps" using ok f by (simp add: files_ok_def files_rep_def files_list_def)
  moreover have "data_bytes ?w j = data_bytes w j" for j
    using f bytes_at_cong [of ?w w] by (simp add: data_bytes_def sys_close_def)
  ultimately show ?thesis using f ok by (simp add: compact_frame_def files_ok_def)
qed

lemma read_frame:
  assumes "files_ok w ps" and "ccask_read_datafile_record i r pos w = Some ((st, r'), w')"
  shows "reader_frame ps w w'"
proof (cases "ccask_files_get_file i w")
  case None
  then have "w' = set_errno CCASK_ERR_NO_SUCH_DATAFILE w"
    using assms(2) by (simp add: ccask_read_datafile_record_def)
  then show ?thesis using reader_frame_io [OF assms(1) io_frame_set_errno] by simp
next
  case (Some p)
  then have "p \<in> set ps" "id_of (file_heap w) p = i"
    using ccask_files_get_file_iff [of w ps i p] assms(1) by (simp_all add: files_ok_def)
  then show ?thesis using ccask_read_datafile_record_result(1) assms by blast
qed

text \<open>The buffers of a record that was read are full.\<close>

lemma read_wf:
  assumes "files_ok w ps" and "ccask_read_datafile_record i r pos w = Some ((CCASK_OK, r'), w')"
  shows "\<forall>v \<in> set (datafile_record_iov r'). wf_iov v"
proof -
  obtain p where "ccask_files_get_file i w = Some p"
    using assms(2) by (auto simp: ccask_read_datafile_record_def split: option.splits)
  then have p: "p \<in> set ps" "id_of (file_heap w) p = i"
    using ccask_files_get_file_iff [of w ps i p] assms(1) by (simp_all add: files_ok_def)
  from ccask_read_datafile_record_result(2) [OF assms(1) p assms(2) refl] show ?thesis
    by (auto simp: record_with_def datafile_record_iov_def wf_iov_def)
qed

lemma fd_on_reader:
  assumes "fd_on path fd w" and "reader_frame ps w w'" and "posix_inv w"
  shows "fd_on path fd w'"
  using assms fd_on_grows by (auto simp: reader_frame_def)

lemma temp_fd_result:
  assumes ok: "files_ok w ps" and run: "attempt_fd (ccask_files_get_temp_datafile_fd i) w = (fd, w')"
  shows "compact_frame ps w w'" and "0 \<le> fd \<Longrightarrow> fd_on (temp_path (data_dir w) i) fd w'"
    and "0 \<le> fd \<Longrightarrow> fd_writable (the (open_fds w' fd))"
    and "posix.more w' = posix.more w"
proof -
  have inv: "posix_inv w" using ok by (simp add: files_ok_def)
  note o = attempt_open_result [OF run [unfolded ccask_files_get_temp_datafile_fd_def] inv, folded temp_path_def]
  have "besides {temp_path (data_dir w) i} w w'"
    using o(1,2) by (intro besides_grows [where P = "{temp_path (data_dir w) i}"]) (simp_all add: creates_def)
  then show "compact_frame ps w w'"
    by (rule compact_frame_besides [OF ok]) (use temp_path_not_data o(3) in simp_all)
  show "posix.more w' = posix.more w" using o(3) by simp
  assume "0 \<le> fd"
  then show "fd_on (temp_path (data_dir w) i) fd w'" "fd_writable (the (open_fds w' fd))"
    using fd_on_opened o(4) by fastforce+
qed

lemma compact_make_room_result:
  assumes ok: "files_ok w ps" and fd: "fd_on (temp_path (data_dir w) i) fd w"
    and run: "compact_make_room i fd pos df w = ((j, r), w')"
  shows "compact_frame ps w w'" and "r = Some fd' \<Longrightarrow> fd_on (temp_path (data_dir w) j) fd' w'"
proof -
  have "compact_frame ps w w' \<and> (\<forall>fd'. r = Some fd' \<longrightarrow> fd_on (temp_path (data_dir w) j) fd' w')"
  proof (cases "max_active_file_size w < of_nat pos + ccask_get_datafile_record_total_size df")
    case True
    obtain fd2 where att: "attempt_fd (ccask_files_get_temp_datafile_fd (i + 1)) (sys_close fd w) = (fd2, w')"
      and j: "j = i + 1" and r: "r = (if fd2 < 0 then None else Some fd2)"
      using run True by (auto simp: compact_make_room_def Let_def split: prod.splits)
    have c: "compact_frame ps w (sys_close fd w)" using ok fd by (rule compact_frame_close)
    then have ok1: "files_ok (sys_close fd w) ps" and d: "data_dir (sys_close fd w) = data_dir w"
      by (simp_all add: compact_frame_def)
    note t = temp_fd_result [OF ok1 att]
    show ?thesis using compact_frame_trans [OF c t(1)] t(2) d j r by auto
  next
    case False
    with run fd compact_frame_refl [OF ok] show ?thesis by (auto simp: compact_make_room_def)
  qed
  then show "compact_frame ps w w'" and "r = Some fd' \<Longrightarrow> fd_on (temp_path (data_dir w) j) fd' w'" by blast+
qed


lemma ccask_allocate_datafile_record_io:
  "ccask_allocate_datafile_record ks vs w = (r, w') \<Longrightarrow> io_frame w w'"
  by (auto simp: ccask_allocate_datafile_record_def Let_def split: prod.splits if_splits dest: sys_mallocs_io
      intro: io_frame_trans [OF sys_mallocs_io io_frame_set_errno])

text \<open>The loop, for any faults: the store stays as it is, however it ends.\<close>

lemma compact_step_frame:
  assumes tail: "(if s \<noteq> CCASK_OK then Some (Cancelled i, sys_close fd w2)
      else (case sys_lseek_end fd w2 of
          (Inl e, w3) \<Rightarrow> Some (Cancelled i, sys_close fd w3)
        | (Inr pos, w3) \<Rightarrow>
            (case compact_make_room i fd pos df w3 of
               ((temp_id, None), w4) \<Rightarrow> Some (Cancelled temp_id, w4)
             | ((temp_id, Some fd), w4) \<Rightarrow> do {
                 (res, w5) \<leftarrow> safe_writev fd (datafile_record_iov df) w4;
                 if res \<noteq> CCASK_OK then Some (Cancelled temp_id, sys_close fd w5)
                 else go temp_id fd w5 }))) = Some res"
    and c2: "compact_frame ps w w2" and fd2: "fd_on (temp_path (data_dir w) i) fd w2"
    and wf: "s = CCASK_OK \<Longrightarrow> \<forall>v \<in> set (datafile_record_iov df). wf_iov v"
    and go: "\<And>j fd' u. go j fd' u = Some res \<Longrightarrow> files_ok u ps \<Longrightarrow> fd_on (temp_path (data_dir u) j) fd' u \<Longrightarrow>
      compact_frame ps u (snd res)
      \<and> (\<forall>j fd'. fst res = Compacted j fd' \<longrightarrow> fd_on (temp_path (data_dir u) j) fd' (snd res))"
  shows "compact_frame ps w (snd res)
    \<and> (\<forall>j fd'. fst res = Compacted j fd' \<longrightarrow> fd_on (temp_path (data_dir w) j) fd' (snd res))"
proof -
  have close: "compact_frame ps w (sys_close fd u)"
    if "compact_frame ps w u" "fd_on (temp_path (data_dir w) j) fd u" for j fd u
    using that compact_frame_close [of u ps j fd] compact_frame_trans [of ps w u] by (simp add: compact_frame_def)
  have app: "compact_frame ps w u'" if "compact_frame ps w u" "appends (temp_path (data_dir w) j) bs u u'" for j bs u u'
    using that compact_frame_appends [of u ps j bs u'] compact_frame_trans [of ps w u] by (simp add: compact_frame_def)
  show ?thesis
  proof (cases "s = CCASK_OK")
    case False
    with tail close [OF c2 fd2] show ?thesis by auto
  next
    case True
    obtain sk w3 where sk: "sys_lseek_end fd w2 = (sk, w3)" by fastforce
    note a3 = lseek_appends(1) [OF sk fd2]
    note c3 = app [OF c2 a3]
    have fd3: "fd_on (temp_path (data_dir w) i) fd w3" using fd2 by (simp add: appends_fields [OF a3])
    show ?thesis
    proof (cases sk)
      case (Inl e)
      with tail True sk close [OF c3 fd3] show ?thesis by auto
    next
      case (Inr pos)
      obtain j r w4 where room: "compact_make_room i fd pos df w3 = ((j, r), w4)" by (metis prod.collapse)
      have ok3: "files_ok w3 ps" and d3: "data_dir w3 = data_dir w" using c3 by (simp_all add: compact_frame_def)
      note m = compact_make_room_result [OF ok3 fd3 [folded d3] room]
      note c4 = compact_frame_trans [OF c3 m(1)]
      show ?thesis
      proof (cases r)
        case None
        with tail True sk Inr room c4 show ?thesis by auto
      next
        case (Some fd')
        have fd4: "fd_on (temp_path (data_dir w) j) fd' w4" using m(2) [OF Some] d3 by simp
        obtain x w5 where sw: "safe_writev fd' (datafile_record_iov df) w4 = Some (x, w5)"
          using tail True sk Inr room Some by (auto simp: bind_eq_Some_conv)
        obtain k where a5: "appends (temp_path (data_dir w) j) (take k (iov_bytes (datafile_record_iov df))) w4 w5"
          by (rule safe_writev_appends [OF sw wf [OF True] fd4])
        note c5 = app [OF c4 a5]
        have fd5: "fd_on (temp_path (data_dir w) j) fd' w5" using fd4 by (simp add: appends_fields [OF a5])
        have rest: "(if x \<noteq> CCASK_OK then Some (Cancelled j, sys_close fd' w5) else go j fd' w5) = Some res"
          using tail True sk Inr room Some sw by simp
        show ?thesis
        proof (cases "x = CCASK_OK")
          case False
          with rest close [OF c5 fd5] show ?thesis by auto
        next
          case True
          have ok5: "files_ok w5 ps" and d5: "data_dir w5 = data_dir w" using c5 by (simp_all add: compact_frame_def)
          have "go j fd' w5 = Some res" using rest True by simp
          from go [OF this ok5 fd5 [folded d5]] c5 d5 compact_frame_trans show ?thesis by auto
        qed
      qed
    qed
  qed
qed

lemma compact_records_frame:
  assumes "compact_records iter i fd w = Some (r, w')" and "files_ok w ps"
    and "fd_on (temp_path (data_dir w) i) fd w"
  shows "compact_frame ps w w' \<and> (\<forall>j fd'. r = Compacted j fd' \<longrightarrow> fd_on (temp_path (data_dir w) j) fd' w')"
proof -
  let ?Q = "\<lambda>i fd w res. files_ok w ps \<longrightarrow> fd_on (temp_path (data_dir w) i) fd w \<longrightarrow> compact_frame ps w (snd res)
    \<and> (\<forall>j fd'. fst res = Compacted j fd' \<longrightarrow> fd_on (temp_path (data_dir w) j) fd' (snd res))"
  have "?Q i fd w res" if "compact_records iter i fd w = Some res" for iter i fd w res
    apply (rule compact_records.raw_induct [where P = "\<lambda>iter i fd w res. ?Q i fd w res", OF _ that])
    apply (intro impI)
    subgoal premises prems for self iter i fd w res
    proof -
      note IH = prems(1) and body = prems(2) and ok = prems(3) and fd = prems(4)
      have inv: "posix_inv w" using ok by (simp add: files_ok_def)
      show ?thesis
      proof (cases "fst (ccask_keydir_record_iter_next iter w)")
        case None
        then have "res = (Compacted i fd, w)"
          using body by (cases "ccask_keydir_record_iter_next iter w") auto
        with fd compact_frame_refl [OF ok] show ?thesis by auto
      next
        case (Some p)
        then obtain iter' where it: "ccask_keydir_record_iter_next iter w = (Some p, iter')"
          by (cases "ccask_keydir_record_iter_next iter w") auto
        then obtain kd where kd: "kd_heap w p = Some kd" using body by (auto simp: bind_eq_Some_conv)
        obtain st df0 w1 where al: "ccask_allocate_datafile_record (kd_key_size kd) (kd_value_size kd) w = ((st, df0), w1)"
          by (metis prod.collapse)
        have io1: "io_frame w w1" using al by (rule ccask_allocate_datafile_record_io)
        note c1 = compact_frame_reader [OF reader_frame_io [OF ok io1]]
        then have ok1: "files_ok w1 ps" and d1: "data_dir w1 = data_dir w" by (simp_all add: compact_frame_def)
        have fd1: "fd_on (temp_path (data_dir w) i) fd w1"
          using fd_on_reader [OF fd reader_frame_io [OF ok io1] inv] .
        show ?thesis
        proof (cases "st = CCASK_OK")
          case False
          then have "res = (Aborted, w1)" using body it kd al by simp
          with c1 show ?thesis by simp
        next
          case True
          obtain s df w2 where rd: "ccask_read_datafile_record (kd_file_id kd) df0 (kd_record_pos kd) w1 = Some ((s, df), w2)"
            and att: "ccask_attempt_opt 5 CCASK_RETRY
              (\<lambda>(df, u). do { ((st, df'), u') \<leftarrow> ccask_read_datafile_record (kd_file_id kd) df (kd_record_pos kd) u;
                             Some (st, (df', u')) }) (df0, w1) = Some (s, (df, w2))"
            by (rule attempt_read [OF ok1])
          have r2: "reader_frame ps w1 w2" using read_frame [OF ok1 rd] .
          have inv1: "posix_inv w1" using ok1 by (simp add: files_ok_def)
          note c2 = compact_frame_trans [OF c1 compact_frame_reader [OF r2]]
          have fd2: "fd_on (temp_path (data_dir w) i) fd w2" using fd_on_reader [OF fd1 r2 inv1] .
          have ok2: "files_ok w2 ps" and d2: "data_dir w2 = data_dir w" using c2 by (simp_all add: compact_frame_def)
          have tail: "(if s \<noteq> CCASK_OK then Some (Cancelled i, sys_close fd w2)
            else (case sys_lseek_end fd w2 of
                (Inl e, w3) \<Rightarrow> Some (Cancelled i, sys_close fd w3)
              | (Inr pos, w3) \<Rightarrow>
                  (case compact_make_room i fd pos df w3 of
                     ((temp_id, None), w4) \<Rightarrow> Some (Cancelled temp_id, w4)
                   | ((temp_id, Some fd), w4) \<Rightarrow> do {
                       (res, w5) \<leftarrow> safe_writev fd (datafile_record_iov df) w4;
                       if res \<noteq> CCASK_OK then Some (Cancelled temp_id, sys_close fd w5)
                       else self iter' temp_id fd w5 }))) = Some res"
            using body it kd al True att by simp
          show ?thesis
            by (rule compact_step_frame [OF tail c2 fd2])
               (use IH read_wf [OF ok1] rd in auto)
        qed
      qed
    qed
    done
  from this [OF assms(1)] assms(2,3) show ?thesis by simp
qed

lemma compact_frame_store:
  assumes "store_inv crc32 w ps" and "compact_frame ps w w'"
  shows "store_inv crc32 w' ps" and "store_map w' = store_map w"
  using assms store_inv_same [OF assms(1), of w'] by (auto simp: compact_frame_def)

lemma compact_copy_result:
  assumes inv: "store_inv crc32 w ps" and run: "compact_copy w = Some (r, w')"
  shows "store_inv crc32 w' ps" and "store_map w' = store_map w"
    and "kd_readers w' = (if r = None then kd_readers w else Suc (kd_readers w))"
    and "r = Some (Compacted i fd) \<Longrightarrow> fd_on (temp_path (data_dir w') i) fd w'"
proof -
  have ok: "files_ok w ps" using inv by (simp add: store_inv_def)
  obtain fd0 w1 where att: "attempt_fd (ccask_files_get_temp_datafile_fd 0) w = (fd0, w1)" by fastforce
  note t = temp_fd_result [OF ok att]
  note s1 = compact_frame_store [OF inv t(1)]
  have kd1: "kd_readers w1 = kd_readers w"
    using more_kd(4) [of w1 w] t(1) by (simp add: compact_frame_def)
  have "store_inv crc32 w' ps \<and> store_map w' = store_map w
    \<and> kd_readers w' = (if r = None then kd_readers w else Suc (kd_readers w))
    \<and> (r = Some (Compacted i fd) \<longrightarrow> fd_on (temp_path (data_dir w') i) fd w')"
  proof (cases "fd0 < 0")
    case True
    with run att s1 kd1 show ?thesis by (auto simp: compact_copy_def)
  next
    case False
    let ?w2 = "w1\<lparr>kd_readers := kd_readers w1 + 1\<rparr>"
    obtain e where r: "r = Some e" and go: "compact_records (hash_first (kd_table w1)) 0 fd0 ?w2 = Some (e, w')"
      using run att False by (auto simp: compact_copy_def ccask_keydir_record_iter_def bind_eq_Some_conv)
    have s2: "store_inv crc32 ?w2 ps" "store_map ?w2 = store_map w1" using s1 store_inv_readers [where w = w1] by simp_all
    then have ok2: "files_ok ?w2 ps" by (simp add: store_inv_def)
    have d1: "data_dir w1 = data_dir w" using t(1) by (simp add: compact_frame_def)
    have "fd_on (temp_path (data_dir ?w2) 0) fd0 ?w2"
      using t(2) False d1 by (simp add: fd_on_def lookup_inode_def)
    note loop = compact_records_frame [OF go ok2 this]
    have more: "files_state.more w' = files_state.more ?w2" and d2: "data_dir w' = data_dir ?w2"
      using loop by (simp_all add: compact_frame_def)
    have "kd_readers w' = Suc (kd_readers w)" using more_kd(4) [OF more] kd1 by simp
    with compact_frame_store [OF s2(1) conjunct1 [OF loop]] s1(2) s2(2) r loop d2 show ?thesis by simp
  qed
  then show "store_inv crc32 w' ps" and "store_map w' = store_map w"
    and "kd_readers w' = (if r = None then kd_readers w else Suc (kd_readers w))"
    and "r = Some (Compacted i fd) \<Longrightarrow> fd_on (temp_path (data_dir w') i) fd w'" by blast+
qed

text \<open>Deleting the temporary files.\<close>

lemma compact_cancel_frame:
  assumes "files_ok w ps"
  shows "compact_frame ps w (compact_cancel i w)"
proof -
  let ?del = "\<lambda>(i :: int) u. snd (ccask_attempt 5 CCASK_RETRY (ccask_files_delete (word_of_int i) FILE_TEMP_DATA) u)"
  have "compact_frame ps w (fold ?del is w)" if "compact_frame ps v w" for "is" v and w :: "'a files_state_scheme"
  proof -
    have ok: "files_ok w ps" using that by (simp add: compact_frame_def)
    then show ?thesis
    proof (induction "is" arbitrary: w)
      case Nil
      then show ?case by (simp add: compact_frame_refl)
    next
      case (Cons i "is")
      obtain st u where u: "ccask_attempt 5 CCASK_RETRY (ccask_files_delete (word_of_int i) FILE_TEMP_DATA) w = (st, u)"
        by fastforce
      have inv: "posix_inv w" using Cons.prems by (simp add: files_ok_def)
      note d = attempt_delete_result [OF u inv]
      have "compact_frame ps w u"
        by (rule compact_frame_besides [OF Cons.prems d(1)])
           (use temp_path_not_data d(2) in \<open>simp_all add: temp_path_def\<close>)
      with Cons.IH [of u] show ?case using compact_frame_trans [of ps w u] by (simp add: u compact_frame_def)
    qed
  qed
  from this [OF compact_frame_refl [OF assms]] show ?thesis by (simp add: compact_cancel_def)
qed

text \<open>A store with one record, for concrete runs.\<close>

definition demo_entry :: "crc_fun \<Rightarrow> entry" where
  "demo_entry crc32 = new_entry crc32 7 [1, 2] 2 (Some [3]) 1"

definition demo_record :: keydir_record where
  "demo_record = \<lparr>kd_key = [1, 2], kd_key_size = 2, kd_file_id = 0, kd_record_pos = 0, kd_value_size = 1,
     kd_timestamp = 7\<rparr>"

definition demo_full :: "crc_fun \<Rightarrow> 'a \<Rightarrow> 'a keydir_state_scheme" where
  "demo_full crc32 x = demo_files (encode_entry (demo_entry crc32)) \<lparr>kd_table = hash_add [1, 2] 0 None,
     kd_heap = [0 \<mapsto> demo_record], kd_next_ptr = 1, kd_readers = 0, \<dots> = x\<rparr>"

lemma demo_full_fields [simp]:
  "kd_table (demo_full crc32 x) = hash_add [1, 2] 0 None" "kd_heap (demo_full crc32 x) = [0 \<mapsto> demo_record]"
  "kd_next_ptr (demo_full crc32 x) = 1" "kd_readers (demo_full crc32 x) = 0"
  "max_active_file_size (demo_full crc32 x) = 1000" "data_dir (demo_full crc32 x) = ''d''"
  "fault_script (demo_full crc32 x) = []"
  by (simp_all add: demo_full_def demo_files_def)

lemma demo_entry_fields:
  "ent_key (demo_entry crc32) = [1, 2]" "ent_value (demo_entry crc32) = [3]" "ent_timestamp (demo_entry crc32) = 7"
  "ent_ok (demo_entry crc32)" "ent_size (demo_entry crc32) = 19" "length (encode_entry (demo_entry crc32)) = 19"
  by (simp_all add: demo_entry_def new_entry_def bytes_of_def ent_ok_def ent_size_def encode_entry_def)

lemma demo_full_inv: "store_inv crc32 (demo_full crc32 x) [0]"
proof -
  let ?w = "demo_full crc32 x"
  have tab: "uthash_inv (hash_add [1, 2] (0 :: nat) None)" "hash_find (hash_add [1, 2] (0 :: nat) None) = [[1, 2] \<mapsto> 0]"
    "hash_elems (hash_add [1, 2] (0 :: nat) None) = [([1, 2], 0)]"
    using ut.lookup_insert [of None "[1, 2]" "0 :: nat"] ut.elems_insert [of None "[1, 2]" "0 :: nat"]
    by (simp_all add: fun_eq_iff)
  have kd: "keydir_inv ?w" using tab by (simp add: keydir_inv_def demo_record_def)
  have look: "kd_lookup ?w k = (if k = [1, 2] then Some (location_of demo_record) else None)" for k
    using tab by (simp add: kd_lookup_def)
  have data: "data_bytes ?w i = (if i = 0 then encode_entry (demo_entry crc32) else [])" for i
    by (simp add: demo_full_def demo_data_bytes)
  have loc: "located ?w (location_of demo_record) (demo_entry crc32)"
    using demo_entry_fields [of crc32]
    by (simp add: located_def location_of_def demo_record_def data)
  have valid: "entry_valid crc32 (demo_entry crc32)"
    unfolding demo_entry_def by (rule new_entry_valid) (simp add: buffers_ok_def bytes_of_def)
  have id: "id_of (file_heap ?w) 0 = loc_file (location_of demo_record)"
    by (simp add: demo_full_def location_of_def demo_record_def)
  have "files_ok ?w [0]" by (simp add: demo_full_def demo_files_ok)
  moreover have "length (data_bytes ?w j) \<le> max_file_size" for j
    using demo_entry_fields [of crc32] by (simp add: data max_file_size_def)
  ultimately show ?thesis
    using kd loc valid id demo_entry_fields(1) by (auto simp: store_inv_def look max_file_size_def split: if_splits)
qed


definition demo_starved :: "crc_fun \<Rightarrow> unit keydir_state_scheme" where
  "demo_starved crc32 = (demo_full crc32 ())\<lparr>fault_script := [NoFault, NoFault, Fault ENOMEM]\<rparr>"

lemma demo_starved_inv: "store_inv crc32 (demo_starved crc32) [0]"
  using demo_full_inv by (simp add: demo_starved_def store_inv_fault_script)

lemma demo_starved_copy: "\<exists>w1. compact_copy (demo_starved crc32) = Some (Some Aborted, w1)"
proof -
  have first: "hash_first (hash_add [1, 2] (0 :: nat) None) = Some 0"
    using ut.elems_insert [of None "[1, 2]" "0 :: nat"] by (simp add: hash_first_def)
  show ?thesis
    by (simp add: demo_starved_def demo_full_def demo_files_def compact_copy_def ccask_files_get_temp_datafile_fd_def
        attempt_fd_def open_datafile_def build_filepath_def ext_chars_def sys_malloc_def next_fault_def sys_open_def
        new_fd_def Let_def eval_nat_numeral data_path_def ext_path_def filepath_text_inj
        ccask_keydir_record_iter_def first compact_records.simps ccask_keydir_record_iter_next_def
        ccask_allocate_datafile_record_def)
qed

section \<open>Properties\<close>

text \<open>
  C39: a compaction that is cancelled while it copies, whatever failed, returns CCASK_FAIL and loses
  nothing: the store is consistent and has the same map.
\<close>

theorem cancelled_compaction_keeps_store:
  assumes "store_inv crc32 w ps" and "compact_copy w = Some (r, w1)" and "\<forall>i fd. r \<noteq> Some (Compacted i fd)"
  shows "\<exists>w'. ccask_compactor_dump_keydir w = Some (CCASK_FAIL, w') \<and> store_inv crc32 w' ps \<and> store_map w' = store_map w"
proof -
  note c = compact_copy_result [OF assms(1,2)]
  have ok: "files_ok w1 ps" using c(1) by (simp add: store_inv_def)
  note s = compact_frame_store [OF c(1) compact_cancel_frame [OF ok]]
  show ?thesis
  proof (cases r)
    case None
    with assms(2) c show ?thesis by (simp add: ccask_compactor_dump_keydir_def)
  next
    case (Some e)
    with assms(2,3) c s show ?thesis by (cases e) (simp_all add: ccask_compactor_dump_keydir_def)
  qed
qed

theorem cancelled_compaction_keeps_store_witness:
  "\<exists>w'. ccask_compactor_dump_keydir (demo_starved (\<lambda>c b. c + 1)) = Some (CCASK_FAIL, w')
    \<and> store_inv (\<lambda>c b. c + 1) w' [0]"
proof -
  obtain w1 where w1: "compact_copy (demo_starved (\<lambda>c b. c + 1)) = Some (Some Aborted, w1)"
    using demo_starved_copy by blast
  from cancelled_compaction_keeps_store [OF demo_starved_inv w1] show ?thesis by blast
qed




end
