(* ===== verification/Compaction.thy ===== *)
theory Compaction
  imports Shutdown Compactor
begin

text \<open>
  A compaction without faults: the temporary files become logs that spell the map of the store, and
  replace all datafiles and hintfiles.  A new process that starts on them stands for the same map.
\<close>

section \<open>The temporary files\<close>

text \<open>The temporary files up to \<open>j\<close> exist, and are logs.\<close>

definition temp_logs :: "string \<Rightarrow> (u64 \<Rightarrow> entry list) \<Rightarrow> u64 \<Rightarrow> 'a posix_scheme \<Rightarrow> bool" where
  "temp_logs dir T j w \<longleftrightarrow> (\<forall>i. bytes_at w (temp_path dir i) = encode_log (T i) \<and> log_size (T i) < 2 ^ 62
     \<and> (i \<le> j \<longrightarrow> lookup_inode w (temp_path dir i) \<noteq> None) \<and> (j < i \<longrightarrow> map_of (dir_entries w) (temp_path dir i) = None))"

text \<open>No other file changes.\<close>

definition temp_frame :: "string \<Rightarrow> 'a posix_scheme \<Rightarrow> 'b posix_scheme \<Rightarrow> bool" where
  "temp_frame dir w w' \<longleftrightarrow> (\<forall>q. q \<notin> range (temp_path dir) \<longrightarrow>
     map_of (dir_entries w') q = map_of (dir_entries w) q \<and> bytes_at w' q = bytes_at w q)"

lemma temp_frame_trans: "temp_frame dir w u \<Longrightarrow> temp_frame dir u w' \<Longrightarrow> temp_frame dir w w'"
  by (simp add: temp_frame_def)

lemma temp_frame_grows: "grows P F w w' \<Longrightarrow> P \<subseteq> range (temp_path dir) \<Longrightarrow> temp_frame dir w w'"
  unfolding grows_def temp_frame_def by blast

lemma temp_frame_appends:
  assumes "appends (temp_path dir i) bs w w'" and "posix_inv w"
  shows "temp_frame dir w w'"
  using appends_bytes [OF assms] by (auto simp: temp_frame_def appends_fields [OF assms(1)])

lemma temp_path_inj [simp]: "temp_path dir i = temp_path dir j \<longleftrightarrow> i = j"
  by (simp add: temp_path_def ext_path_inj)

lemma temp_logs_grows:
  assumes "temp_logs dir T j w" and "grows {} F w w'"
  shows "temp_logs dir T j w'"
proof -
  have "lookup_inode w' q \<noteq> None" if "lookup_inode w q \<noteq> None" for q using that grows_lookup [OF assms(2)] by auto
  then show ?thesis using assms by (simp add: temp_logs_def grows_def)
qed

lemma temp_logs_above:
  assumes "temp_logs dir T j w" and "j < i"
  shows "T i = []"
proof -
  have "bytes_at w (temp_path dir i) = []" using assms by (simp add: temp_logs_def bytes_at_def lookup_inode_def)
  then have "encode_log (T i) = []" using assms(1) by (simp add: temp_logs_def)
  then show ?thesis by (rule encode_log_empty)
qed

text \<open>One more, empty, file.\<close>

lemma temp_logs_new:
  assumes t: "temp_logs dir T j w" and g: "grows {temp_path dir (j + 1)} {} w w'" and j: "j + 1 \<noteq> 0"
    and there: "lookup_inode w' (temp_path dir (j + 1)) \<noteq> None"
  shows "temp_logs dir T (j + 1) w'" and "T (j + 1) = []"
proof -
  have "unat (j + 1) = Suc (unat j)" using j by (simp add: add.commute unatSuc)
  then have order: "i \<le> j + 1 \<longleftrightarrow> i \<le> j \<or> i = j + 1" "j + 1 < i \<longleftrightarrow> j < i \<and> i \<noteq> j + 1" for i
    by (auto simp: word_le_nat_alt word_less_nat_alt word_unat_eq_iff)
  have last: "j < j + 1" using \<open>unat (j + 1) = Suc (unat j)\<close> by (simp add: word_less_nat_alt)
  show "T (j + 1) = []" using temp_logs_above [OF t last] .
  have old: "lookup_inode w' q \<noteq> None" if "lookup_inode w q \<noteq> None" for q using that grows_lookup [OF g] by auto
  have "map_of (dir_entries w') (temp_path dir i) = map_of (dir_entries w) (temp_path dir i)" if "i \<noteq> j + 1" for i
    using g that by (simp add: grows_def)
  then show "temp_logs dir T (j + 1) w'"
    using t g there old unfolding temp_logs_def order by (simp add: grows_def)
qed

text \<open>A record is appended to the last file.\<close>

lemma temp_logs_append:
  assumes t: "temp_logs dir T j w" and a: "appends (temp_path dir j) (encode_entry e) w w'" and inv: "posix_inv w"
    and small: "log_size (T j) + ent_size e < 2 ^ 62"
  shows "temp_logs dir (T(j := T j @ [e])) j w'"
  using t small appends_bytes [OF a inv] by (auto simp: temp_logs_def appends_fields [OF a])

section \<open>One record\<close>

lemma compact_append:
  assumes ok: "files_ok w ps" and t: "temp_logs (data_dir w) T j w" and fd: "fd_on (temp_path (data_dir w) j) fd w"
    and wr: "fd_writable (the (open_fds w fd))" and nf: "fault_script w = []" and e: "ent_ok e"
    and max: "unat (max_active_file_size w) < 2 ^ 62" and j: "j + 1 \<noteq> 0"
  obtains pos w3 j' fd' w4 w' where "sys_lseek_end fd w = (Inr pos, w3)"
    and "compact_make_room j fd pos (ent_record e) w3 = ((j', Some fd'), w4)"
    and "safe_writev fd' (datafile_record_iov (ent_record e)) w4 = Some (CCASK_OK, w')"
    and "compact_frame ps w w'" and "temp_frame (data_dir w) w w'" and "fault_script w' = []"
    and "temp_logs (data_dir w) (T(j' := T j' @ [e])) j' w'" and "fd_on (temp_path (data_dir w) j') fd' w'"
    and "fd_writable (the (open_fds w' fd'))" and "j' = j \<or> j' = j + 1" and "\<And>i. j' < i \<Longrightarrow> T i = []"
proof -
  let ?dir = "data_dir w" and ?iov = "datafile_record_iov (ent_record e)"
  have inv: "posix_inv w" using ok by (simp add: files_ok_def)
  have small: "ent_size e < 2 ^ 32" using e by (simp add: ent_ok_def)
  obtain d where d: "open_fds w fd = Some d" "lookup_inode w (temp_path ?dir j) = Some (fd_inode d)"
    using fd by (auto simp: fd_on_def)
  have bytes: "bytes_at w (temp_path ?dir j) = encode_log (T j)" and size: "log_size (T j) < 2 ^ 62"
    using t by (simp_all add: temp_logs_def)
  obtain w3 where sk: "sys_lseek_end fd w = (Inr (log_size (T j)), w3)"
    using sys_lseek_end_no_fault [OF nf d(1)] d(2) bytes by (simp add: bytes_at_def)
  note a3 = lseek_appends(1) [OF sk fd]
  note same3 = same_files_fields [OF appends_fields(6) [OF a3]]
  have c3: "compact_frame ps w w3" by (rule compact_frame_appends [OF ok a3])
  have f3: "temp_frame ?dir w w3" by (rule temp_frame_appends [OF a3 inv])
  have inv3: "posix_inv w3" using inv by (simp add: appends_fields [OF a3])
  have b3: "bytes_at w3 q = bytes_at w q" for q using appends_bytes [OF a3 inv] by simp
  have t3: "temp_logs ?dir T j w3" using t by (simp add: temp_logs_def appends_fields [OF a3] b3)
  have nf3: "fault_script w3 = []" using appends_no_fault [OF a3 nf] .
  have fits: "max_active_file_size w3 < of_nat (log_size (T j)) + ccask_get_datafile_record_total_size (ent_record e)
      \<longleftrightarrow> unat (max_active_file_size w) < log_size (T j) + ent_size e"
    using record_fits [of "log_size (T j)" e "max_active_file_size w"] size small same3 by (simp add: max_file_size_def)
  have "\<exists>j' fd' w4. compact_make_room j fd (log_size (T j)) (ent_record e) w3 = ((j', Some fd'), w4)
    \<and> compact_frame ps w w4 \<and> temp_frame ?dir w w4 \<and> fault_script w4 = [] \<and> temp_logs ?dir T j' w4
    \<and> fd_on (temp_path ?dir j') fd' w4 \<and> fd_writable (the (open_fds w4 fd')) \<and> (j' = j \<or> j' = j + 1)
    \<and> log_size (T j') + ent_size e < 2 ^ 62"
  proof (cases "unat (max_active_file_size w) < log_size (T j) + ent_size e")
    case False
    have "compact_make_room j fd (log_size (T j)) (ent_record e) w3 = ((j, Some fd), w3)"
      using False fits by (simp add: compact_make_room_def)
    moreover have "fd_on (temp_path ?dir j) fd w3" "fd_writable (the (open_fds w3 fd))"
      using fd wr by (simp_all add: appends_fields [OF a3])
    moreover have "log_size (T j) + ent_size e < 2 ^ 62" using False max by simp
    ultimately show ?thesis using c3 f3 nf3 t3 by blast
  next
    case True
    let ?u = "sys_close fd w3"
    obtain fd' w4 where o: "attempt_fd (ccask_files_get_temp_datafile_fd (j + 1)) ?u = (fd', w4)" by fastforce
    have ok3: "files_ok w3 ps" and d3: "data_dir w3 = ?dir" using c3 by (simp_all add: compact_frame_def)
    have fd3: "fd_on (temp_path (data_dir w3) j) fd w3" using fd d3 by (simp add: appends_fields [OF a3])
    have cu: "compact_frame ps w3 ?u" by (rule compact_frame_close [OF ok3 fd3])
    have oku: "files_ok ?u ps" and du: "data_dir ?u = ?dir" using cu d3 by (simp_all add: compact_frame_def)
    have lu: "dir_entries ?u = dir_entries w3" "inode_data ?u = inode_data w3" "fault_script ?u = []"
      using nf3 by (simp_all add: sys_close_def)
    note bu = bytes_at_cong [OF lu(1,2)] lookup_inode_cong [OF lu(1)]
    have tu: "temp_logs ?dir T j ?u" using t3 by (simp add: temp_logs_def lu bu)
    have last: "j < j + 1" using j by (simp add: word_less_nat_alt add.commute unatSuc)
    have none: "map_of (dir_entries ?u) (temp_path ?dir (j + 1)) = None" using tu last by (simp add: temp_logs_def)
    have invu: "posix_inv ?u" using oku by (simp add: files_ok_def)
    note o' = o [unfolded ccask_files_get_temp_datafile_fd_def]
    have pos: "0 \<le> fd'" using attempt_open_no_fault [OF lu(3) invu _ _ o'] none du by (simp add: temp_path_def)
    note r = temp_fd_result [OF oku o]
    note g = attempt_open_result(1) [OF o' invu, unfolded creates_def, simplified, folded temp_path_def]
    have fd4: "fd_on (temp_path ?dir (j + 1)) fd' w4" using r(2) [OF pos] du by simp
    then have there: "lookup_inode w4 (temp_path ?dir (j + 1)) \<noteq> None" by (auto simp: fd_on_def)
    note t4 = temp_logs_new [OF tu g [unfolded du] j there]
    have "temp_frame ?dir ?u w4" by (rule temp_frame_grows [OF g]) (simp add: du)
    moreover have "temp_frame ?dir w3 ?u" by (simp add: temp_frame_def lu bu)
    ultimately have f4: "temp_frame ?dir w w4" using f3 temp_frame_trans by blast
    have c4: "compact_frame ps w w4" using c3 cu r(1) compact_frame_trans by blast
    have nf4: "fault_script w4 = []" using grows_no_fault [OF g lu(3)] .
    have "compact_make_room j fd (log_size (T j)) (ent_record e) w3 = ((j + 1, Some fd'), w4)"
      using True fits o pos by (simp add: compact_make_room_def)
    moreover have "log_size (T (j + 1)) + ent_size e < 2 ^ 62" using t4(2) small by simp
    ultimately show ?thesis using c4 f4 nf4 t4(1) fd4 r(3) [OF pos] by blast
  qed
  then obtain j' fd' w4 where room: "compact_make_room j fd (log_size (T j)) (ent_record e) w3 = ((j', Some fd'), w4)"
    and c4: "compact_frame ps w w4" and f4: "temp_frame ?dir w w4" and nf4: "fault_script w4 = []" and t4: "temp_logs ?dir T j' w4"
    and fd4: "fd_on (temp_path ?dir j') fd' w4" and wr4: "fd_writable (the (open_fds w4 fd'))" and j': "j' = j \<or> j' = j + 1"
    and size4: "log_size (T j') + ent_size e < 2 ^ 62" by blast
  have ok4: "files_ok w4 ps" and d4: "data_dir w4 = ?dir" using c4 by (simp_all add: compact_frame_def)
  have inv4: "posix_inv w4" using ok4 by (simp add: files_ok_def)
  have ne: "?iov \<noteq> []" by (simp add: datafile_record_iov_def)
  have space: "length (bytes_at w4 (temp_path ?dir j')) + length (iov_bytes ?iov) \<le> max_file_size"
    using t4 size4 e by (simp add: temp_logs_def max_file_size_def)
  obtain w' where sw: "safe_writev fd' ?iov w4 = Some (CCASK_OK, w')" and a: "appends (temp_path ?dir j') (iov_bytes ?iov) w4 w'"
    by (rule safe_writev_ok [OF nf4 fd4 wr4 ne ent_record_open_end [OF e] ent_record_wf space])
  have a': "appends (temp_path ?dir j') (encode_entry e) w4 w'" using a by simp
  show thesis
  proof (rule that [OF sk room sw])
    show "compact_frame ps w w'" by (rule compact_frame_trans [OF c4 compact_frame_appends [OF ok4 a' [folded d4]]])
    show "temp_frame ?dir w w'" by (rule temp_frame_trans [OF f4 temp_frame_appends [OF a' inv4]])
    show "fault_script w' = []" using appends_no_fault [OF a nf4] .
    show "temp_logs ?dir (T(j' := T j' @ [e])) j' w'" by (rule temp_logs_append [OF t4 a' inv4 size4])
    show "fd_on (temp_path ?dir j') fd' w'" "fd_writable (the (open_fds w' fd'))"
      using fd4 wr4 by (simp_all add: appends_fields [OF a])
  qed (use j' temp_logs_above [OF t4] in auto)
qed

section \<open>All records\<close>

lemma next_in_first_of: "distinct (pre @ q # qs) \<Longrightarrow> next_in q (pre @ q # qs) = first_of qs None"
  by (induction pre) (auto split: list.splits)

lemma temp_reader:
  assumes r: "reader_frame ps w w'" and inv: "posix_inv w" and t: "temp_logs dir T j w" and fd: "fd_on path fd w"
    and wr: "fd_writable (the (open_fds w fd))"
  shows "temp_logs dir T j w'" and "fd_on path fd w'" and "fd_writable (the (open_fds w' fd))" and "temp_frame dir w w'"
proof -
  have g: "grows {} {} w w'" using r by (simp add: reader_frame_def)
  show "temp_logs dir T j w'" by (rule temp_logs_grows [OF t g])
  show "fd_on path fd w'" by (rule fd_on_reader [OF fd r inv])
  show "temp_frame dir w w'" by (rule temp_frame_grows [OF g]) simp
  have "fd < next_fd w" using fd inv by (auto simp: fd_on_def posix_inv_def)
  then have "open_fds w' fd = open_fds w fd" using g by (simp add: grows_def)
  with wr show "fd_writable (the (open_fds w' fd))" by simp
qed

text \<open>The entries that were copied are the bindings of the map.\<close>

definition copies :: "crc_fun \<Rightarrow> 'a keydir_state_scheme \<Rightarrow> nat list \<Rightarrow> entry list \<Rightarrow> bool" where
  "copies crc32 w qs es \<longleftrightarrow>
     (\<forall>e \<in> set es. ent_ok e \<and> entry_valid crc32 e \<and> store_map w (ent_key e) = Some (ent_timestamp e, ent_value e))
     \<and> (\<forall>(k, q) \<in> set (hash_elems (kd_table w)). q \<in> set qs \<longrightarrow> k \<in> ent_key ` set es)
     \<and> length es = length qs"

lemma copies_cong:
  "store_map w' = store_map w \<Longrightarrow> kd_table w' = kd_table w \<Longrightarrow> copies crc32 w' qs es = copies crc32 w qs es"
  by (simp add: copies_def)

lemma compact_records_calm:
  assumes "map snd (hash_elems (kd_table w)) = pre @ qs" and "store_inv crc32 w ps" and "temp_logs (data_dir w) T j w"
    and "fd_on (temp_path (data_dir w) j) fd w" and "fd_writable (the (open_fds w fd))" and "fault_script w = []"
    and "unat (max_active_file_size w) < 2 ^ 62" and "unat j + length qs < 2 ^ 31"
  shows "\<exists>es T' j' fd' w'. compact_records (first_of qs None) j fd w = Some (Compacted j' fd', w')
    \<and> compact_frame ps w w' \<and> temp_frame (data_dir w) w w' \<and> fault_script w' = [] \<and> temp_logs (data_dir w) T' j' w'
    \<and> fd_on (temp_path (data_dir w) j') fd' w' \<and> logs T' = logs T @ es \<and> (\<forall>i. set (T' i) \<subseteq> set (T i) \<union> set es)
    \<and> copies crc32 w qs es \<and> unat j' \<le> unat j + length qs"
  using assms
proof (induction qs arbitrary: pre T j fd w)
  case Nil
  have "compact_records None j fd w = Some (Compacted j fd, w)"
    by (simp add: compact_records.simps ccask_keydir_record_iter_next_def)
  moreover have "compact_frame ps w w" using Nil.prems(2) by (simp add: store_inv_def compact_frame_refl)
  moreover have "temp_frame (data_dir w) w w" by (simp add: temp_frame_def)
  moreover have "copies crc32 w [] []" by (simp add: copies_def)
  ultimately show ?case using Nil.prems by fastforce
next
  case (Cons q qs)
  let ?dir = "data_dir w"
  have si: "store_inv crc32 w ps" and ok: "files_ok w ps" and kdi: "keydir_inv w" using Cons.prems(2) by (simp_all add: store_inv_def)
  have inv: "posix_inv w" using ok by (simp add: files_ok_def)
  have nf: "fault_script w = []" by (rule Cons.prems(6))
  have tab: "uthash_inv (kd_table w)" by (rule keydir_inv_uthash [OF kdi])
  have dist: "distinct (pre @ q # qs)" using ut.elems_distinct [OF tab] Cons.prems(1) by simp
  have next_q: "hash_next q (kd_table w) = first_of qs None"
    unfolding hash_next_def Cons.prems(1) by (rule next_in_first_of [OF dist])
  have "q \<in> snd ` set (hash_elems (kd_table w))"
    using arg_cong [OF Cons.prems(1), of set] by simp
  then obtain k where k: "(k, q) \<in> set (hash_elems (kd_table w))" by auto
  then have find: "hash_find (kd_table w) k = Some q" using ut.lookup_Some_iff [OF tab] by simp
  obtain kd p e where kd: "kd_heap w q = Some kd"
    and sizes: "unat (kd_key_size kd) = length (ent_key e)" "unat (kd_value_size kd) = length (ent_value e)"
    and p: "p \<in> set ps" "id_of (file_heap w) p = kd_file_id kd" and e: "ent_ok e" "ent_key e = k" "entry_valid crc32 e"
    and map: "store_map w k = Some (ent_timestamp e, ent_value e)"
    and bytes: "take (ent_size e) (drop (unat (kd_record_pos kd)) (data_bytes w (kd_file_id kd))) = encode_entry e"
    and room: "unat (kd_record_pos kd) + ent_size e \<le> length (data_bytes w (kd_file_id kd))"
    by (rule directory_record [OF si find])
  have alloc: "ccask_allocate_datafile_record (kd_key_size kd) (kd_value_size kd) w = ((CCASK_OK, entry_buffers e), w)"
    using sizes by (simp add: ccask_allocate_datafile_record_def sys_mallocs_no_fault [OF nf] entry_buffers_def)
  obtain st df w2 where att: "ccask_attempt_opt 5 CCASK_RETRY
        (\<lambda>(df, u). do { ((st, df'), u') \<leftarrow> ccask_read_datafile_record (kd_file_id kd) df (kd_record_pos kd) u;
                       Some (st, (df', u')) }) (entry_buffers e, w) = Some (st, (df, w2))"
    and r: "reader_frame ps w w2" and df: "st = CCASK_OK \<Longrightarrow> df = ent_record e" and st: "fault_script w = [] \<Longrightarrow> st = CCASK_OK"
    by (rule read_entry [OF ok p e(1) bytes room]) (rule that; assumption)
  have st: "st = CCASK_OK" and df: "df = ent_record e" using st df nf by simp_all
  have c2: "compact_frame ps w w2" by (rule compact_frame_reader [OF r])
  have ok2: "files_ok w2 ps" and d2: "data_dir w2 = ?dir" and max2: "unat (max_active_file_size w2) < 2 ^ 62"
    using c2 Cons.prems(7) by (simp_all add: compact_frame_def)
  note t2 = temp_reader [OF r inv Cons.prems(3-5), folded d2]
  have nf2: "fault_script w2 = []" using r nf grows_no_fault by (auto simp: reader_frame_def)
  have j: "j + 1 \<noteq> 0"
  proof
    assume "j + 1 = 0"
    then have "unat j = 2 ^ 64 - 1" by (simp add: eq_neg_iff_add_eq_0 [symmetric] unsigned_minus_1_eq_mask mask_eq_exp_minus_1)
    then show False using Cons.prems(8) by simp
  qed
  obtain pos w3 j1 fd1 w4 u where s: "sys_lseek_end fd w2 = (Inr pos, w3)"
      "compact_make_room j fd pos (ent_record e) w3 = ((j1, Some fd1), w4)"
      "safe_writev fd1 (datafile_record_iov (ent_record e)) w4 = Some (CCASK_OK, u)"
    and cu: "compact_frame ps w2 u" and fu: "temp_frame (data_dir w2) w2 u" and nfu: "fault_script u = []"
    and tu: "temp_logs (data_dir w2) (T(j1 := T j1 @ [e])) j1 u" and fdu: "fd_on (temp_path (data_dir w2) j1) fd1 u"
    and wru: "fd_writable (the (open_fds u fd1))" and j1: "j1 = j \<or> j1 = j + 1" and above: "\<And>i. j1 < i \<Longrightarrow> T i = []"
    by (rule compact_append [OF ok2 t2(1-3) nf2 e(1) max2 j]) (rule that; assumption)
  have cwu: "compact_frame ps w u" by (rule compact_frame_trans [OF c2 cu])
  have du: "data_dir u = ?dir" and maxu: "max_active_file_size u = max_active_file_size w"
    and moreu: "files_state.more u = files_state.more w" using cwu by (simp_all add: compact_frame_def)
  note kdu = more_kd [OF moreu]
  note su = compact_frame_store [OF si cwu]
  have "unat j1 \<le> unat j + 1" using j1 unat_inc_le [of j] by auto
  then have lim: "unat j1 + length qs < 2 ^ 31" "unat j1 + length qs \<le> unat j + length (q # qs)" using Cons.prems(8) by simp_all
  have tab_u: "map snd (hash_elems (kd_table u)) = (pre @ [q]) @ qs" using Cons.prems(1) kdu by simp
  have maxu': "unat (max_active_file_size u) < 2 ^ 62" using maxu Cons.prems(7) by simp
  obtain es T' j' fd' w' where go: "compact_records (first_of qs None) j1 fd1 u = Some (Compacted j' fd', w')"
    and rest: "compact_frame ps u w'" "temp_frame (data_dir u) u w'" "fault_script w' = []" "temp_logs (data_dir u) T' j' w'"
    "fd_on (temp_path (data_dir u) j') fd' w'" "logs T' = logs (T(j1 := T j1 @ [e])) @ es"
    "\<forall>i. set (T' i) \<subseteq> set ((T(j1 := T j1 @ [e])) i) \<union> set es" "copies crc32 u qs es" "unat j' \<le> unat j1 + length qs"
    using Cons.IH [OF tab_u su(1) tu [unfolded d2, folded du] fdu [unfolded d2, folded du] wru nfu maxu' lim(1)] by blast
  have run: "compact_records (first_of (q # qs) None) j fd w = Some (Compacted j' fd', w')"
    using next_q kd alloc att st df s go
    by (subst compact_records.simps) (simp add: ccask_keydir_record_iter_next_def)
  have "copies crc32 w (q # qs) (e # es)"
  proof -
    have c: "copies crc32 w qs es" using rest(8) copies_cong [of u w] su(2) kdu by simp
    have "k' \<in> ent_key ` set (e # es)" if "(k', q') \<in> set (hash_elems (kd_table w))" "q' \<in> set (q # qs)" for k' q'
    proof (cases "q' = q")
      case True
      then have "k' = k" using ut.lookup_inj [OF tab] that(1) find ut.lookup_Some_iff [OF tab] by blast
      with e(2) show ?thesis by simp
    next
      case False
      with c that show ?thesis by (auto simp: copies_def)
    qed
    with c e map show ?thesis by (auto simp: copies_def)
  qed
  moreover have "logs T' = logs T @ e # es" using rest(6) logs_append [of j1 T "[e]"] above by simp
  moreover have "\<forall>i. set (T' i) \<subseteq> set (T i) \<union> set (e # es)" using rest(7) by (auto split: if_splits)
  moreover have "compact_frame ps w w'" by (rule compact_frame_trans [OF cwu rest(1)])
  moreover have "temp_frame ?dir w w'"
    using temp_frame_trans [OF t2(4) temp_frame_trans [OF fu]] rest(2) by (simp add: du d2)
  moreover have "unat j' \<le> unat j + length (q # qs)" using rest(9) lim(2) by simp
  ultimately show ?case using run rest(3-5) unfolding du by blast
qed

section \<open>The copy\<close>

lemma no_temp_logs:
  assumes "\<And>i. map_of (dir_entries w) (temp_path dir i) = None" and g: "grows {temp_path dir 0} {} w w'"
    and "lookup_inode w' (temp_path dir 0) \<noteq> None"
  shows "temp_logs dir (\<lambda>_. []) 0 w'"
proof -
  have "bytes_at w (temp_path dir i) = []" for i using assms(1) by (simp add: bytes_at_def lookup_inode_def)
  then have "bytes_at w' (temp_path dir i) = []" for i using g by (simp add: grows_def)
  moreover have "map_of (dir_entries w') (temp_path dir i) = None" if "0 < i" for i
    using g assms(1) that by (auto simp: grows_def)
  ultimately show ?thesis using assms(3) by (simp add: temp_logs_def)
qed

lemma compact_copy_calm:
  fixes w :: "'a keydir_state_scheme"
  assumes si: "store_inv crc32 w ps" and nf: "fault_script w = []" and max: "unat (max_active_file_size w) < 2 ^ 62"
    and none: "\<And>i. map_of (dir_entries w) (temp_path (data_dir w) i) = None"
    and keys: "length (hash_elems (kd_table w)) < 2 ^ 31"
  obtains es T j fd w' where "compact_copy w = Some (Some (Compacted j fd), w')" and "store_inv crc32 w' ps"
    and "store_map w' = store_map w" and "data_dir w' = data_dir w" and "max_active_file_size w' = max_active_file_size w"
    and "temp_frame (data_dir w) w w'" and "fault_script w' = []"
    and "temp_logs (data_dir w) T j w'" and "logs T = es" and "\<And>i. set (T i) \<subseteq> set es"
    and "copies crc32 w (map snd (hash_elems (kd_table w))) es"
    and "unat j \<le> length (hash_elems (kd_table w))" and "hint_pending w' = hint_pending w"
    and "has_hint_of (file_heap w') = has_hint_of (file_heap w)"
    and "\<And>p. p \<in> set ps \<Longrightarrow> id_of (file_heap w') p = id_of (file_heap w) p" and "keydir_state.more w' = keydir_state.more w"
    and "kd_readers w' = Suc (kd_readers w)"
proof -
  let ?dir = "data_dir w" and ?qs = "map snd (hash_elems (kd_table w))"
  have ok: "files_ok w ps" using si by (simp add: store_inv_def)
  then have inv: "posix_inv w" by (simp add: files_ok_def)
  obtain fd0 w1 where o: "attempt_fd (ccask_files_get_temp_datafile_fd 0) w = (fd0, w1)" by fastforce
  note o' = o [unfolded ccask_files_get_temp_datafile_fd_def]
  have pos: "0 \<le> fd0" using attempt_open_no_fault [OF nf inv _ _ o'] none [of 0] by (simp add: temp_path_def)
  note t = temp_fd_result [OF ok o]
  note g = attempt_open_result(1) [OF o' inv, unfolded creates_def, simplified, folded temp_path_def]
  have "lookup_inode w1 (temp_path ?dir 0) \<noteq> None" using t(2) [OF pos] by (auto simp: fd_on_def)
  then have t1: "temp_logs ?dir (\<lambda>_. []) 0 w1" by (rule no_temp_logs [OF none g])
  have nf1: "fault_script w1 = []" using grows_no_fault [OF g nf] .
  let ?w2 = "w1\<lparr>kd_readers := Suc (kd_readers w1)\<rparr>"
  note s1 = compact_frame_store [OF si t(1)]
  have s2: "store_inv crc32 ?w2 ps" "store_map ?w2 = store_map w" using s1 store_inv_readers [where w = w1] by simp_all
  have same1: "data_dir w1 = ?dir" "max_active_file_size w1 = max_active_file_size w"
    and more1: "files_state.more w1 = files_state.more w" using t(1) by (simp_all add: compact_frame_def)
  note kd1 = more_kd [OF more1]
  have tab: "map snd (hash_elems (kd_table ?w2)) = [] @ ?qs" using kd1 by simp
  have look: "lookup_inode ?w2 q = lookup_inode w1 q" "bytes_at ?w2 q = bytes_at w1 q" for q
    by (simp_all add: lookup_inode_def bytes_at_def split: option.splits node.splits)
  have t2: "temp_logs (data_dir ?w2) (\<lambda>_. []) 0 ?w2" using t1 by (simp add: temp_logs_def look same1)
  have fd2: "fd_on (temp_path (data_dir ?w2) 0) fd0 ?w2" "fd_writable (the (open_fds ?w2 fd0))"
    using t(2,3) [OF pos] by (simp_all add: fd_on_def look same1)
  have nf2: "fault_script ?w2 = []" using nf1 by simp
  have max2: "unat (max_active_file_size ?w2) < 2 ^ 62" using max same1 by simp
  have room: "unat (0 :: u64) + length ?qs < 2 ^ 31" using keys by simp
  obtain es T j fd w' where go: "compact_records (first_of ?qs None) 0 fd0 ?w2 = Some (Compacted j fd, w')"
    and r: "compact_frame ps ?w2 w'" "temp_frame (data_dir ?w2) ?w2 w'" "fault_script w' = []"
      "temp_logs (data_dir ?w2) T j w'" "logs T = logs (\<lambda>_. []) @ es" "\<forall>i. set (T i) \<subseteq> set [] \<union> set es"
      "copies crc32 ?w2 ?qs es" "unat j \<le> unat (0 :: u64) + length ?qs"
    using compact_records_calm [OF tab s2(1) t2 fd2 nf2 max2 room] by blast
  have first: "hash_first (kd_table w1) = first_of ?qs None"
    using kd1 by (cases "hash_elems (kd_table w)") (simp_all add: hash_first_def)
  have run: "compact_copy w = Some (Some (Compacted j fd), w')"
    using o pos go first by (simp add: compact_copy_def ccask_keydir_record_iter_def)
  note s' = compact_frame_store [OF s2(1) r(1)]
  have f': "data_dir w' = ?dir" "max_active_file_size w' = max_active_file_size w" "files_state.more w' = files_state.more ?w2"
    "has_hint_of (file_heap w') = has_hint_of (file_heap w)" "\<And>p. p \<in> set ps \<Longrightarrow> id_of (file_heap w') p = id_of (file_heap w) p"
    "hint_pending w' = hint_pending w"
    using r(1) t(1) by (simp_all add: compact_frame_def)
  have kd': "keydir_state.more w' = keydir_state.more w" "kd_readers w' = Suc (kd_readers w)"
    using more_kd [OF f'(3)] kd1 by simp_all
  have frame: "temp_frame ?dir w w'"
    using temp_frame_grows [OF g, of ?dir] r(2) by (auto simp: temp_frame_def look same1)
  have "copies crc32 w ?qs es" using r(7) copies_cong [of ?w2 w] s2(2) kd1 by simp
  moreover have "logs T = es" using r(5) by (simp add: logs_def)
  ultimately show thesis
    using that [OF run s'(1) _ f'(1,2) frame r(3) _ _ _ _ _ f'(6,4,5) kd'] s'(2) s2(2) r(4,6,8) keys by (simp add: same1)
qed

section \<open>The old files are deleted\<close>

definition remove_paths :: "string set \<Rightarrow> 'a posix_scheme \<Rightarrow> 'a posix_scheme" where
  "remove_paths D w = w\<lparr>dir_entries := filter (\<lambda>(q, n). q \<notin> D) (dir_entries w)\<rparr>"

lemma map_of_filter_paths: "map_of (filter (\<lambda>(q, n). q \<notin> D) es) q = (if q \<in> D then None else map_of es q)"
  by (induction es) auto

lemma remove_paths_simps [simp]:
  "map_of (dir_entries (remove_paths D w)) q = (if q \<in> D then None else map_of (dir_entries w) q)"
  "lookup_inode (remove_paths D w) q = (if q \<in> D then None else lookup_inode w q)"
  "inode_data (remove_paths D w) = inode_data w" "fault_script (remove_paths D w) = fault_script w"
  "remove_paths A (remove_paths B w) = remove_paths (A \<union> B) w" "posix.more (remove_paths D w) = posix.more w"
proof -
  have "(\<lambda>x. (case x of (q, n :: node) \<Rightarrow> q \<notin> B) \<and> (case x of (q, n) \<Rightarrow> q \<notin> A)) = (\<lambda>(q, n). q \<notin> A \<and> q \<notin> B)" by auto
  then show "remove_paths A (remove_paths B w) = remove_paths (A \<union> B) w" by (simp add: remove_paths_def)
qed (simp_all add: remove_paths_def lookup_inode_def map_of_filter_paths)

lemma delete_calm:
  assumes "fault_script w = []" and "ext \<noteq> FILE_UNKNOWN" and "lookup_inode w (ext_path (data_dir w) i ext) \<noteq> None"
  shows "ccask_attempt 5 CCASK_RETRY (ccask_files_delete i ext) w = (CCASK_OK, remove_paths {ext_path (data_dir w) i ext} w)"
proof -
  obtain n where "map_of (dir_entries w) (ext_path (data_dir w) i ext) = Some (Regular n)"
    using assms(3) by (auto simp: lookup_inode_def split: option.splits node.splits)
  then have "ccask_files_delete i ext w = (CCASK_OK, remove_paths {ext_path (data_dir w) i ext} w)"
    using assms(1,2) by (simp add: ccask_files_delete_def build_ext_path_no_fault sys_unlink_def next_fault_nil remove_paths_def)
  then show ?thesis by (intro ccask_attempt_done) simp_all
qed

text \<open>The files of a node.\<close>

definition node_paths :: "'a files_state_scheme \<Rightarrow> nat \<Rightarrow> string set" where
  "node_paths w p = insert (data_path (data_dir w) (id_of (file_heap w) p))
     (if has_hint_of (file_heap w) p then {hint_path (data_dir w) (id_of (file_heap w) p)} else {})"

lemma remove_paths_files [simp]:
  fixes w :: "'a files_state_scheme"
  shows "data_dir (remove_paths D w) = data_dir w" "file_heap (remove_paths D w) = file_heap w"
  using same_files_fields [of "remove_paths D w" w] by simp_all

lemma node_paths_removed [simp]: "node_paths (remove_paths D w) p = node_paths w p"
  by (simp add: node_paths_def)

lemma compact_delete_file_calm:
  assumes nf: "fault_script w = []" and f: "file_heap w p = Some f"
    and there: "\<forall>q \<in> node_paths w p. lookup_inode w q \<noteq> None"
  shows "compact_delete_file f w = (CCASK_OK, remove_paths (node_paths w p) w)"
proof -
  let ?d = "data_path (data_dir w) (cf_id f)" and ?h = "hint_path (data_dir w) (cf_id f)"
  have paths: "node_paths w p = insert ?d (if cf_has_hint f then {?h} else {})"
    using f by (simp add: node_paths_def id_of_def has_hint_of_def)
  have "lookup_inode w (ext_path (data_dir w) (cf_id f) FILE_DATA) \<noteq> None" using there paths by (simp add: data_path_def)
  note d = delete_calm [OF nf _ this, simplified, folded data_path_def]
  show ?thesis
  proof (cases "cf_has_hint f")
    case False
    with d paths show ?thesis by (simp add: compact_delete_file_def)
  next
    case True
    let ?u = "remove_paths {?d} w"
    have "?h \<noteq> ?d" by (rule hint_path_data_path)
    then have "lookup_inode ?u (ext_path (data_dir ?u) (cf_id f) FILE_HINT) \<noteq> None"
      using there paths True by (simp add: hint_path_def)
    with delete_calm [of ?u FILE_HINT "cf_id f"] nf
    have "ccask_attempt 5 CCASK_RETRY (ccask_files_delete (cf_id f) FILE_HINT) ?u = (CCASK_OK, remove_paths {?h} ?u)"
      by (simp add: hint_path_def)
    with d True paths show ?thesis by (simp add: compact_delete_file_def insert_commute)
  qed
qed

lemma compact_delete_from_calm:
  assumes "dll (file_heap w) None qs nxt" and "fault_script w = []"
    and "\<And>p q. p \<in> set qs \<Longrightarrow> q \<in> node_paths w p \<Longrightarrow> lookup_inode w q \<noteq> None"
    and "distinct (map (id_of (file_heap w)) qs)"
  shows "compact_delete_from (last_of qs None) CCASK_OK w = Some (CCASK_OK, remove_paths (\<Union>p \<in> set qs. node_paths w p) w)"
  using assms
proof (induction qs arbitrary: w nxt rule: rev_induct)
  case Nil
  have "remove_paths {} w = w" by (simp add: remove_paths_def)
  then show ?case by (simp add: compact_delete_from.simps)
next
  case (snoc p qs)
  obtain f where f: "file_heap w p = Some f" "cf_previous f = last_of qs None"
    using snoc.prems(1) by (auto split: option.splits)
  let ?u = "remove_paths (node_paths w p) w"
  have del: "compact_delete_file f w = (CCASK_OK, ?u)"
    using compact_delete_file_calm [OF snoc.prems(2) f(1)] snoc.prems(3) [of p] by simp
  have other: "node_paths w q \<inter> node_paths w p = {}" if "q \<in> set qs" for q
  proof -
    have "id_of (file_heap w) q \<noteq> id_of (file_heap w) p" using snoc.prems(4) that by (auto simp: image_iff)
    then show ?thesis by (auto simp: node_paths_def data_path_def hint_path_def ext_path_inj)
  qed
  have "compact_delete_from (last_of qs None) CCASK_OK ?u = Some (CCASK_OK, remove_paths (\<Union>p \<in> set qs. node_paths ?u p) ?u)"
  proof (rule snoc.IH)
    show "dll (file_heap ?u) None qs (Some p)" using snoc.prems(1) by simp
    show "lookup_inode ?u x \<noteq> None" if "q \<in> set qs" "x \<in> node_paths ?u q" for q x
      using that other [OF that(1)] snoc.prems(3) [of q x] by auto
  qed (use snoc.prems in simp_all)
  then show ?case
    using f del by (subst compact_delete_from.simps) (simp add: Un_commute)
qed

section \<open>The table of names stays a table\<close>

lemma inode_names_removed: "set (inode_names (filter P es)) \<subseteq> set (inode_names es)
    \<and> (distinct (inode_names es) \<longrightarrow> distinct (inode_names (filter P es)))"
proof (induction es)
  case (Cons x es)
  obtain q n where x: "x = (q, n)" by fastforce
  with Cons show ?case by (cases n) auto
qed simp

lemma posix_inv_remove: "posix_inv w \<Longrightarrow> posix_inv (remove_paths D w)"
  using inode_names_removed [of "\<lambda>(q, n). q \<notin> D" "dir_entries w"] distinct_map_filter
  by (fastforce simp: posix_inv_def remove_paths_def)

lemma posix_inv_rename:
  assumes inv: "posix_inv w" and p: "map_of (dir_entries w) p = Some n"
  shows "posix_inv (w\<lparr>dir_entries := filter (\<lambda>(r, m). r \<noteq> p \<and> r \<noteq> q) (dir_entries w) @ [(q, n)]\<rparr>)"
proof -
  let ?es = "filter (\<lambda>(r, m). r \<noteq> p \<and> r \<noteq> q) (dir_entries w)"
  have f: "set (inode_names ?es) \<subseteq> set (inode_names (dir_entries w))" "distinct (inode_names ?es)"
    using inode_names_removed [of _ "dir_entries w"] inv by (auto simp: posix_inv_def)
  have "distinct (map fst ?es)" using inv distinct_map_filter by (auto simp: posix_inv_def)
  moreover have "q \<notin> fst ` set ?es" by auto
  moreover have "i \<notin> set (inode_names ?es)" if "n = Regular i" for i
  proof
    assume "i \<in> set (inode_names ?es)"
    then obtain r where r: "(r, Regular i) \<in> set ?es" by (auto simp: in_inode_names)
    then have "lookup_inode w r = Some i" "r \<noteq> p"
      using inv by (auto simp: posix_inv_def lookup_inode_iff)
    moreover have "lookup_inode w p = Some i" using p that by (simp add: lookup_inode_def)
    ultimately show False using lookup_inode_inj [OF inv] by blast
  qed
  moreover have "i < next_inode w" if "n = Regular i" for i
    by (rule lookup_inode_less [OF inv, of p]) (use p that in \<open>simp add: lookup_inode_def\<close>)
  ultimately show ?thesis using inv f by (cases n) (auto simp: posix_inv_def)
qed


section \<open>The temporary files become datafiles\<close>

lemma rename_calm:
  assumes nf: "fault_script w = []" and from_there: "map_of (dir_entries w) (temp_path (data_dir w) (of_nat i)) = Some (Regular n)"
    and to: "map_of (dir_entries w) (data_path (data_dir w) (of_nat i)) = None"
  shows "\<exists>es. compact_rename i w = w\<lparr>dir_entries := es\<rparr> \<and> (\<forall>q. map_of es q =
      (if q = data_path (data_dir w) (of_nat i) then Some (Regular n)
       else if q = temp_path (data_dir w) (of_nat i) then None else map_of (dir_entries w) q))
    \<and> (posix_inv w \<longrightarrow> posix_inv (w\<lparr>dir_entries := es\<rparr>))"
proof -
  let ?p = "temp_path (data_dir w) (of_nat i)" and ?q = "data_path (data_dir w) (of_nat i)"
  let ?es = "filter (\<lambda>(r, m). r \<noteq> ?p \<and> r \<noteq> ?q) (dir_entries w) @ [(?q, Regular n)]"
  have ne: "?p \<noteq> ?q" by (simp add: temp_path_def data_path_def ext_path_inj)
  have "ccask_files_change_ext (of_nat i) FILE_TEMP_DATA FILE_DATA w = (CCASK_OK, w\<lparr>dir_entries := ?es\<rparr>)"
    using nf from_there to ne
    by (simp add: ccask_files_change_ext_def build_ext_path_no_fault sys_rename_def next_fault_nil
        flip: temp_path_def data_path_def)
  then have "ccask_attempt 5 CCASK_RETRY (ccask_files_change_ext (of_nat i) FILE_TEMP_DATA FILE_DATA) w
      = (CCASK_OK, w\<lparr>dir_entries := ?es\<rparr>)" by (intro ccask_attempt_done) simp_all
  then have "compact_rename i w = w\<lparr>dir_entries := ?es\<rparr>" by (simp add: compact_rename_def)
  moreover have "map_of ?es x = (if x = ?q then Some (Regular n) else if x = ?p then None else map_of (dir_entries w) x)" for x
    using map_of_filter_paths [of "{?p, ?q}" "dir_entries w" x] ne by (auto simp: map_add_def split: option.splits)
  moreover have "posix_inv w \<longrightarrow> posix_inv (w\<lparr>dir_entries := ?es\<rparr>)" using posix_inv_rename [OF _ from_there] by blast
  ultimately show ?thesis by blast
qed

lemma renames_calm:
  fixes w :: "'a files_state_scheme"
  assumes nf: "fault_script w = []" and k: "k \<le> 2 ^ 64"
    and temps: "\<And>i. unat i < k \<Longrightarrow> lookup_inode w (temp_path (data_dir w) i) \<noteq> None"
    and clear: "\<And>i. map_of (dir_entries w) (data_path (data_dir w) i) = None"
  shows "\<exists>es. fold compact_rename [0..<k] w = w\<lparr>dir_entries := es\<rparr>
    \<and> (\<forall>i. map_of es (data_path (data_dir w) i) = (if unat i < k then map_of (dir_entries w) (temp_path (data_dir w) i) else None))
    \<and> (\<forall>i. map_of es (temp_path (data_dir w) i) = (if unat i < k then None else map_of (dir_entries w) (temp_path (data_dir w) i)))
    \<and> (\<forall>q. q \<notin> range (data_path (data_dir w)) \<union> range (temp_path (data_dir w)) \<longrightarrow> map_of es q = map_of (dir_entries w) q)
    \<and> (posix_inv w \<longrightarrow> posix_inv (w\<lparr>dir_entries := es\<rparr>))"
  using k temps
proof (induction k)
  case 0
  have "w = w\<lparr>dir_entries := dir_entries w\<rparr>" by simp
  then show ?case using clear by (intro exI [of _ "dir_entries w"]) simp
next
  case (Suc k)
  let ?dir = "data_dir w"
  obtain es where es: "fold compact_rename [0..<k] w = w\<lparr>dir_entries := es\<rparr>"
    and d: "\<And>i. map_of es (data_path ?dir i) = (if unat i < k then map_of (dir_entries w) (temp_path ?dir i) else None)"
    and t: "\<And>i. map_of es (temp_path ?dir i) = (if unat i < k then None else map_of (dir_entries w) (temp_path ?dir i))"
    and o: "\<forall>q. q \<notin> range (data_path ?dir) \<union> range (temp_path ?dir) \<longrightarrow> map_of es q = map_of (dir_entries w) q"
    and pinv: "posix_inv w \<longrightarrow> posix_inv (w\<lparr>dir_entries := es\<rparr>)"
    using Suc by auto
  let ?u = "w\<lparr>dir_entries := es\<rparr>"
  have un: "unat (of_nat k :: u64) = k" using Suc.prems(1) by (intro unat_of_nat_64) simp
  have idx: "unat i < Suc k \<longleftrightarrow> unat i < k \<or> i = of_nat k" for i :: u64
    using un by (auto simp: less_Suc_eq word_unat_eq_iff)
  have "lookup_inode w (temp_path ?dir (of_nat k)) \<noteq> None" using Suc.prems(2) un by simp
  then obtain n where n: "map_of (dir_entries w) (temp_path ?dir (of_nat k)) = Some (Regular n)"
    by (auto simp: lookup_inode_def split: option.splits node.splits)
  have "map_of (dir_entries ?u) (temp_path (data_dir ?u) (of_nat k)) = Some (Regular n)"
    "map_of (dir_entries ?u) (data_path (data_dir ?u) (of_nat k)) = None" "fault_script ?u = []"
    using n un nf by (simp_all add: t d)
  then obtain es' where es': "compact_rename k ?u = ?u\<lparr>dir_entries := es'\<rparr>" "\<And>q. map_of es' q =
      (if q = data_path ?dir (of_nat k) then Some (Regular n) else if q = temp_path ?dir (of_nat k) then None else map_of es q)"
      "posix_inv ?u \<longrightarrow> posix_inv (?u\<lparr>dir_entries := es'\<rparr>)"
    using rename_calm [of ?u k n] by auto
  have ne: "temp_path ?dir i \<noteq> data_path ?dir j" for i j by (simp add: temp_path_def data_path_def ext_path_inj)
  have "fold compact_rename [0..<Suc k] w = w\<lparr>dir_entries := es'\<rparr>" using es es'(1) by simp
  moreover have "map_of es' (data_path ?dir i) = (if unat i < Suc k then map_of (dir_entries w) (temp_path ?dir i) else None)" for i
    using ne [of "of_nat k" i] n by (auto simp: es'(2) d idx data_path_inj)
  moreover have "map_of es' (temp_path ?dir i) = (if unat i < Suc k then None else map_of (dir_entries w) (temp_path ?dir i))" for i
    using ne [of i "of_nat k"] by (auto simp: es'(2) t idx)
  moreover have "\<forall>q. q \<notin> range (data_path ?dir) \<union> range (temp_path ?dir) \<longrightarrow> map_of es' q = map_of (dir_entries w) q"
    using o by (auto simp: es'(2))
  moreover have "posix_inv w \<longrightarrow> posix_inv (w\<lparr>dir_entries := es'\<rparr>)" using pinv es'(3) by simp
  ultimately show ?case by blast
qed

section \<open>The compacted logs\<close>

lemma log_map_bindings:
  assumes "\<forall>e \<in> set es. m (ent_key e) = Some (ent_timestamp e, ent_value e)"
  shows "log_map es m0 k = (if k \<in> ent_key ` set es then m k else m0 k)"
  using assms by (induction es arbitrary: m0) auto

lemma store_map_dom:
  assumes "keydir_inv w"
  shows "dom (store_map w) = set (map fst (hash_elems (kd_table w)))"
    and "card (dom (store_map w)) = length (hash_elems (kd_table w))"
proof -
  have tab: "uthash_inv (kd_table w)" by (rule keydir_inv_uthash [OF assms])
  have "k \<in> dom (store_map w) \<longleftrightarrow> k \<in> set (map fst (hash_elems (kd_table w)))" for k
  proof
    assume "k \<in> dom (store_map w)"
    then obtain q where "hash_find (kd_table w) k = Some q" by (auto simp: store_map_def kd_lookup_def bind_eq_Some_conv)
    then have "(k, q) \<in> set (hash_elems (kd_table w))" using ut.lookup_Some_iff [OF tab] by simp
    then show "k \<in> set (map fst (hash_elems (kd_table w)))" by force
  next
    assume "k \<in> set (map fst (hash_elems (kd_table w)))"
    then obtain q where q: "(k, q) \<in> set (hash_elems (kd_table w))" by auto
    moreover from this obtain r where "kd_heap w q = Some r" using assms by (fastforce simp: keydir_inv_def)
    moreover have "hash_find (kd_table w) k = Some q" using q ut.lookup_Some_iff [OF tab] by simp
    ultimately show "k \<in> dom (store_map w)" by (simp add: store_map_def kd_lookup_def domIff)
  qed
  then show dom: "dom (store_map w) = set (map fst (hash_elems (kd_table w)))" by blast
  show "card (dom (store_map w)) = length (hash_elems (kd_table w))"
    unfolding dom using distinct_card [OF ut.keys_distinct [OF tab]] by simp
qed

lemma copies_log_map:
  fixes w :: "'a keydir_state_scheme"
  assumes c: "copies crc32 w (map snd (hash_elems (kd_table w))) es" and inv: "keydir_inv w"
  shows "log_map es Map.empty = store_map w" and "distinct (map ent_key es)"
proof -
  let ?ks = "map fst (hash_elems (kd_table w))"
  have es: "\<forall>e \<in> set es. store_map w (ent_key e) = Some (ent_timestamp e, ent_value e)" using c by (simp add: copies_def)
  have "set ?ks \<subseteq> ent_key ` set es"
  proof
    fix k assume "k \<in> set ?ks"
    then obtain q where "(k, q) \<in> set (hash_elems (kd_table w))" by auto
    moreover from this have "q \<in> set (map snd (hash_elems (kd_table w)))" by force
    ultimately show "k \<in> ent_key ` set es" using c by (auto simp: copies_def)
  qed
  moreover have "ent_key ` set es \<subseteq> dom (store_map w)" using es by auto
  ultimately have keys: "dom (store_map w) = ent_key ` set es" using store_map_dom(1) [OF inv] by blast
  show "log_map es Map.empty = store_map w"
  proof
    fix k show "log_map es Map.empty k = store_map w k"
    proof (cases "k \<in> ent_key ` set es")
      case False
      then have "k \<notin> dom (store_map w)" using keys by blast
      then have "store_map w k = None" by (simp only: domIff not_not)
      with False show ?thesis by (simp add: log_map_bindings [OF es])
    qed (simp add: log_map_bindings [OF es])
  qed
  have "card (set (map ent_key es)) = length (map ent_key es)"
    using keys store_map_dom(2) [OF inv] c by (simp add: copies_def)
  then show "distinct (map ent_key es)" by (rule card_distinct)
qed

lemma set_logs: "set (logs L) = (\<Union>i. set (L i))"
proof -
  have "finite {i :: u64. L i \<noteq> []}" by simp
  then have "set (logs L) = (\<Union>i \<in> {i. L i \<noteq> []}. set (L i))" by (simp add: logs_def)
  then show ?thesis by force
qed

lemma log_map_keys: "dom (log_map es Map.empty) = ent_key ` set es"
proof (induction es rule: rev_induct)
  case (snoc e es)
  have eq: "dom (log_map (es @ [e]) Map.empty) = insert (ent_key e) (dom (log_map es Map.empty))" by (simp del: fun_upd_apply)
  show ?case unfolding eq snoc.IH by simp
qed simp

lemma durable_hintable:
  assumes "durable crc32 L w" and "k \<in> dom (store_map w)" and "ent_key e = k"
  shows "hintable e"
proof -
  have "k \<in> ent_key ` set (logs L)" using assms(1,2) log_map_keys by (auto simp: durable_def)
  then obtain e' i where "e' \<in> set (L i)" "ent_key e' = k" by (auto simp: set_logs)
  then show ?thesis using assms(1,3) by (auto simp: durable_def log_disk_def hintable_key)
qed

text \<open>A directory in which every name is one of the old ones or of the store.\<close>

lemma clean_dir_named:
  assumes "clean_dir dir w"
    and "\<And>q. map_of (dir_entries w') q = map_of (dir_entries w) q \<or> map_of (dir_entries w') q = None
      \<or> (\<exists>i ext j. q = ext_path dir i ext \<and> ext \<noteq> FILE_UNKNOWN \<and> unat i < 2 ^ 31 \<and> map_of (dir_entries w') q = Some (Regular j))"
  shows "clean_dir dir w'"
proof -
  let ?u = "w\<lparr>dir_entries := filter (\<lambda>(q, n). q \<notin> {q. map_of (dir_entries w') q = None}) (dir_entries w)\<rparr>"
  have u: "map_of (dir_entries ?u) q = (if map_of (dir_entries w') q = None then None else map_of (dir_entries w) q)" for q
    using map_of_filter_paths [of "{q. map_of (dir_entries w') q = None}" "dir_entries w" q] by simp
  have "clean_dir dir ?u"
    unfolding clean_dir_def
  proof
    fix name assume "name \<in> set (drop 2 (dir_names ?u (dir_prefix dir)))"
    from this [unfolded dir_names_iff] have n: "name \<noteq> []" "CHR ''/'' \<notin> set name"
      and q: "map_of (dir_entries ?u) (dir_prefix dir @ name) \<noteq> None" by blast+
    from q have there: "map_of (dir_entries w') (dir_prefix dir @ name) \<noteq> None"
      "map_of (dir_entries w) (dir_prefix dir @ name) \<noteq> None" unfolding u by (auto split: if_splits)
    with n have "name \<in> set (drop 2 (dir_names w (dir_prefix dir)))" by (simp only: dir_names_iff simp_thms)
    then obtain i ext where nf: "named_file dir w name i ext" using assms(1) by (auto simp: clean_dir_def)
    then have "ext_path dir i ext = dir_prefix dir @ name" using prefix_name_path [of dir i ext] by (simp add: named_file_def)
    with nf u there have "named_file dir ?u name i ext" by (auto simp: named_file_def)
    then show "\<exists>i ext. named_file dir ?u name i ext" by blast
  qed
  then show ?thesis
  proof (rule clean_dir_add)
    fix q show "map_of (dir_entries w') q = map_of (dir_entries ?u) q
      \<or> (\<exists>i ext j. q = ext_path dir i ext \<and> ext \<noteq> FILE_UNKNOWN \<and> unat i < 2 ^ 31 \<and> map_of (dir_entries w') q = Some (Regular j))"
      using assms(2) [of q] unfolding u by auto
  qed
qed

section \<open>The result\<close>

text \<open>No temporary files are left over from an earlier compaction, and the identifiers last.\<close>

definition may_compact :: "'a keydir_state_scheme \<Rightarrow> bool" where
  "may_compact w \<longleftrightarrow> fault_script w = [] \<and> (\<forall>i. map_of (dir_entries w) (temp_path (data_dir w) i) = None)
     \<and> card (dom (store_map w)) + 2 < 2 ^ 31"

lemma bytes_at_moved:
  "map_of (dir_entries w') q' = map_of (dir_entries w) q \<Longrightarrow> inode_data w' = inode_data w \<Longrightarrow> bytes_at w' q' = bytes_at w q"
  by (simp add: bytes_at_def lookup_inode_def split: option.splits node.splits)

text \<open>The files of the nodes are all files of the store.\<close>

lemma node_paths_all:
  assumes rep: "files_rep w ps" and known: "nodes_known w"
    and hints: "\<And>i. \<not> hint_absent w i \<Longrightarrow> map_of (dir_entries w) (data_path (data_dir w) i) \<noteq> None"
  shows "map_of (dir_entries w) (data_path (data_dir w) i) \<noteq> None \<Longrightarrow> data_path (data_dir w) i \<in> (\<Union>p \<in> set ps. node_paths w p)"
    and "map_of (dir_entries w) (hint_path (data_dir w) i) \<noteq> None \<Longrightarrow> hint_path (data_dir w) i \<in> (\<Union>p \<in> set ps. node_paths w p)"
proof -
  have node: "\<exists>p \<in> set ps. id_of (file_heap w) p = i \<and> (has_hint_of (file_heap w) p \<longleftrightarrow> \<not> hint_absent w i)"
    if "map_of (dir_entries w) (data_path (data_dir w) i) \<noteq> None"
    using known that ccask_files_get_file_iff [OF rep] by (auto simp: nodes_known_def)
  show "data_path (data_dir w) i \<in> (\<Union>p \<in> set ps. node_paths w p)"
    if "map_of (dir_entries w) (data_path (data_dir w) i) \<noteq> None"
    using node [OF that] by (auto simp: node_paths_def)
  assume "map_of (dir_entries w) (hint_path (data_dir w) i) \<noteq> None"
  then have h: "\<not> hint_absent w i" by (simp add: hint_absent_def)
  from node [OF hints [OF h]] h show "hint_path (data_dir w) i \<in> (\<Union>p \<in> set ps. node_paths w p)"
    by (auto simp: node_paths_def)
qed

lemma node_paths_there:
  assumes ok: "files_ok w ps" and p: "p \<in> set ps" and q: "q \<in> node_paths w p" and clean: "clean_dir (data_dir w) w"
    and hint: "has_hint_of (file_heap w) p \<Longrightarrow> \<not> hint_absent w (id_of (file_heap w) p)"
  shows "lookup_inode w q \<noteq> None"
proof (cases "q = data_path (data_dir w) (id_of (file_heap w) p)")
  case True
  with files_ok_exists [OF ok p] show ?thesis by simp
next
  case False
  then have h: "has_hint_of (file_heap w) p" "q = hint_path (data_dir w) (id_of (file_heap w) p)"
    using q by (auto simp: node_paths_def split: if_splits)
  then show ?thesis
    using clean_dir_regular [OF clean, of _ FILE_HINT] hint by (simp add: hint_path_def hint_absent_def)
qed

text \<open>The directory after the last rename.\<close>

lemma renamed_dir:
  fixes w1 w3 w' :: "'a files_state_scheme"
  assumes t: "temp_logs dir T j w1" and data3: "inode_data w3 = inode_data w1" and data': "inode_data w' = inode_data w3"
    and temps: "\<And>i. map_of (dir_entries w3) (temp_path dir i) = map_of (dir_entries w1) (temp_path dir i)"
    and clear: "\<And>i. map_of (dir_entries w3) (hint_path dir i) = None"
    and old: "\<And>q. q \<notin> range (temp_path dir) \<Longrightarrow> map_of (dir_entries w3) q = map_of (dir_entries w) q \<or> map_of (dir_entries w3) q = None"
    and clean: "clean_dir dir w" and dir: "dir \<noteq> []" and j: "unat j + 2 < 2 ^ 31"
    and ents: "\<And>e. e \<in> set (logs T) \<Longrightarrow> ent_ok e \<and> entry_valid crc32 e \<and> hintable e"
    and d: "\<And>i. map_of (dir_entries w') (data_path dir i) = (if i \<le> j then map_of (dir_entries w3) (temp_path dir i) else None)"
    and te: "\<And>i. map_of (dir_entries w') (temp_path dir i) = (if i \<le> j then None else map_of (dir_entries w3) (temp_path dir i))"
    and o: "\<And>q. q \<notin> range (data_path dir) \<union> range (temp_path dir) \<Longrightarrow> map_of (dir_entries w') q = map_of (dir_entries w3) q"
  shows "log_dir crc32 dir T w'" and "map_of (dir_entries w') (data_path dir i) \<noteq> None \<Longrightarrow> unat i + 2 < 2 ^ 31"
    and "map_of (dir_entries w') (temp_path dir i) = None"
proof -
  have small: "unat i + 2 < 2 ^ 31" if "i \<le> j" for i using that j by (simp add: word_le_nat_alt)
  then show room: "map_of (dir_entries w') (data_path dir i) \<noteq> None \<Longrightarrow> unat i + 2 < 2 ^ 31" for i
    using d [of i] by (auto split: if_splits)
  have data: "bytes_at w' (data_path dir i) = encode_log (T i)" for i
  proof (cases "i \<le> j")
    case True
    then have "bytes_at w' (data_path dir i) = bytes_at w1 (temp_path dir i)"
      using d [of i] temps data3 data' by (intro bytes_at_moved) simp_all
    with t show ?thesis by (simp add: temp_logs_def)
  next
    case False
    then have "bytes_at w' (data_path dir i) = []" using d [of i] by (simp add: bytes_at_def lookup_inode_def)
    moreover have "T i = []" using temp_logs_above [OF t] False by simp
    ultimately show ?thesis by (simp add: encode_log_def)
  qed
  show no_temp: "map_of (dir_entries w') (temp_path dir i) = None" for i
    using te [of i] temps t by (auto simp: temp_logs_def)
  have "hint_path dir i \<notin> range (data_path dir) \<union> range (temp_path dir)" for i
    by (auto simp: hint_path_def data_path_def temp_path_def ext_path_inj)
  then have no_hint: "map_of (dir_entries w') (hint_path dir i) = None" for i using o clear by simp
  have "clean_dir dir w'"
  proof (rule clean_dir_named [OF clean])
    fix q
    consider i where "q = data_path dir i" | i where "q = temp_path dir i" | "q \<notin> range (data_path dir) \<union> range (temp_path dir)"
      by blast
    then show "map_of (dir_entries w') q = map_of (dir_entries w) q \<or> map_of (dir_entries w') q = None
      \<or> (\<exists>i ext j. q = ext_path dir i ext \<and> ext \<noteq> FILE_UNKNOWN \<and> unat i < 2 ^ 31 \<and> map_of (dir_entries w') q = Some (Regular j))"
    proof cases
      case (1 i)
      show ?thesis
      proof (cases "i \<le> j")
        case True
        then have "lookup_inode w1 (temp_path dir i) \<noteq> None" using t by (simp add: temp_logs_def)
        then obtain n where "map_of (dir_entries w1) (temp_path dir i) = Some (Regular n)"
          by (auto simp: lookup_inode_def split: option.splits node.splits)
        then have "map_of (dir_entries w') q = Some (Regular n)" using 1 d [of i] temps True by simp
        moreover have "unat i < 2 ^ 31" using small [OF True] by simp
        ultimately show ?thesis using 1 by (auto simp: data_path_def)
      qed (use 1 d in simp)
    next
      case (2 i)
      with no_temp show ?thesis by simp
    next
      case 3
      then show ?thesis using o [OF 3] old [of q] by auto
    qed
  qed
  moreover have "\<forall>e \<in> set (T i). ent_ok e \<and> entry_valid crc32 e \<and> hintable e" for i
    using ents by (auto simp: set_logs)
  moreover have "unat i + 1 < 2 ^ 31" if "map_of (dir_entries w') (data_path dir i) \<noteq> None" for i using room [OF that] by simp
  moreover have "log_size (T i) < 2 ^ 62" for i using t by (simp add: temp_logs_def)
  ultimately show "log_dir crc32 dir T w'" using dir data no_hint by (simp add: log_dir_def)
qed

lemma compaction_result:
  fixes w :: "'a writer_state_scheme"
  assumes dur: "durable crc32 L w" and may: "may_compact w"
  obtains w' T ps where "ccask_compactor_dump_keydir w = Some (CCASK_OK, w')" and "log_dir crc32 (data_dir w) T w'"
    and "log_map (logs T) Map.empty = store_map w" and "distinct (map ent_key (logs T))" and "posix_inv w'"
    and "\<And>i. map_of (dir_entries w') (data_path (data_dir w) i) \<noteq> None \<Longrightarrow> unat i + 2 < 2 ^ 31"
    and "files_rep w' ps" and "hint_pending w' = hint_pending w" and "fault_script w' = []" and "kd_readers w' = kd_readers w"
    and "keydir_state.more w' = keydir_state.more w" and "\<And>i. map_of (dir_entries w') (temp_path (data_dir w) i) = None"
proof -
  let ?dir = "data_dir w"
  obtain p ps where si: "store_inv crc32 w (p # ps)" and ok: "files_ok w (p # ps)" and disk: "log_disk crc32 L w"
    and due: "hints_due w" and max: "unat (max_active_file_size w) < 2 ^ 62"
    by (rule durableE [OF dur])
  let ?ps = "p # ps"
  have kdi: "keydir_inv w" using si by (simp add: store_inv_def)
  have nf: "fault_script w = []" and none: "\<And>i. map_of (dir_entries w) (temp_path ?dir i) = None"
    and keys: "length (hash_elems (kd_table w)) + 2 < 2 ^ 31"
    using may store_map_dom(2) [OF kdi] by (simp_all add: may_compact_def)
  have clean: "clean_dir ?dir w" and dir: "?dir \<noteq> []" using disk by (simp_all add: log_disk_def)
  obtain es T j fd w1 where copy: "compact_copy w = Some (Some (Compacted j fd), w1)" and si1: "store_inv crc32 w1 ?ps"
    and "store_map w1 = store_map w" and d1: "data_dir w1 = ?dir" and "max_active_file_size w1 = max_active_file_size w"
    and frame: "temp_frame ?dir w w1" and nf1: "fault_script w1 = []" and t: "temp_logs ?dir T j w1" and es: "logs T = es"
    and "\<And>i. set (T i) \<subseteq> set es" and c: "copies crc32 w (map snd (hash_elems (kd_table w))) es"
    and j: "unat j \<le> length (hash_elems (kd_table w))" and hp1: "hint_pending w1 = hint_pending w"
    and hint1: "has_hint_of (file_heap w1) = has_hint_of (file_heap w)"
    and id1: "\<And>p. p \<in> set ?ps \<Longrightarrow> id_of (file_heap w1) p = id_of (file_heap w) p"
    and more1: "keydir_state.more w1 = keydir_state.more w" and rd1: "kd_readers w1 = Suc (kd_readers w)"
    by (rule compact_copy_calm [OF si nf max none]) (use keys in simp, rule that, assumption+)
  have ok1: "files_ok w1 ?ps" using si1 by (simp add: store_inv_def)
  have rep: "files_rep w ?ps" and rep1: "files_rep w1 ?ps" using ok ok1 by (simp_all add: files_ok_def)
  let ?D = "\<Union>q \<in> set ?ps. node_paths w q"
  let ?w2 = "ccask_keydir_record_iter_close (sys_close fd w1)"
  have w2: "dir_entries ?w2 = dir_entries w1" "inode_data ?w2 = inode_data w1" "file_heap ?w2 = file_heap w1" "data_dir ?w2 = ?dir"
    "files_tail ?w2 = files_tail w1" "fault_script ?w2 = []" "kd_readers ?w2 = kd_readers w" "keydir_state.more ?w2 = keydir_state.more w"
    "hint_pending ?w2 = hint_pending w"
    using nf1 d1 rd1 more1 hp1 by (simp_all add: ccask_keydir_record_iter_close_def sys_close_def)
  have known: "nodes_known w" using due by (simp add: hints_due_def)
  have there: "lookup_inode ?w2 x \<noteq> None" if q: "q \<in> set ?ps" and x: "x \<in> node_paths w q" for q x
  proof -
    let ?i = "id_of (file_heap w) q"
    have "map_of (dir_entries w) (data_path ?dir ?i) \<noteq> None"
      using files_ok_exists [OF ok q] by (auto simp: lookup_inode_def split: option.splits)
    then obtain q' where "ccask_files_get_file ?i w = Some q'" "has_hint_of (file_heap w) q' \<longleftrightarrow> \<not> hint_absent w ?i"
      using known by (auto simp: nodes_known_def)
    moreover have "ccask_files_get_file ?i w = Some q" using ccask_files_get_file_iff [OF rep] q by blast
    ultimately have "has_hint_of (file_heap w) q \<Longrightarrow> \<not> hint_absent w ?i" by simp
    then have "lookup_inode w x \<noteq> None" by (rule node_paths_there [OF ok q x clean])
    moreover have "x \<notin> range (temp_path ?dir)"
      using x by (auto simp: node_paths_def data_path_def hint_path_def temp_path_def ext_path_inj split: if_splits)
    then have "map_of (dir_entries ?w2) x = map_of (dir_entries w) x" using frame w2(1) by (simp add: temp_frame_def)
    ultimately show ?thesis by (simp add: lookup_inode_def)
  qed
  have paths2: "node_paths ?w2 q = node_paths w q" if "q \<in> set ?ps" for q
    using id1 [OF that] w2(3,4) by (simp add: node_paths_def hint1)
  then have D2: "(\<Union>q \<in> set ?ps. node_paths ?w2 q) = ?D" by auto
  have "inj_on (id_of (file_heap w1)) (set ?ps)" by (rule inj_onI) (rule files_rep_id_inj [OF rep1])
  then have dist: "distinct (map (id_of (file_heap ?w2)) ?ps)"
    unfolding w2(3) distinct_map using files_rep_distinct [OF rep1] by (rule conjI [rotated])
  have "compact_delete_from (last_of ?ps None) CCASK_OK ?w2 = Some (CCASK_OK, remove_paths (\<Union>q \<in> set ?ps. node_paths ?w2 q) ?w2)"
    by (rule compact_delete_from_calm [OF _ w2(6) _ dist, of None])
      (use rep1 w2(3) there paths2 in \<open>auto simp: files_rep_def files_list_def\<close>)
  moreover have "files_tail ?w2 = last_of ?ps None" using rep1 w2(5) by (simp add: files_rep_def files_list_def)
  ultimately have del: "compact_delete_from (ccask_files_get_oldest_file ?w2) CCASK_OK ?w2 = Some (CCASK_OK, remove_paths ?D ?w2)"
    unfolding D2 ccask_files_get_oldest_file_def by simp
  let ?w3 = "remove_paths ?D ?w2"
  have D_names: "temp_path ?dir i \<notin> ?D" for i
    by (auto simp: node_paths_def data_path_def hint_path_def temp_path_def ext_path_inj split: if_splits)
  have hints: "map_of (dir_entries w) (data_path ?dir i) \<noteq> None" if "\<not> hint_absent w i" for i
    using that disk by (simp add: log_disk_def)
  have all1: "data_path ?dir i \<in> ?D" if "map_of (dir_entries w) (data_path ?dir i) \<noteq> None" for i
    by (rule node_paths_all(1) [OF rep known _ that]) (rule hints)
  have all2: "hint_path ?dir i \<in> ?D" if "map_of (dir_entries w) (hint_path ?dir i) \<noteq> None" for i
    by (rule node_paths_all(2) [OF rep known _ that]) (rule hints)
  have w3: "inode_data ?w3 = inode_data w1" "data_dir ?w3 = ?dir" "fault_script ?w3 = []" "file_heap ?w3 = file_heap w1"
    and more3: "posix.more ?w3 = posix.more ?w2"
    using w2 by simp_all
  have dir3: "map_of (dir_entries ?w3) q = (if q \<in> ?D then None else map_of (dir_entries w1) q)" for q
    unfolding remove_paths_simps(1) w2(1) by (rule refl)
  have temps: "map_of (dir_entries ?w3) (temp_path ?dir i) = map_of (dir_entries w1) (temp_path ?dir i)" for i
    unfolding dir3 using D_names by (simp only: if_False)
  have other: "map_of (dir_entries w1) q = map_of (dir_entries w) q" if "q \<notin> range (temp_path ?dir)" for q
    using frame that by (simp add: temp_frame_def)
  have old: "map_of (dir_entries ?w3) q = map_of (dir_entries w) q \<or> map_of (dir_entries ?w3) q = None"
    if "q \<notin> range (temp_path ?dir)" for q
    unfolding dir3 using other [OF that] by presburger
  have "data_path ?dir i \<notin> range (temp_path ?dir)" "hint_path ?dir i \<notin> range (temp_path ?dir)" for i
    by (auto simp: data_path_def hint_path_def temp_path_def ext_path_inj)
  note gone = other [OF this(1)] other [OF this(2)]
  have no_data: "map_of (dir_entries ?w3) (data_path ?dir i) = None"
    and no_hint: "map_of (dir_entries ?w3) (hint_path ?dir i) = None" for i
    unfolding dir3 gone using all1 [of i] all2 [of i] by presburger+
  let ?k = "Suc (unat j)"
  have idx: "unat i < ?k \<longleftrightarrow> i \<le> j" for i by (simp add: word_le_nat_alt less_Suc_eq_le)
  have k: "?k \<le> 2 ^ 64" using unsigned_less [of j] by (simp add: Suc_le_eq)
  have look: "lookup_inode ?w3 (temp_path ?dir i) \<noteq> None" if "i \<le> j" for i
  proof -
    have "lookup_inode w1 (temp_path ?dir i) \<noteq> None" using t that by (simp add: temp_logs_def)
    then show ?thesis using temps [of i] unfolding lookup_inode_def by presburger
  qed
  obtain de where ren: "fold compact_rename [0..<?k] ?w3 = ?w3\<lparr>dir_entries := de\<rparr>"
    and d: "\<And>i. map_of de (data_path ?dir i) = (if i \<le> j then map_of (dir_entries ?w3) (temp_path ?dir i) else None)"
    and te: "\<And>i. map_of de (temp_path ?dir i) = (if i \<le> j then None else map_of (dir_entries ?w3) (temp_path ?dir i))"
    and o: "\<And>q. q \<notin> range (data_path ?dir) \<union> range (temp_path ?dir) \<Longrightarrow> map_of de q = map_of (dir_entries ?w3) q"
    and pinv: "posix_inv ?w3 \<Longrightarrow> posix_inv (?w3\<lparr>dir_entries := de\<rparr>)"
    using renames_calm [OF w3(3) k, unfolded w3(2) idx, OF look no_data] by blast
  let ?w' = "?w3\<lparr>dir_entries := de\<rparr>"
  have run: "ccask_compactor_dump_keydir w = Some (CCASK_OK, ?w')"
    using copy del ren by (simp add: ccask_compactor_dump_keydir_def Let_def del: upt_Suc)
  note m = copies_log_map [OF c kdi]
  have "set es \<subseteq> {e. ent_ok e \<and> entry_valid crc32 e \<and> ent_key e \<in> dom (store_map w)}" using c by (auto simp: copies_def)
  then have ents: "ent_ok e \<and> entry_valid crc32 e \<and> hintable e" if "e \<in> set (logs T)" for e
    using that durable_hintable [OF dur _ refl] unfolding es by blast
  have lim: "unat j + 2 < 2 ^ 31" using j keys by simp
  note rd = renamed_dir [OF t w3(1) _ temps no_hint old clean dir lim ents, of ?w']
  have de': "dir_entries ?w' = de" "inode_data ?w' = inode_data ?w3" by simp_all
  have d': "map_of (dir_entries ?w') (data_path ?dir i) = (if i \<le> j then map_of (dir_entries ?w3) (temp_path ?dir i) else None)" for i
    unfolding de' by (rule d)
  have te': "map_of (dir_entries ?w') (temp_path ?dir i) = (if i \<le> j then None else map_of (dir_entries ?w3) (temp_path ?dir i))" for i
    unfolding de' by (rule te)
  have o': "map_of (dir_entries ?w') q = map_of (dir_entries ?w3) q" if "q \<notin> range (data_path ?dir) \<union> range (temp_path ?dir)" for q
    unfolding de' by (rule o [OF that])
  have ld: "log_dir crc32 ?dir T ?w'" by (rule rd(1) [OF de'(2) _ _ d' te' o'])
  have same: "same_files w1 ?w2" by (simp add: same_files_def ccask_keydir_record_iter_close_def sys_close_def)
  have "same_files ?w2 ?w3" by (rule same_files_more) (rule more3)
  moreover have "same_files ?w3 ?w'" by (simp add: same_files_def)
  ultimately have "same_files w1 ?w'" using same same_files_trans by blast
  then have repw: "files_rep ?w' ?ps" using rep1 same_files_rep by blast
  have "posix_inv (sys_close fd w1)" using ok1 posix_inv_close by (auto simp: files_ok_def)
  then have "posix_inv ?w2" by (simp add: ccask_keydir_record_iter_close_def posix_inv_def)
  then have inv: "posix_inv ?w'" by (intro pinv posix_inv_remove)
  have room: "unat i + 2 < 2 ^ 31" if "map_of (dir_entries ?w') (data_path ?dir i) \<noteq> None" for i
    by (rule rd(2) [OF de'(2) _ _ d' te' o' that])
  have no_temp: "map_of (dir_entries ?w') (temp_path ?dir i) = None" for i
    by (rule rd(3) [OF de'(2) _ _ d' te' o'])
  have fin: "hint_pending ?w' = hint_pending w" "fault_script ?w' = []" "kd_readers ?w' = kd_readers w"
    "keydir_state.more ?w' = keydir_state.more w"
    using w2(6-9) by (simp_all add: remove_paths_def)
  have map: "log_map (logs T) Map.empty = store_map w" "distinct (map ent_key (logs T))" using m unfolding es by blast+
  show thesis by (rule that [OF run ld map inv _ repw fin]) (rule room, assumption, rule no_temp)
qed

section \<open>Properties\<close>



text \<open>A put, a compaction, and a start on what it leaves.\<close>

lemma demo_put_store:
  obtains w L where "ccask_put_blocking (\<lambda>c b. c + 1) [1, 2] 2 (Some [3]) 1 demo_store = Some (CCASK_OK, w)"
    and "durable (\<lambda>c b. c + 1) L w" and "fault_script w = []" and "store_map w = [[1, 2] \<mapsto> (7, [3])]"
    and "data_dir w = ''d''" and "dir_entries w = dir_entries demo_store"
proof -
  let ?crc = "\<lambda>c b. c + 1 :: u32" and ?e = "Put_blocking [1, 2] 7 [3] CCASK_OK"
  obtain w where put: "ccask_put_blocking ?crc [1, 2] 2 (Some [3]) 1 demo_store = Some (CCASK_OK, w)" by (rule demo_put)
  note f = demo_put_calm [OF put]
  have run: "trace_run (calm_step ?crc) [?e] demo_store w"
    using f(1) by (auto intro: run_step run_nil)
  have inv: "calm demo_store \<and> (\<exists>L. durable ?crc L demo_store)" using demo_durable by blast
  obtain L where c: "calm w" and d: "durable ?crc L w" using calm.run_inv [OF run inv] by blast
  have "trace_run spec_step [?e] (store_abs demo_store) (store_abs w)" by (rule calm.run_spec [OF run inv])
  then have m: "store_map w = [[1, 2] \<mapsto> (7, [3])]"
    unfolding demo_abs by (elim run_consE run_nilE spec_put_okE) (simp add: store_abs_def)
  have "fault_script w = []" using c by (simp add: calm_def)
  then show thesis by (rule that [OF put d _ m f(3,5)])
qed


end
