(* ===== verification/Listing.thy ===== *)
theory Listing
  imports Compaction
begin

text \<open>
  The key iterator of src/core.c, used as a client uses it: opened, advanced until it does not return
  CCASK_OK, and closed.
\<close>

section \<open>The loop of a client\<close>

partial_function (option) keys_loop ::
  "ccask_keys_iter \<Rightarrow> 'a keydir_state_scheme \<Rightarrow> ((byte list \<times> u32) list \<times> 'a keydir_state_scheme) option" where
  "keys_loop iter w = do {
     (st, key, iter', w') \<leftarrow> ccask_keys_iter_next iter w;
     if st \<noteq> CCASK_OK then Some ([], w')
     else do {
       k \<leftarrow> key;
       (ks, w'') \<leftarrow> keys_loop iter' w';
       Some (k # ks, w'') } }"

lemma keys_loop_elems:
  assumes inv: "keydir_inv w" and "hash_elems (kd_table w) = pre @ es" and "keydir_iter iter = first_of (map snd es) None"
  shows "\<exists>ks. keys_loop iter w = Some (ks, set_errno CCASK_ERR_ITER_END w) \<and> map fst ks = map fst es
    \<and> (\<forall>(k, n) \<in> set ks. unat n = length k)"
  using assms(2,3)
proof (induction es arbitrary: pre iter)
  case Nil
  then show ?case
    by (simp add: keys_loop.simps ccask_keys_iter_next_def ccask_keydir_record_iter_next_def)
next
  case (Cons x es)
  obtain k p where x: "x = (k, p)" by fastforce
  have tab: "uthash_inv (kd_table w)" by (rule keydir_inv_uthash [OF inv])
  have dist: "distinct (map snd pre @ p # map snd es)" using ut.elems_distinct [OF tab] Cons.prems(1) x by simp
  have it: "keydir_iter iter = Some p" using Cons.prems(2) x by simp
  have "hash_next p (kd_table w) = first_of (map snd es) None"
    using next_in_first_of [OF dist] Cons.prems(1) x by (simp add: hash_next_def)
  then have step: "ccask_keydir_record_iter_next (keydir_iter iter) w = (Some p, first_of (map snd es) None)"
    by (simp add: ccask_keydir_record_iter_next_def it)
  have "(k, p) \<in> set (hash_elems (kd_table w))" using Cons.prems(1) x by simp
  then obtain r where r: "kd_heap w p = Some r" "kd_key r = k" "unat (kd_key_size r) = length k"
    using inv by (fastforce simp: keydir_inv_def)
  let ?it = "iter\<lparr>keydir_iter := first_of (map snd es) None\<rparr>"
  obtain ks where "keys_loop ?it w = Some (ks, set_errno CCASK_ERR_ITER_END w)" "map fst ks = map fst es"
    "\<forall>(k, n) \<in> set ks. unat n = length k"
    using Cons.IH [of "pre @ [x]" ?it] Cons.prems(1) by auto
  with step r x show ?case by (simp add: keys_loop.simps [of iter] ccask_keys_iter_next_def)
qed

section \<open>Properties\<close>

text \<open>
  C32: the key iterator lists every key of the store once.  If it could be allocated, the loop that
  advances it ends after all keys of the map, each once and with its size; until it is closed every
  update of the directory waits; closing it gives the lock back.
\<close>

theorem keys_listed_once:
  assumes "store_inv crc32 w ps" and "ccask_list_keys w = (Some iter, w1)"
  shows "\<exists>ks w2. keys_loop iter w1 = Some (ks, w2) \<and> distinct (map fst ks) \<and> set (map fst ks) = dom (store_map w)
    \<and> (\<forall>(k, n) \<in> set ks. unat n = length k) \<and> store_inv crc32 (ccask_keys_iter_close iter w2) ps
    \<and> store_map (ccask_keys_iter_close iter w2) = store_map w
    \<and> kd_upsert k l w2 = None \<and> kd_readers (ccask_keys_iter_close iter w2) = kd_readers w"
proof -
  obtain u where m: "sys_malloc w = (True, u)" and w1: "w1 = u\<lparr>kd_readers := Suc (kd_readers u)\<rparr>"
    and iter: "keydir_iter iter = hash_first (kd_table u)"
    using assms(2) by (auto simp: ccask_list_keys_def ccask_keydir_record_iter_def split: prod.splits if_splits)
  have io: "io_frame w u" using m by (rule sys_malloc_io)
  note su = store_inv_io [OF assms(1) io]
  have s1: "store_inv crc32 w1 ps" "store_map w1 = store_map w" using su by (simp_all add: w1 store_inv_readers)
  then have inv1: "keydir_inv w1" by (simp add: store_inv_def)
  have start: "keydir_iter iter = first_of (map snd (hash_elems (kd_table w1))) None"
    unfolding iter by (cases "hash_elems (kd_table u)") (simp_all add: hash_first_def w1)
  obtain ks where loop: "keys_loop iter w1 = Some (ks, set_errno CCASK_ERR_ITER_END w1)"
    and ks: "map fst ks = map fst (hash_elems (kd_table w1))" "\<forall>(k, n) \<in> set ks. unat n = length k"
    using keys_loop_elems [OF inv1 append_Nil [symmetric] start] by blast
  let ?w2 = "set_errno CCASK_ERR_ITER_END w1"
  have io2: "io_frame w1 ?w2" by simp
  note s2 = store_inv_io [OF s1(1) io2]
  have "set (map fst ks) = dom (store_map w)" unfolding ks(1) store_map_dom(1) [OF inv1, symmetric] s1(2) ..
  moreover have "distinct (map fst ks)"
    unfolding ks(1) by (rule ut.keys_distinct [OF keydir_inv_uthash [OF inv1]])
  moreover have "store_inv crc32 (ccask_keys_iter_close iter ?w2) ps" "store_map (ccask_keys_iter_close iter ?w2) = store_map w"
    using s2 s1(2) by (simp_all add: ccask_keys_iter_close_def ccask_keydir_record_iter_close_def store_inv_readers)
  moreover have "kd_upsert k l ?w2 = None"
    by (simp add: kd_upsert_def ccask_keydir_upsert_def kd_wrlock_def w1 Let_def set_errno_def)
  moreover have "kd_readers (ccask_keys_iter_close iter ?w2) = kd_readers w"
    using same_more_kd io_frame_more [OF io] by (simp add: ccask_keys_iter_close_def ccask_keydir_record_iter_close_def w1 set_errno_def)
  ultimately show ?thesis using loop ks(2) by blast
qed

text \<open>A store with one key.\<close>

theorem keys_listed_once_witness:
  "\<exists>w iter w1 ks w2. ccask_put_blocking (\<lambda>c b. c + 1) [1, 2] 2 (Some [3]) 1 demo_store = Some (CCASK_OK, w)
    \<and> ccask_list_keys w = (Some iter, w1) \<and> keys_loop iter w1 = Some (ks, w2) \<and> map fst ks = [[1, 2]]"
proof -
  obtain w L where put: "ccask_put_blocking (\<lambda>c b. c + 1) [1, 2] 2 (Some [3]) 1 demo_store = Some (CCASK_OK, w)"
    and d: "durable (\<lambda>c b. c + 1) L w" and nf: "fault_script w = []" and m: "store_map w = [[1, 2] \<mapsto> (7, [3])]"
    by (rule demo_put_store)
  obtain p ps where si: "store_inv (\<lambda>c b. c + 1) w (p # ps)" by (rule durableE [OF d])
  obtain iter w1 where open_it: "ccask_list_keys w = (Some iter, w1)"
    using nf by (simp add: ccask_list_keys_def ccask_keydir_record_iter_def sys_malloc_no_fault)
  obtain ks w2 where ks: "keys_loop iter w1 = Some (ks, w2)" "distinct (map fst ks)" "set (map fst ks) = dom (store_map w)"
    using keys_listed_once [OF si open_it] by blast
  have "set (map fst ks) = set [[1, 2]]" using ks(3) m by simp
  then have "length (map fst ks) = 1" using distinct_card [OF ks(2)] by simp
  then obtain k where "map fst ks = [k]" by (auto simp: length_Suc_conv)
  then have "map fst ks = [[1, 2]]" using \<open>set (map fst ks) = set [[1, 2]]\<close> by simp
  with put open_it ks(1) show ?thesis by (intro exI conjI)
qed

end
