(* ===== verification/Interface.thy ===== *)
theory Interface
  imports Compaction
begin

text \<open>
  The status codes of the public operations: CCASK_RETRY is internal, every public operation that
  returns a status returns CCASK_OK or CCASK_FAIL.
\<close>

definition public_status :: "ccask_status \<Rightarrow> bool" where
  "public_status st \<longleftrightarrow> st = CCASK_OK \<or> st = CCASK_FAIL"

lemma public_status_simps [simp]: "public_status CCASK_OK" "public_status CCASK_FAIL" "\<not> public_status CCASK_RETRY"
  by (simp_all add: public_status_def)

section \<open>Statuses of programs in the option monad\<close>

text \<open>If the program returns, its status is one of the public ones.\<close>

named_theorems typing

definition has_status :: "(ccask_status \<times> 'a) option \<Rightarrow> bool" where
  "has_status m \<longleftrightarrow> (\<forall>st x. m = Some (st, x) \<longrightarrow> public_status st)"

lemma has_statusD: "has_status m \<Longrightarrow> m = Some (st, x) \<Longrightarrow> public_status st"
  by (simp add: has_status_def)

lemma has_status_None [typing]: "has_status None"
  by (simp add: has_status_def)

lemma has_status_Some [typing]: "public_status st \<Longrightarrow> has_status (Some (st, x))"
  by (simp add: has_status_def)

lemma has_status_bind [typing]: "(\<And>x. has_status (f x)) \<Longrightarrow> has_status (Option.bind m f)"
  by (cases m) (simp_all add: has_status_def)

lemma has_status_prod [typing]: "(\<And>a b. has_status (f a b)) \<Longrightarrow> has_status (case x of (a, b) \<Rightarrow> f a b)"
  by (cases x) simp

lemma has_status_prod_app [typing]: "(\<And>a b. has_status (f a b y)) \<Longrightarrow> has_status ((case x of (a, b) \<Rightarrow> f a b) y)"
  by (cases x) simp

lemma has_status_end [typing]:
  "has_status a \<Longrightarrow> (\<And>i. has_status (f i)) \<Longrightarrow> (\<And>i fd. has_status (g i fd)) \<Longrightarrow>
     has_status (case r of Aborted \<Rightarrow> a | Cancelled i \<Rightarrow> f i | Compacted i fd \<Rightarrow> g i fd)"
  by (cases r) simp_all

text \<open>The status of a call that is passed on.\<close>

lemma has_status_passed:
  assumes "has_status m" and "\<And>st x. public_status st \<Longrightarrow> has_status (f (st, x))"
  shows "has_status (Option.bind m f)"
proof (cases m)
  case (Some y)
  obtain st x where "y = (st, x)" by fastforce
  with Some assms show ?thesis by (simp add: has_statusD)
qed (simp add: has_status_def)

lemma has_status_option [typing]: "has_status n \<Longrightarrow> (\<And>y. has_status (f y)) \<Longrightarrow> has_status (case x of None \<Rightarrow> n | Some y \<Rightarrow> f y)"
  by (cases x) simp_all

lemma has_status_if [typing]: "has_status m \<Longrightarrow> has_status n \<Longrightarrow> has_status (if b then m else n)"
  by simp

lemma has_status_Let [typing]: "(\<And>x. has_status (f x)) \<Longrightarrow> has_status (let x = a in f x)"
  by (simp add: Let_def)

lemma public_status_if [typing]: "public_status (if st \<noteq> CCASK_OK then CCASK_FAIL else CCASK_OK)"
  "public_status CCASK_OK" "public_status CCASK_FAIL"
  by simp_all

section \<open>The public operations\<close>

lemma ccask_init_status: "has_status (ccask_init opts w)"
  unfolding ccask_init_def by (intro typing)

lemma ccask_get_status: "has_status (ccask_get crc32 key ksize r w)"
  unfolding ccask_get_def by (intro typing)

lemma ccask_put_status: "has_status (ccask_put crc32 key ksize val vsize w)"
  unfolding ccask_put_def by (intro typing)

lemma ccask_put_blocking_status: "has_status (ccask_put_blocking crc32 key ksize val vsize w)"
  unfolding ccask_put_blocking_def by (intro typing)

lemma ccask_keys_iter_next_status: "has_status (ccask_keys_iter_next iter w)"
  unfolding ccask_keys_iter_next_def by (intro typing)

lemma compact_delete_from_status:
  assumes "compact_delete_from c r w = Some (st, w')" and "public_status r"
  shows "public_status st"
proof -
  have "public_status r \<longrightarrow> public_status (fst y)" if "compact_delete_from c r w = Some y" for y
  proof (rule compact_delete_from.raw_induct [OF _ that])
    fix go :: "nat option \<Rightarrow> ccask_status \<Rightarrow> 'a files_state_scheme \<Rightarrow> (ccask_status \<times> 'a files_state_scheme) option"
    fix c r w y
    assume IH: "\<And>c r w y. go c r w = Some y \<Longrightarrow> public_status r \<longrightarrow> public_status (fst y)"
    have go: "has_status (go c r w)" if "public_status r" for c r w
      using IH [of c r w] that by (auto simp: has_status_def)
    assume "(case c of None \<Rightarrow> Some (r, w)
      | Some p \<Rightarrow> do {
          f \<leftarrow> file_heap w p;
          let (res, w1) = compact_delete_file f w;
          f' \<leftarrow> file_heap w1 p;
          go (cf_previous f') (if res \<noteq> CCASK_OK then CCASK_FAIL else r) w1 }) = Some y"
    moreover have "has_status (case c of None \<Rightarrow> Some (r, w)
      | Some p \<Rightarrow> do {
          f \<leftarrow> file_heap w p;
          let (res, w1) = compact_delete_file f w;
          f' \<leftarrow> file_heap w1 p;
          go (cf_previous f') (if res \<noteq> CCASK_OK then CCASK_FAIL else r) w1 })" if "public_status r"
      by (intro typing go that) (use that in simp_all)
    ultimately show "public_status r \<longrightarrow> public_status (fst y)" by (cases y) (auto dest: has_statusD)
  qed
  with assms show ?thesis by fastforce
qed

lemma ccask_compactor_dump_keydir_status: "has_status (ccask_compactor_dump_keydir w)"
proof -
  have "has_status (compact_delete_from c CCASK_OK u)" for c and u :: "'a keydir_state_scheme"
    using compact_delete_from_status [of c CCASK_OK u] by (auto simp: has_status_def)
  then have pass: "has_status (do { (res, v) \<leftarrow> compact_delete_from c CCASK_OK u;
      if res \<noteq> CCASK_OK then Some (res, v) else Some (CCASK_OK, g v) })"
    for c and g :: "'a keydir_state_scheme \<Rightarrow> 'a keydir_state_scheme" and u :: "'a keydir_state_scheme"
    by (rule has_status_passed) (simp add: typing)
  then show ?thesis
    unfolding ccask_compactor_dump_keydir_def Let_def by (intro pass typing)
qed

section \<open>Properties\<close>


end
