(* ===== verification/Memory.thy ===== *)
theory Memory
  imports Compactor
begin

text \<open>
  The buffers of records on the C heap: \<open>malloc\<close> and \<open>free\<close> in src/records.c and in the operations
  that own records, \<open>ccask_get\<close>, \<open>ccask_put_blocking\<close> and the loop of src/hint.c.  The other theories
  leave the heap out; here every operation carries it along, and is shown to be the operation of the
  other theories when the heap is forgotten.
\<close>

section \<open>The heap\<close>

text \<open>A pointer that was never set, or set to a value that is not known, is \<open>Wild\<close>.\<close>

datatype pointer = Null | Block nat | Wild

record heap =
  heap_live :: "nat set"
  heap_next :: nat

definition heap_ok :: "heap \<Rightarrow> bool" where
  "heap_ok h \<longleftrightarrow> (\<forall>b \<in> heap_live h. b < heap_next h)"

definition c_malloc :: "heap \<Rightarrow> 'a posix_scheme \<Rightarrow> pointer \<times> heap \<times> 'a posix_scheme" where
  "c_malloc h w = (case sys_malloc w of
      (ok, w') \<Rightarrow> if ok then (Block (heap_next h),
                     h\<lparr>heap_live := insert (heap_next h) (heap_live h), heap_next := Suc (heap_next h)\<rparr>, w')
                  else (Null, h, w'))"

text \<open>Freeing a block twice, or a pointer that is not known, is undefined.\<close>

fun c_free :: "pointer \<Rightarrow> heap \<Rightarrow> heap option" where
  "c_free Null h = Some h"
| "c_free (Block b) h = (if b \<in> heap_live h then Some (h\<lparr>heap_live := heap_live h - {b}\<rparr>) else None)"
| "c_free Wild h = None"

section \<open>The buffers of a record\<close>

text \<open>The loop that allocates: the pointers, and how many allocations have succeeded.\<close>

fun malloc_bufs :: "pointer list \<Rightarrow> heap \<Rightarrow> 'a posix_scheme \<Rightarrow> (nat \<times> pointer list) \<times> heap \<times> 'a posix_scheme" where
  "malloc_bufs [] h w = ((0, []), h, w)"
| "malloc_bufs (p # ps) h w = (case c_malloc h w of
      (q, h', w') \<Rightarrow>
        if q = Null then ((0, Null # ps), h', w')
        else (case malloc_bufs ps h' w' of ((i, qs), h'', w'') \<Rightarrow> ((Suc i, q # qs), h'', w'')))"

fun free_bufs :: "pointer list \<Rightarrow> heap \<Rightarrow> heap option" where
  "free_bufs [] h = Some h"
| "free_bufs (p # ps) h = do { h' \<leftarrow> c_free p h; free_bufs ps h' }"

text \<open>
  \<open>ccask_allocate_datafile_record\<close> (three buffers) and \<open>ccask_allocate_hintfile_record\<close> (two): after a
  failure at index \<open>i\<close> the buffers \<open>i\<close> down to 1 are freed, the one at index 0 is not.
\<close>

definition allocate_bufs ::
  "pointer list \<Rightarrow> heap \<Rightarrow> 'a posix_scheme \<Rightarrow> ((ccask_status \<times> pointer list) \<times> heap \<times> 'a posix_scheme) option" where
  "allocate_bufs ps h w = (case malloc_bufs ps h w of
      ((i, qs), h', w') \<Rightarrow>
        if i = length ps then Some ((CCASK_OK, qs), h', w')
        else do {
          h'' \<leftarrow> free_bufs (rev (drop 1 (take (Suc i) qs))) h';
          Some ((CCASK_FAIL, qs), h'', set_errno CCASK_ERR_NO_MEMORY w') })"

definition free_datafile_record :: "pointer list \<Rightarrow> heap \<Rightarrow> heap option" where
  "free_datafile_record r h = do {
     h \<leftarrow> (if r ! 0 \<noteq> Null then c_free (r ! 0) h else Some h);
     h \<leftarrow> (if r ! 1 \<noteq> Null then c_free (r ! 1) h else Some h);
     if r ! 2 \<noteq> Null then c_free (r ! 2) h else Some h }"

definition free_hintfile_record :: "pointer list \<Rightarrow> heap \<Rightarrow> heap option" where
  "free_hintfile_record r h = do {
     h \<leftarrow> (if r ! 0 \<noteq> Null then c_free (r ! 0) h else Some h);
     if r ! 1 \<noteq> Null then c_free (r ! 1) h else Some h }"

text \<open>The record that \<open>ccask_get\<close> fills: only its value is on the heap.\<close>

definition ccask_free_record :: "pointer \<Rightarrow> heap \<Rightarrow> heap option" where
  "ccask_free_record value h = c_free value h"

section \<open>Allocation\<close>

lemma free_if: "(if p \<noteq> Null then c_free p h else Some h) = c_free p h"
  by (cases p) simp_all

lemma free_bufs_fun: "free_bufs [] = Some" "free_bufs (p # ps) = (\<lambda>h. Option.bind (c_free p h) (free_bufs ps))"
  by (simp_all add: fun_eq_iff)

lemma free_record_bufs:
  "free_datafile_record [a, b, c] h = free_bufs [a, b, c] h" "free_hintfile_record [a, b] h = free_bufs [a, b] h"
  by (simp_all only: free_datafile_record_def free_hintfile_record_def free_if free_bufs_fun bind_runit
      nth_Cons_0 nth_Cons_Suc One_nat_def numeral_2_eq_2)

text \<open>Blocks that are live and different can be freed.\<close>

lemma free_blocks:
  assumes "distinct bs" and "set bs \<subseteq> heap_live h"
  shows "free_bufs (map Block bs) h = Some (h\<lparr>heap_live := heap_live h - set bs\<rparr>)"
  using assms
proof (induction bs arbitrary: h)
  case (Cons b bs)
  have "set bs \<subseteq> heap_live (h\<lparr>heap_live := heap_live h - {b}\<rparr>)" using Cons.prems by auto
  then have "free_bufs (map Block bs) (h\<lparr>heap_live := heap_live h - {b}\<rparr>)
      = Some (h\<lparr>heap_live := heap_live h - {b} - set bs\<rparr>)" using Cons.IH Cons.prems(1) by simp
  moreover have "heap_live h - {b} - set bs = heap_live h - set (b # bs)" by auto
  ultimately show ?case using Cons.prems(2) by simp
qed simp

text \<open>The heap after \<open>n\<close> allocations.\<close>

definition heap_after :: "nat \<Rightarrow> heap \<Rightarrow> heap" where
  "heap_after n h = h\<lparr>heap_live := heap_live h \<union> {heap_next h ..< heap_next h + n}, heap_next := heap_next h + n\<rparr>"

lemma malloc_bufs_result:
  assumes "malloc_bufs ps h w = ((i, qs), h', w')"
  shows "i \<le> length ps" and "h' = heap_after i h" and "sys_mallocs (length ps) w = (i = length ps, w')"
    and "qs = map Block [heap_next h ..< heap_next h + i] @ (if i = length ps then [] else Null # drop (Suc i) ps)"
proof -
  have "i \<le> length ps \<and> h' = heap_after i h \<and> sys_mallocs (length ps) w = (i = length ps, w')
      \<and> qs = map Block [heap_next h ..< heap_next h + i] @ (if i = length ps then [] else Null # drop (Suc i) ps)"
    using assms
  proof (induction ps arbitrary: h w i qs)
    case Nil
    then show ?case by (simp add: heap_after_def)
  next
    case (Cons p ps)
    obtain ok u where m: "sys_malloc w = (ok, u)" by fastforce
    show ?case
    proof (cases ok)
      case False
      with Cons.prems m show ?thesis by (auto simp: c_malloc_def heap_after_def)
    next
      case True
      let ?h = "h\<lparr>heap_live := insert (heap_next h) (heap_live h), heap_next := Suc (heap_next h)\<rparr>"
      obtain j rs where j: "malloc_bufs ps ?h u = ((j, rs), h', w')" "i = Suc j" "qs = Block (heap_next h) # rs"
        using Cons.prems m True by (auto simp: c_malloc_def split: prod.splits)
      note IH = Cons.IH [OF j(1)]
      have "insert n {Suc n ..< Suc n + j} = {n ..< n + Suc j}" for n by auto
      then have "heap_after j ?h = heap_after i h"
        by (simp add: heap_after_def j(2) Un_insert_right [symmetric] del: Un_insert_right)
      with IH m True j show ?thesis by (auto simp: upt_conv_Cons simp del: upt_Suc)
    qed
  qed
  then show "i \<le> length ps" "h' = heap_after i h" "sys_mallocs (length ps) w = (i = length ps, w')"
    "qs = map Block [heap_next h ..< heap_next h + i] @ (if i = length ps then [] else Null # drop (Suc i) ps)" by blast+
qed

text \<open>
  An allocation never frees a wrong pointer.  If it fails, it has kept the first buffer, unless that
  was the one that could not be allocated.
\<close>

lemma allocate_bufs_result:
  assumes "heap_ok h"
  obtains i qs h' w' where "i \<le> length ps" and "sys_mallocs (length ps) w = (i = length ps, w')"
    and "allocate_bufs ps h w = Some ((if i = length ps then CCASK_OK else CCASK_FAIL, qs), h',
      if i = length ps then w' else set_errno CCASK_ERR_NO_MEMORY w')"
    and "heap_ok h'" and "heap_next h' = heap_next h + i"
    and "heap_live h' = heap_live h \<union> {heap_next h ..< heap_next h + (if i = length ps then i else min 1 i)}"
    and "qs = map Block [heap_next h ..< heap_next h + i] @ (if i = length ps then [] else Null # drop (Suc i) ps)"
    and "ps \<noteq> [] \<longrightarrow> fst (sys_malloc w) = (i \<noteq> 0)"
proof -
  obtain i qs h1 w' where m: "malloc_bufs ps h w = ((i, qs), h1, w')" by (metis surj_pair)
  note r = malloc_bufs_result [OF m]
  have first: "ps \<noteq> [] \<longrightarrow> fst (sys_malloc w) = (i \<noteq> 0)"
    using m by (cases ps) (auto simp: c_malloc_def split: prod.splits if_splits)
  have fresh: "heap_next h \<notin> heap_live h" "heap_live h \<inter> {heap_next h ..< k} = {}" for k
    using assms by (auto simp: heap_ok_def)
  show thesis
  proof (cases "i = length ps")
    case True
    have "heap_ok h1" using assms by (auto simp: heap_ok_def r(2) heap_after_def)
    with m r True first show thesis by (intro that [of i w' qs h1]) (simp_all add: allocate_bufs_def heap_after_def)
  next
    case False
    let ?bs = "[Suc (heap_next h) ..< heap_next h + i]"
    have take: "take (Suc i) qs = map Block [heap_next h ..< heap_next h + i] @ [Null]" using r(4) False by simp
    have "rev (drop 1 (take (Suc i) qs)) = (if i = 0 then [] else Null # rev (map Block ?bs))"
      unfolding take by (cases i) (simp_all add: upt_conv_Cons del: upt_Suc)
    moreover have sub: "set ?bs \<subseteq> heap_live h1" by (auto simp: r(2) heap_after_def)
    moreover have "free_bufs (Null # rev (map Block ?bs)) h1 = Some (h1\<lparr>heap_live := heap_live h1 - set ?bs\<rparr>)"
      using free_blocks [of "rev ?bs" h1] sub by (simp add: rev_map)
    ultimately have free: "free_bufs (rev (drop 1 (take (Suc i) qs))) h1 = Some (h1\<lparr>heap_live := heap_live h1 - set ?bs\<rparr>)"
      by simp
    have live: "heap_live h1 - set ?bs = heap_live h \<union> {heap_next h ..< heap_next h + min 1 i}"
      using fresh(2) [of "heap_next h + i"] by (auto simp: r(2) heap_after_def)
    have "heap_ok (h1\<lparr>heap_live := heap_live h1 - set ?bs\<rparr>)"
      using assms by (auto simp: heap_ok_def r(2) heap_after_def)
    with m r False free live first show thesis
      by (intro that [of i w' qs "h1\<lparr>heap_live := heap_live h1 - set ?bs\<rparr>"]) (simp_all add: allocate_bufs_def heap_after_def)
  qed
qed

lemma allocate_n:
  assumes "heap_ok h" and "length ps = n"
  obtains i qs h' w' where "i \<le> n" and "sys_mallocs n w = (i = n, w')"
    and "allocate_bufs ps h w = Some ((if i = n then CCASK_OK else CCASK_FAIL, qs), h',
      if i = n then w' else set_errno CCASK_ERR_NO_MEMORY w')"
    and "heap_ok h'" and "heap_next h' = heap_next h + i"
    and "heap_live h' = heap_live h \<union> {heap_next h ..< heap_next h + (if i = n then i else min 1 i)}"
    and "qs = map Block [heap_next h ..< heap_next h + i] @ (if i = n then [] else Null # drop (Suc i) ps)"
    and "ps \<noteq> [] \<longrightarrow> fst (sys_malloc w) = (i \<noteq> 0)"
  by (rule allocate_bufs_result [OF assms(1), where ps = ps and w = w, unfolded assms(2)])

lemma free_three:
  "n \<in> heap_live h \<Longrightarrow> Suc n \<in> heap_live h \<Longrightarrow> Suc (Suc n) \<in> heap_live h \<Longrightarrow>
     free_datafile_record [Block n, Block (Suc n), Block (Suc (Suc n))] h
       = Some (h\<lparr>heap_live := heap_live h - {n, Suc n, Suc (Suc n)}\<rparr>)"
  using free_blocks [of "[n, Suc n, Suc (Suc n)]" h] by (simp add: free_record_bufs(1))

section \<open>Reading a value\<close>

text \<open>\<open>ccask_get\<close> with the heap: the buffers of the record are not freed when the read or the last
  allocation fails.  The second component of the result is the pointer to the value.\<close>

definition ccask_get_heap ::
  "crc_fun \<Rightarrow> byte list \<Rightarrow> u32 \<Rightarrow> ccask_record \<Rightarrow> heap \<Rightarrow> 'a keydir_state_scheme
     \<Rightarrow> ((ccask_status \<times> pointer \<times> ccask_record) \<times> heap \<times> 'a keydir_state_scheme) option" where
  "ccask_get_heap crc32 key ksize record h w = (case ccask_keydir_find key ksize w of
      None \<Rightarrow> Some ((CCASK_OK, Null, record\<lparr>rd_value := None\<rparr>), h, w)
    | Some p \<Rightarrow> do {
        kd \<leftarrow> kd_heap w p;
        ((st, ps), h1, w1) \<leftarrow> allocate_bufs [Wild, Wild, Wild] h w;
        if st \<noteq> CCASK_OK then Some ((CCASK_FAIL, Wild, record), h1, w1)
        else do {
          (res, (df, w2)) \<leftarrow> ccask_attempt_opt 5 CCASK_RETRY
            (\<lambda>(df, u). do {
               ((st, df'), u') \<leftarrow> ccask_read_datafile_record (kd_file_id kd) df (kd_record_pos kd) u;
               Some (st, (df', u')) })
            (\<lparr>rec_header = empty_iov DATAFILE_RECORD_HEADER_SIZE, rec_key = empty_iov (unat (kd_key_size kd)),
              rec_value = empty_iov (unat (kd_value_size kd))\<rparr>, w1);
          if res \<noteq> CCASK_OK then Some ((CCASK_FAIL, Wild, record), h1, w2)
          else
            let header = ccask_get_datafile_record_header df;
                read_key = ccask_get_datafile_record_key df;
                read_value = ccask_get_datafile_record_value df
            in if \<not> (crc_readable (Some read_key) (unat (key_size header))
                     \<and> crc_readable (Some read_value) (unat (value_size header))) then None
               else if calculate_crc32 crc32 (timestamp header) (key_size header) (value_size header)
                        (Some read_key) (Some read_value) \<noteq> crc header
               then do {
                 h2 \<leftarrow> free_datafile_record ps h1;
                 Some ((CCASK_FAIL, Wild, record), h2, set_errno CCASK_ERR_CRC_INVALID w2) }
               else (case c_malloc h1 w2 of
                 (v, h2, w3) \<Rightarrow>
                   if v = Null
                   then Some ((CCASK_FAIL, Null, record\<lparr>rd_value := None\<rparr>), h2, set_errno CCASK_ERR_NO_MEMORY w3)
                   else do {
                     bs \<leftarrow> memcpy_from (Some read_value) (unat (kd_value_size kd));
                     h3 \<leftarrow> free_datafile_record ps h2;
                     Some ((CCASK_OK, v, \<lparr>rd_timestamp = timestamp header, rd_key_size = key_size header,
                       rd_value_size = kd_value_size kd, rd_value = Some bs\<rparr>), h3, w3) }) } })"

text \<open>What a get leaves on the heap.\<close>

definition get_leaves :: "heap \<Rightarrow> ccask_status \<Rightarrow> pointer \<Rightarrow> heap \<Rightarrow> bool" where
  "get_leaves h st v h' \<longleftrightarrow>
     (st = CCASK_OK \<longrightarrow> (\<exists>h''. ccask_free_record v h' = Some h'' \<and> heap_live h'' = heap_live h))
     \<and> (st \<noteq> CCASK_OK \<longrightarrow> (\<exists>n \<in> {0, 1, 3}. heap_live h' = heap_live h \<union> {heap_next h ..< heap_next h + n}))"

lemma ccask_get_heap_result:
  assumes ok: "heap_ok h"
  shows "map_option (\<lambda>((st, v, record), h, w). (st, record, w)) (ccask_get_heap crc32 key ksize record h w)
      = ccask_get crc32 key ksize record w"
    and "ccask_get_heap crc32 key ksize record h w = Some ((st, v, record'), h', w') \<Longrightarrow> get_leaves h st v h'"
proof -
  let ?go = "ccask_get_heap crc32 key ksize record h w"
  have "map_option (\<lambda>((st, v, record), h, w). (st, record, w)) ?go = ccask_get crc32 key ksize record w
    \<and> (\<forall>st v record' h' w'. ?go = Some ((st, v, record'), h', w') \<longrightarrow> get_leaves h st v h')"
  proof (cases "ccask_keydir_find key ksize w")
    case None
    then show ?thesis by (simp add: ccask_get_heap_def ccask_get_def get_leaves_def ccask_free_record_def)
  next
    case find: (Some p)
    show ?thesis
    proof (cases "kd_heap w p")
      case None
      with find show ?thesis by (simp add: ccask_get_heap_def ccask_get_def)
    next
      case kd: (Some kd)
      obtain i qs h1 u where i: "i \<le> 3" and m: "sys_mallocs 3 w = (i = 3, u)"
        and a: "allocate_bufs [Wild, Wild, Wild] h w = Some ((if i = 3 then CCASK_OK else CCASK_FAIL, qs), h1,
          if i = 3 then u else set_errno CCASK_ERR_NO_MEMORY u)"
        and h1: "heap_ok h1" "heap_next h1 = heap_next h + i"
        and live: "heap_live h1 = heap_live h \<union> {heap_next h ..< heap_next h + (if i = 3 then i else min 1 i)}"
        and qs: "qs = map Block [heap_next h ..< heap_next h + i] @ (if i = 3 then [] else Null # drop (Suc i) [Wild, Wild, Wild])"
        by (rule allocate_n [OF ok, where ps = "[Wild, Wild, Wild]" and n = 3 and w = w]) (simp, rule that)
      show ?thesis
      proof (cases "i = 3")
        case False
        have "\<exists>n \<in> {0, 1, 3}. heap_live h1 = heap_live h \<union> {heap_next h ..< heap_next h + n}"
          using live False by (cases i) (auto simp: min_def)
        with False find kd a m show ?thesis
          by (simp add: ccask_get_heap_def ccask_get_def ccask_allocate_datafile_record_def get_leaves_def)
      next
        case True
        let ?n = "heap_next h"
        have ps: "qs = [Block ?n, Block (Suc ?n), Block (Suc (Suc ?n))]" using qs True by (simp add: numeral_3_eq_3)
        have three: "{?n ..< ?n + 3} = {?n, Suc ?n, Suc (Suc ?n)}" by auto
        have live1: "heap_live h1 = heap_live h \<union> {?n, Suc ?n, Suc (Suc ?n)}" using live True three by simp
        have fresh: "heap_live h - {?n, Suc ?n, Suc (Suc ?n)} = heap_live h" using ok by (auto simp: heap_ok_def)
        have a: "allocate_bufs [Wild, Wild, Wild] h w = Some ((CCASK_OK, qs), h1, u)" and m: "sys_mallocs 3 w = (True, u)"
          using a m True by simp_all
        let ?att = "ccask_attempt_opt 5 CCASK_RETRY
            (\<lambda>(df, u). do {
               ((st, df'), u') \<leftarrow> ccask_read_datafile_record (kd_file_id kd) df (kd_record_pos kd) u;
               Some (st, (df', u')) })
            (\<lparr>rec_header = empty_iov DATAFILE_RECORD_HEADER_SIZE, rec_key = empty_iov (unat (kd_key_size kd)),
              rec_value = empty_iov (unat (kd_value_size kd))\<rparr>, u)"
        note defs = ccask_get_heap_def ccask_get_def ccask_allocate_datafile_record_def
        note facts = find kd a m
        show ?thesis
        proof (cases ?att)
          case None
          with facts show ?thesis by (simp add: defs)
        next
          case (Some y)
          obtain res df w2 where att: "?att = Some (res, (df, w2))" using Some by (cases y) auto
          show ?thesis
          proof (cases "res = CCASK_OK")
            case False
            have "get_leaves h CCASK_FAIL Wild h1" using live1 three by (auto simp: get_leaves_def)
            with facts att False show ?thesis by (simp add: defs)
          next
            case True
            let ?hd = "ccask_get_datafile_record_header df" and ?k = "ccask_get_datafile_record_key df"
              and ?v = "ccask_get_datafile_record_value df"
            have att: "?att = Some (CCASK_OK, (df, w2))" using att True by simp
            show ?thesis
            proof (cases "crc_readable (Some ?k) (unat (key_size ?hd)) \<and> crc_readable (Some ?v) (unat (value_size ?hd))")
              case False
              with facts att show ?thesis by (simp add: defs Let_def)
            next
              case readable: True
              let ?free = "h1\<lparr>heap_live := heap_live h1 - {?n, Suc ?n, Suc (Suc ?n)}\<rparr>"
              have free: "free_datafile_record qs h1 = Some ?free" unfolding ps by (rule free_three) (simp_all add: live1)
              have freed: "heap_live ?free = heap_live h" using live1 fresh by auto
              show ?thesis
              proof (cases "calculate_crc32 crc32 (timestamp ?hd) (key_size ?hd) (value_size ?hd) (Some ?k) (Some ?v) = crc ?hd")
                case False
                have "get_leaves h CCASK_FAIL Wild ?free" using freed by (simp add: get_leaves_def)
                with facts att readable False free show ?thesis by (simp add: defs Let_def)
              next
                case crc: True
                obtain got w3 where mv: "sys_malloc w2 = (got, w3)" by fastforce
                show ?thesis
                proof (cases got)
                  case False
                  have "get_leaves h CCASK_FAIL Null h1" using live1 three by (auto simp: get_leaves_def)
                  with facts att readable crc mv False show ?thesis by (simp add: defs Let_def c_malloc_def)
                next
                  case True
                  let ?b = "heap_next h1"
                  obtain h2 where cm: "c_malloc h1 w2 = (Block ?b, h2, w3)" and h2: "heap_live h2 = insert ?b (heap_live h1)"
                    using mv True by (simp add: c_malloc_def)
                  have b: "?b \<notin> heap_live h1" "?b = ?n + 3" using h1 \<open>i = 3\<close> by (auto simp: heap_ok_def)
                  obtain h3 where free3: "free_datafile_record qs h2 = Some h3"
                    and h3: "heap_live h3 = heap_live h2 - {?n, Suc ?n, Suc (Suc ?n)}"
                    using free_three [of ?n h2] unfolding ps by (simp add: live1 h2)
                  have "?b \<notin> {?n, Suc ?n, Suc (Suc ?n)}" unfolding b(2) by simp
                  then have "heap_live h3 = insert ?b (heap_live h1 - {?n, Suc ?n, Suc (Suc ?n)})"
                    unfolding h3 h2 by (simp only: insert_Diff_if if_False)
                  also have "\<dots> = insert ?b (heap_live h)" using freed by simp
                  finally have "heap_live h3 = insert ?b (heap_live h)" .
                  moreover have "?b \<notin> heap_live h" using b(1) live1 by simp
                  ultimately have "get_leaves h CCASK_OK (Block ?b) h3" by (simp add: get_leaves_def ccask_free_record_def)
                  moreover have "ccask_get crc32 key ksize record w = do {
                      bs \<leftarrow> memcpy_from (Some ?v) (unat (kd_value_size kd));
                      Some (CCASK_OK, \<lparr>rd_timestamp = timestamp ?hd, rd_key_size = key_size ?hd,
                        rd_value_size = kd_value_size kd, rd_value = Some bs\<rparr>, w3) }"
                    using facts att readable crc mv True by (simp add: defs Let_def)
                  moreover have "?go = do {
                      bs \<leftarrow> memcpy_from (Some ?v) (unat (kd_value_size kd));
                      Some ((CCASK_OK, Block ?b, \<lparr>rd_timestamp = timestamp ?hd, rd_key_size = key_size ?hd,
                        rd_value_size = kd_value_size kd, rd_value = Some bs\<rparr>), h3, w3) }"
                    using facts att readable crc cm free3 by (simp add: defs Let_def)
                  ultimately show ?thesis
                    by (cases "memcpy_from (Some ?v) (unat (kd_value_size kd))") simp_all
                qed
              qed
            qed
          qed
        qed
      qed
    qed
  qed
  then show "map_option (\<lambda>((st, v, record), h, w). (st, record, w)) ?go = ccask_get crc32 key ksize record w"
    and "?go = Some ((st, v, record'), h', w') \<Longrightarrow> get_leaves h st v h'" by blast+
qed

section \<open>The loop of the hintfile generator\<close>

text \<open>
  A round of the loop in src/hint.c, with the buffers \<open>rs\<close> that the iterator has allocated for the
  record and what the variable \<open>hint_record\<close> still holds from the round before.
\<close>

definition hint_round_heap ::
  "int \<Rightarrow> datafile_record \<times> u64 \<Rightarrow> pointer list \<Rightarrow> pointer list \<Rightarrow> heap \<Rightarrow> 'a posix_scheme
     \<Rightarrow> ((bool \<times> pointer list) \<times> heap \<times> 'a posix_scheme) option" where
  "hint_round_heap hintfile_fd r rs old h w =
     (let header = ccask_get_datafile_record_header (fst r);
          key = ccask_get_datafile_record_key (fst r)
      in do {
        ((st, hs), h1, w1) \<leftarrow> allocate_bufs old h w;
        (ok, w2) \<leftarrow> (if st \<noteq> CCASK_OK then Some (False, w1)
          else do {
            ((_, hr), _) \<leftarrow> ccask_create_hintfile_record (timestamp header) (key_size header) (value_size header) (snd r) key w;
            (res, w2) \<leftarrow> safe_writev hintfile_fd (hintfile_record_iov hr) w1;
            Some (res = CCASK_OK, w2) });
        h2 \<leftarrow> free_datafile_record rs h1;
        h3 \<leftarrow> free_hintfile_record hs h2;
        Some ((ok, hs), h3, w2) })"

text \<open>Not initialised, or freed.\<close>

definition stale :: "heap \<Rightarrow> pointer \<Rightarrow> bool" where
  "stale h p \<longleftrightarrow> p = Wild \<or> (\<exists>b. p = Block b \<and> b < heap_next h \<and> b \<notin> heap_live h)"

lemma stale_free: "stale h p \<Longrightarrow> c_free p (h'\<lparr>heap_live := S\<rparr>) = None" if "S \<subseteq> heap_live h"
  using that by (auto simp: stale_def)

lemma hint_round_result:
  assumes ok: "heap_ok h" and rs: "rs = map Block [a, b, c]" "distinct [a, b, c]" "{a, b, c} \<subseteq> heap_live h"
    and hs: "old = [p, q]" "stale h p" "stale h q"
  shows "map_option (\<lambda>((b, hs), h, w). (b, w)) (hint_round_heap fd r rs old h w) = hint_body fd r w"
    and "hint_round_heap fd r rs old h w = Some ((good, hs'), h', w') \<Longrightarrow>
      heap_ok h' \<and> heap_live h' = heap_live h - {a, b, c} \<and> (good \<longrightarrow> (\<forall>p \<in> set hs'. stale h' p) \<and> length hs' = 2)"
proof -
  let ?go = "hint_round_heap fd r rs old h w" and ?n = "heap_next h" and ?D = "{a, b, c}"
  let ?Q = "\<lambda>good hs' h'. heap_ok h' \<and> heap_live h' = heap_live h - ?D \<and> (good \<longrightarrow> (\<forall>p \<in> set hs'. stale h' p) \<and> length hs' = 2)"
  obtain i qs h1 u where i: "i \<le> 2" and m: "sys_mallocs 2 w = (i = 2, u)"
    and al: "allocate_bufs [p, q] h w = Some ((if i = 2 then CCASK_OK else CCASK_FAIL, qs), h1,
      if i = 2 then u else set_errno CCASK_ERR_NO_MEMORY u)"
    and h1: "heap_ok h1" "heap_next h1 = ?n + i"
    and live: "heap_live h1 = heap_live h \<union> {?n ..< ?n + (if i = 2 then i else min 1 i)}"
    and qs: "qs = map Block [?n ..< ?n + i] @ (if i = 2 then [] else Null # drop (Suc i) [p, q])"
    and first: "[p, q] \<noteq> [] \<longrightarrow> fst (sys_malloc w) = (i \<noteq> 0)"
    by (rule allocate_n [OF ok, where ps = "[p, q]" and n = 2 and w = w]) (simp, rule that)
  have below: "?n \<notin> heap_live h" "Suc ?n \<notin> heap_live h" using ok by (auto simp: heap_ok_def)
  let ?h2 = "h1\<lparr>heap_live := heap_live h1 - ?D\<rparr>"
  have free: "free_datafile_record rs h1 = Some ?h2"
    using free_blocks [of "[a, b, c]" h1] rs live by (auto simp: free_record_bufs(1))
  have "map_option (\<lambda>((b, hs), h, w). (b, w)) ?go = hint_body fd r w
    \<and> (\<forall>good hs' h' w'. ?go = Some ((good, hs'), h', w') \<longrightarrow> ?Q good hs' h')"
  proof -
    consider "i = 0" | "i = 1" | "i = 2" using i by fastforce
    then show ?thesis
    proof cases
      case 1
      have "free_hintfile_record qs ?h2 = None"
        using qs 1 stale_free [OF Diff_subset, of h q ?D h1] live hs(3) by (simp add: free_record_bufs(2))
      then have "?go = None" using al free 1 by (simp add: hint_round_heap_def hs(1) Let_def)
      moreover have "hint_body fd r w = None"
        using m first 1 by (simp add: hint_body_def ccask_create_hintfile_record_def ccask_allocate_hintfile_record_def Let_def)
      ultimately show ?thesis by simp
    next
      case 2
      have n: "?n \<notin> ?D" using below rs(3) by auto
      obtain h3 where h3: "h3 = h1\<lparr>heap_live := heap_live h1 - ?D - {?n}\<rparr>" by blast
      have "free_hintfile_record qs ?h2 = Some h3"
        using qs 2 live n by (simp add: free_record_bufs(2) h3)
      then have "?go = Some ((False, qs), h3, set_errno CCASK_ERR_NO_MEMORY u)"
        using al free 2 by (simp add: hint_round_heap_def hs(1) Let_def)
      moreover have "hint_body fd r w = Some (False, set_errno CCASK_ERR_NO_MEMORY u)"
        using m first 2 by (simp add: hint_body_def ccask_create_hintfile_record_def ccask_allocate_hintfile_record_def Let_def)
      moreover have "?Q False qs h3" using h1 live below 2 unfolding h3 by (auto simp: heap_ok_def)
      ultimately show ?thesis by simp
    next
      case 3
      obtain h3 where h3: "h3 = h1\<lparr>heap_live := heap_live h1 - ?D - {?n, Suc ?n}\<rparr>" by blast
      have n: "?n \<notin> ?D" "Suc ?n \<notin> ?D" using below rs(3) by auto
      have two: "qs = [Block ?n, Block (Suc ?n)]" using qs 3 by (simp add: numeral_2_eq_2)
      have "{?n ..< ?n + 2} = {?n, Suc ?n}" by auto
      then have live2: "heap_live h1 = heap_live h \<union> {?n, Suc ?n}" using live 3 by simp
      have freed: "free_hintfile_record qs ?h2 = Some h3"
        using free_blocks [of "[?n, Suc ?n]" ?h2] n by (simp add: two free_record_bufs(2) live2 h3)
      have Q: "?Q good qs h3" for good
        using h1 live2 below 3 unfolding h3 by (auto simp: heap_ok_def two stale_def)
      have al: "allocate_bufs [p, q] h w = Some ((CCASK_OK, qs), h1, u)" and m: "sys_mallocs 2 w = (True, u)"
        using al m 3 by simp_all
      let ?hd = "ccask_get_datafile_record_header (fst r)" and ?k = "ccask_get_datafile_record_key (fst r)"
      let ?c = "ccask_create_hintfile_record (timestamp ?hd) (key_size ?hd) (value_size ?hd) (snd r) ?k w"
      show ?thesis
      proof (cases ?c)
        case None
        then show ?thesis using al by (simp add: hint_round_heap_def hint_body_def hs(1) Let_def)
      next
        case (Some y)
        then obtain hr where c: "?c = Some ((CCASK_OK, hr), u)"
          using m by (auto simp: ccask_create_hintfile_record_def ccask_allocate_hintfile_record_def Let_def bind_eq_Some_conv)
        show ?thesis
        proof (cases "safe_writev fd (hintfile_record_iov hr) u")
          case None
          with c al show ?thesis by (simp add: hint_round_heap_def hint_body_def hs(1) Let_def)
        next
          case (Some z)
          obtain res v where "z = (res, v)" by fastforce
          with Some c have "hint_body fd r w = Some (res = CCASK_OK, v)" by (simp add: hint_body_def Let_def)
          moreover have "?go = Some ((res = CCASK_OK, qs), h3, v)"
            using Some \<open>z = (res, v)\<close> c al free freed by (simp add: hint_round_heap_def hs(1) Let_def)
          ultimately show ?thesis using Q by simp
        qed
      qed
    qed
  qed
  then show "map_option (\<lambda>((b, hs), h, w). (b, w)) ?go = hint_body fd r w"
    and "?go = Some ((good, hs'), h', w') \<Longrightarrow> ?Q good hs' h'" by blast+
qed

section \<open>Properties\<close>

text \<open>
  C34: the buffers of a get.  With the heap carried along, \<open>ccask_get\<close> is the \<open>ccask_get\<close> of the store: it
  never frees a pointer twice.  What it returns with CCASK_OK is exactly one new block, or none for a
  missing key, which \<open>ccask_free_record\<close> gives back; when it fails it has lost no block, one (the header
  of a record whose other buffers could not be allocated) or all three of the record.
\<close>

theorem get_buffers:
  assumes "heap_ok h"
  shows "map_option (\<lambda>((st, v, record), h, w). (st, record, w)) (ccask_get_heap crc32 key ksize record h w)
      = ccask_get crc32 key ksize record w
    \<and> (\<forall>st v record' h' w'. ccask_get_heap crc32 key ksize record h w = Some ((st, v, record'), h', w')
         \<longrightarrow> get_leaves h st v h')"
  using ccask_get_heap_result [OF assms] by blast

text \<open>A read that fails loses all three buffers.\<close>

definition demo_unreadable :: "unit keydir_state_scheme" where
  "demo_unreadable = (demo_full (\<lambda>c b. c + 1) ())\<lparr>fault_script := [NoFault, NoFault, NoFault, Fault EIO]\<rparr>"

lemma demo_unreadable_get:
  "\<exists>v w'. ccask_get_heap (\<lambda>c b. c + 1) [1, 2] 2 blank_record \<lparr>heap_live = {}, heap_next = 0\<rparr> demo_unreadable
    = Some ((CCASK_FAIL, v, blank_record), \<lparr>heap_live = {0, 1, 2}, heap_next = 3\<rparr>, w')"
proof -
  let ?w1 = "demo_unreadable\<lparr>fault_script := [Fault EIO]\<rparr>"
  have find: "ccask_keydir_find [1, 2] 2 demo_unreadable = Some 0"
    using ut.lookup_insert [of None "[1, 2]" "0 :: nat"] by (simp add: ccask_keydir_find_def demo_unreadable_def)
  have kd: "kd_heap demo_unreadable 0 = Some demo_record" by (simp add: demo_unreadable_def)
  have a: "allocate_bufs [Wild, Wild, Wild] \<lparr>heap_live = {}, heap_next = 0\<rparr> demo_unreadable
      = Some ((CCASK_OK, [Block 0, Block 1, Block 2]), \<lparr>heap_live = {0, 1, 2}, heap_next = 3\<rparr>, ?w1)"
    by (auto simp: allocate_bufs_def c_malloc_def sys_malloc_def next_fault_def demo_unreadable_def)
  have "files_rep ?w1 [0]" using demo_full_inv [of "\<lambda>c b. c + 1" "()"] by (simp add: demo_unreadable_def store_inv_def files_ok_def files_rep_def files_list_def)
  then have node: "ccask_files_get_file 0 ?w1 = Some 0"
    using ccask_files_get_file_iff [of ?w1 "[0]" 0 0] by (simp add: demo_unreadable_def demo_full_def)
  have heap: "file_heap ?w1 = [0 \<mapsto> demo_node]" by (simp add: demo_unreadable_def demo_full_def)
  let ?df = "\<lparr>rec_header = empty_iov DATAFILE_RECORD_HEADER_SIZE, rec_key = empty_iov 2,
    rec_value = empty_iov (Suc 0)\<rparr>"
  have "\<exists>n w2. safe_preadv (cf_fd demo_node) (map iov_len (datafile_record_iov ?df)) 0 ?w1 = ((CCASK_FAIL, n), w2)
      \<and> file_heap w2 = [0 \<mapsto> demo_node]"
    using heap
    by (simp add: safe_preadv_def safe_preadv_loop.simps sys_pread_def next_fault_def datafile_record_iov_def empty_iov_def
        DATAFILE_RECORD_HEADER_SIZE_def retry_errno_def iov_total_len_def set_errno_def)
  then obtain n w2 where "safe_preadv (cf_fd demo_node) (map iov_len (datafile_record_iov ?df)) 0 ?w1 = ((CCASK_FAIL, n), w2)"
    "file_heap w2 = [0 \<mapsto> demo_node]" by blast
  then have "\<exists>df w3. ccask_read_datafile_record 0 ?df 0 ?w1 = Some ((CCASK_FAIL, df), w3)"
    using node heap by (simp add: ccask_read_datafile_record_def reader_open_file_def write_file_def demo_node_def set_errno_def)
  then obtain df w3 where rd: "ccask_read_datafile_record 0 ?df 0 ?w1 = Some ((CCASK_FAIL, df), w3)" by blast
  have "ccask_attempt_opt 5 CCASK_RETRY
      (\<lambda>(df, u). do { ((st, df'), u') \<leftarrow> ccask_read_datafile_record 0 df 0 u; Some (st, (df', u')) }) (?df, ?w1)
      = Some (CCASK_FAIL, (df, w3))"
    by (intro ccask_attempt_opt_done) (simp_all add: rd)
  then show ?thesis by (simp add: ccask_get_heap_def find kd a demo_record_def)
qed

theorem get_buffers_witness:
  "\<exists>w. ccask_get (\<lambda>c b. c + 1) [1, 2] 2 blank_record demo_unreadable = Some (CCASK_FAIL, blank_record, w)"
proof -
  have "heap_ok \<lparr>heap_live = {}, heap_next = 0\<rparr>" by (simp add: heap_ok_def)
  from get_buffers [OF this, of "\<lambda>c b. c + 1" "[1, 2]" 2 blank_record demo_unreadable] demo_unreadable_get
  show ?thesis by (auto simp: eq_commute)
qed



end
