(* ===== verification/Program.thy ===== *)
theory Program
  imports Compaction
begin

text \<open>
  The example program, src/bin/src/main.c: it starts the store in a fixed directory, compacts it and
  shuts it down.
\<close>

definition main_options :: ccask_options where
  "main_options = \<lparr>opt_data_dir = ''../test_data'', opt_writer_ringbuf_capacity = 10, opt_datafile_rotate_threshold = 60\<rparr>"

text \<open>The result is the exit code; what the compaction returns is ignored.\<close>

definition main_exit :: "'a store_state_scheme \<Rightarrow> (int \<times> 'a store_state_scheme) option" where
  "main_exit w = do { w' \<leftarrow> ccask_shutdown w; Some (0, w') }"

definition ccask_main :: "'a store_state_scheme \<Rightarrow> (int \<times> 'a store_state_scheme) option" where
  "ccask_main w = do {
     (res, w1) \<leftarrow> ccask_init main_options w;
     if status_code res \<noteq> 0 then Some (- 1, w1)
     else do {
       (res, w2) \<leftarrow> ccask_compactor_dump_keydir w1;
       main_exit w2 } }"

section \<open>Shutting down an idle store\<close>

lemma hint_join_idle: "hint_pending w = [] \<Longrightarrow> hint_join_all ps w = Some w"
  by (induction ps) simp_all

lemma idle_cong:
  assumes "idle w" and "hint_pending w' = hint_pending w" and "kd_readers w' = kd_readers w"
    and "keydir_state.more w' = keydir_state.more w"
  shows "idle w'"
  using assms more_ring [OF assms(4)] by (simp add: idle_def)

lemma writer_stop_idle:
  assumes "idle w"
  shows "ccask_writer_stop w = Some (w\<lparr>wr_ringbuf := None, wr_thread := False\<rparr>)"
proof -
  obtain rb where rb: "wr_ringbuf w = Some rb" "ring_inv rb" "\<not> rb_locked rb" "ring_contents rb = []"
    using assms by (auto simp: idle_def)
  let ?rb = "rb\<lparr>rb_shutdown := True\<rparr>"
  have "ring_inv ?rb" "ring_contents ?rb = []"
    using rb by (simp_all add: ring_inv_def ring_contents_def ring_count_def)
  then have "writer_thread_main (w\<lparr>wr_ringbuf := Some ?rb\<rparr>) = Some (w\<lparr>wr_ringbuf := Some ?rb\<rparr>)"
    by (intro drained_stops [of _ ?rb]) (use rb in simp_all)
  with rb show ?thesis by (simp add: ccask_writer_stop_def ccask_writer_ringbuf_start_shutdown_def
      ccask_writer_ringbuf_destroy_def)
qed

lemma shutdown_idle:
  fixes w :: "'a store_state_scheme"
  assumes "idle w" and "files_rep w ps" and "posix_inv w"
  obtains w' where "ccask_shutdown w = Some w'" and "dir_entries w' = dir_entries w" and "inode_data w' = inode_data w"
    and "posix_inv w'" and "fault_script w' = fault_script w"
proof -
  let ?w0 = "w\<lparr>is_shutting_down := True\<rparr>"
  let ?w1 = "?w0\<lparr>wr_ringbuf := None, wr_thread := False\<rparr>"
  have i0: "idle ?w0" using assms(1) by (simp add: idle_def)
  then have pend: "hint_pending ?w0 = []" and rd: "kd_readers ?w1 = 0" by (simp_all add: idle_def)
  note join = hint_join_idle [OF pend]
  note stop = writer_stop_idle [OF i0]
  obtain t h where kd: "ccask_keydir_shutdown ?w1 = Some (?w1\<lparr>kd_table := t, kd_heap := h\<rparr>)"
    by (rule ccask_keydir_shutdown_result [OF rd])
  let ?w2 = "?w1\<lparr>kd_table := t, kd_heap := h\<rparr>"
  have "same_files w ?w2" by (simp add: same_files_def)
  then have rep: "files_rep ?w2 ps" using assms(2) same_files_rep by blast
  obtain w' where w': "ccask_files_shutdown ?w2 = Some w'" "disk_same ?w2 w'"
    by (rule ccask_files_shutdown_result [OF rep])
  have run: "ccask_shutdown w = Some w'"
    unfolding ccask_shutdown_def ccask_hintfile_generator_shutdown_def using join stop kd w'(1) by simp
  have "posix_inv ?w2 = posix_inv w" by (rule posix_inv_names) simp_all
  then show thesis using that [OF run] w'(2) assms(3) by (simp add: disk_same_def)
qed

section \<open>The program on a directory of the store\<close>

text \<open>What a run needs: a directory of logs with identifiers to spare, and a process without faults.\<close>

definition main_ready :: "crc_fun \<Rightarrow> (u64 \<Rightarrow> entry list) \<Rightarrow> 'a store_state_scheme \<Rightarrow> bool" where
  "main_ready crc32 L v \<longleftrightarrow> fresh_process v \<and> log_dir crc32 ''../test_data'' L v
     \<and> (\<forall>i. map_of (dir_entries v) (data_path ''../test_data'' i) \<noteq> None \<longrightarrow> unat i + 2 < 2 ^ 31)
     \<and> (\<forall>i. map_of (dir_entries v) (temp_path ''../test_data'' i) = None)
     \<and> card (dom (log_map (logs L) Map.empty)) + 2 < 2 ^ 31"

lemma main_options_ok: "options_ok main_options"
  by (simp add: options_ok_def main_options_def RECORD_SLOT_SIZE_def)

lemma ccask_main_result:
  fixes v :: "'a store_state_scheme"
  assumes "main_ready crc32 L v"
  obtains v' T where "ccask_main v = Some (0, v')" and "log_dir crc32 ''../test_data'' T v'"
    and "log_map (logs T) Map.empty = log_map (logs L) Map.empty" and "distinct (map ent_key (logs T))" and "posix_inv v'"
    and "\<And>i. map_of (dir_entries v') (data_path ''../test_data'' i) \<noteq> None \<Longrightarrow> unat i + 2 < 2 ^ 31"
    and "\<And>i. map_of (dir_entries v') (temp_path ''../test_data'' i) = None"
proof -
  have dir: "opt_data_dir main_options = ''../test_data''" by (simp add: main_options_def)
  have proc: "fresh_process v" and disk: "log_dir crc32 (opt_data_dir main_options) L v"
    and room: "\<And>i. map_of (dir_entries v) (data_path (opt_data_dir main_options) i) \<noteq> None \<Longrightarrow> unat i + 2 < 2 ^ 31"
    and none: "\<And>i. map_of (dir_entries v) (temp_path ''../test_data'' i) = None"
    and keys: "card (dom (log_map (logs L) Map.empty)) + 2 < 2 ^ 31"
    using assms by (simp_all add: main_ready_def dir)
  obtain w where init: "ccask_init main_options v = Some (CCASK_OK, w)" and dur: "durable crc32 L w" and calm: "calm w"
    and abs: "store_abs w = (log_map (logs L) Map.empty, [])" and idle: "idle w" and dw: "data_dir w = opt_data_dir main_options"
    and keep: "\<And>q. q \<notin> range (data_path (opt_data_dir main_options)) \<Longrightarrow> map_of (dir_entries w) q = map_of (dir_entries v) q"
    by (rule init_durable_idle [OF proc disk main_options_ok room]) (assumption | rule that)+
  have m: "store_map w = log_map (logs L) Map.empty" using abs by (simp add: store_abs_def)
  have d: "data_dir w = ''../test_data''" using dw dir by simp
  have "temp_path ''../test_data'' i \<notin> range (data_path ''../test_data'')" for i
    by (auto simp: temp_path_def data_path_def ext_path_inj)
  then have "may_compact w"
    using calm keep none keys unfolding may_compact_def m d dir by (simp add: calm_def)
  then obtain u T ps where comp: "ccask_compactor_dump_keydir w = Some (CCASK_OK, u)" and du: "log_dir crc32 (data_dir w) T u"
    and map: "log_map (logs T) Map.empty = store_map w" "distinct (map ent_key (logs T))" and inv: "posix_inv u"
    and roomu: "\<And>i. map_of (dir_entries u) (data_path (data_dir w) i) \<noteq> None \<Longrightarrow> unat i + 2 < 2 ^ 31"
    and rep: "files_rep u ps" and same: "hint_pending u = hint_pending w" and nf: "fault_script u = []"
    and rd: "kd_readers u = kd_readers w" and more: "keydir_state.more u = keydir_state.more w"
    and tempu: "\<And>i. map_of (dir_entries u) (temp_path (data_dir w) i) = None"
    by (rule compaction_result [OF dur]) (rule that; assumption)
  obtain v' where stop: "ccask_shutdown u = Some v'" and disk': "dir_entries v' = dir_entries u" "inode_data v' = inode_data u"
    and inv': "posix_inv v'" and "fault_script v' = fault_script u"
    by (rule shutdown_idle [OF idle_cong [OF idle same rd more] rep inv])
  have run: "ccask_main v = Some (0, v')" using init comp stop by (simp add: ccask_main_def main_exit_def)
  have ld: "log_dir crc32 ''../test_data'' T v'" using du d log_dir_cong [OF disk'] by simp
  show thesis
    by (rule that [OF run ld _ map(2) inv']) (use map m roomu tempu in \<open>simp_all add: disk' d\<close>)
qed

section \<open>Properties\<close>

text \<open>
  C10: the example program is harmless.  Without faults, on a directory of the store without leftovers
  of an earlier compaction, it returns 0; the datafiles it leaves spell the same map, every key occurs
  once in them, and the program can be run on them again.
\<close>

theorem main_keeps_map:
  assumes "main_ready crc32 L v"
  shows "\<exists>v' T. ccask_main v = Some (0, v') \<and> log_map (logs T) Map.empty = log_map (logs L) Map.empty
    \<and> distinct (map ent_key (logs T)) \<and> main_ready crc32 T (next_process v')"
proof -
  obtain v' T where run: "ccask_main v = Some (0, v')" and disk: "log_dir crc32 ''../test_data'' T v'"
    and map: "log_map (logs T) Map.empty = log_map (logs L) Map.empty" "distinct (map ent_key (logs T))" and inv: "posix_inv v'"
    and room: "\<And>i. map_of (dir_entries v') (data_path ''../test_data'' i) \<noteq> None \<Longrightarrow> unat i + 2 < 2 ^ 31"
    and none: "\<And>i. map_of (dir_entries v') (temp_path ''../test_data'' i) = None"
    by (rule ccask_main_result [OF assms]) (rule that; assumption)
  note f = next_process_fresh [OF inv]
  have "log_dir crc32 ''../test_data'' T (next_process v')" using disk log_dir_cong [OF f(2,3)] by simp
  then have "main_ready crc32 T (next_process v')"
    using f assms room none by (simp add: main_ready_def map(1))
  with run map show ?thesis by blast
qed

text \<open>A directory with one datafile of one record.\<close>

definition test_store :: store_state where
  "test_store = next_process (boot_store\<lparr>dir_entries := [(data_path ''../test_data'' 0, Regular 0)]\<rparr>)"

lemma test_store_ready: "main_ready (\<lambda>c b. c + 1) (\<lambda>i. if i = 0 then [boot_entry] else []) test_store"
proof -
  let ?dir = "''../test_data''" and ?L = "\<lambda>i :: u64. if i = 0 then [boot_entry] else []"
  have dir: "dir_entries test_store = [(data_path ?dir 0, Regular 0)]" by (simp add: test_store_def next_process_def)
  have data: "inode_data test_store 0 = encode_log [boot_entry]"
    by (simp add: test_store_def next_process_def boot_store_def demo_keydir_def)
  have "fresh_process test_store"
    unfolding test_store_def
    by (rule next_process_fresh) (simp add: boot_store_def demo_keydir_def demo_files_def posix_inv_def)
  moreover have "clean_dir ?dir test_store"
  proof -
    have "CHR ''/'' \<notin> set (decimal 0)" using decimal_digits digit_char_cases(5) by blast
    then have "drop 2 (dir_names test_store (dir_prefix ?dir)) = [decimal (unat (0 :: u64)) @ ''.data'']"
      by (simp add: dir dir_names_def dir_prefix_def data_path_def ext_path_def filepath_text_def ext_chars_def)
    moreover have "named_file ?dir test_store (decimal (unat (0 :: u64)) @ ''.data'') 0 FILE_DATA"
      by (simp add: named_file_def dir ext_chars_def data_path_def)
    ultimately show ?thesis unfolding clean_dir_def by auto
  qed
  moreover have "bytes_at test_store (data_path ?dir i) = encode_log (?L i)" for i
    using data by (simp add: bytes_at_def lookup_inode_def dir data_path_inj)
  moreover have "map_of (dir_entries test_store) (hint_path ?dir i) = None" for i
    by (simp add: dir hint_path_data_path)
  moreover have there: "map_of (dir_entries test_store) (data_path ?dir i) \<noteq> None \<longleftrightarrow> i = 0" for i
    by (auto simp: dir data_path_inj)
  moreover have "map_of (dir_entries test_store) (temp_path ?dir i) = None" for i
    by (simp add: dir temp_path_def data_path_def ext_path_inj)
  moreover have "hintable boot_entry" by (simp add: hintable_def boot_entry_facts)
  moreover have "logs ?L = [boot_entry]" by (simp add: logs_def)
  ultimately show ?thesis by (simp add: main_ready_def log_dir_def boot_entry_facts)
qed

theorem main_keeps_map_witness:
  "\<exists>v' T. ccask_main test_store = Some (0, v') \<and> log_map (logs T) Map.empty = [[1, 2] \<mapsto> (7, [3])]
    \<and> main_ready (\<lambda>c b. c + 1) T (next_process v')"
proof -
  let ?L = "\<lambda>i :: u64. if i = 0 then [boot_entry] else []"
  have "logs ?L = [boot_entry]" by (simp add: logs_def)
  then have "log_map (logs ?L) Map.empty = [[1, 2] \<mapsto> (7, [3])]" by (simp add: boot_entry_facts)
  with main_keeps_map [OF test_store_ready] show ?thesis by auto
qed

end
