(* ===== verification/Spec2Isabelle.thy ===== *)
theory Spec2Isabelle
  imports Encoding SafeIO VectorIO Records Uthash FileList Files Scan Iterator Keydir Reader Ringbuf Appending Hint Writer Core System Startup Durable Shutdown Compactor Compaction Listing Interface Memory Program
begin

text \<open>
  A verification development for ccask, a log-structured key-value store in the style of Bitcask.

  Values live in append-only datafiles \<open><id>.data\<close>; an in-memory directory maps every key to the file
  and position of its newest record.  A full active datafile is rotated away, and a background thread
  then lists its records in a hintfile \<open><id>.hint\<close>, from which the directory is recovered faster.
  Puts go through a ring buffer to a writer thread, or block and write themselves.  Descriptors of
  old files are opened on demand and closed by invalidator threads when they are idle.  A compaction
  copies the live records to temporary files that replace the datafiles.

  Theories and the code they model

  \<^item> \<open>Prelude\<close>: include/ccask/status.h, the status and error codes and the retry macro CCASK_ATTEMPT;
    the theorem collections; generic lemmas.
  \<^item> \<open>Posix\<close>: the C library and system calls of the sources (malloc, open, close, lseek, writev,
    preadv, pread, unlink, rename, access, opendir, stat, pthread_create, time) over a record \<open>posix\<close>
    of directory entries, file contents, descriptors, a clock, errno of the store and a fault script.
  \<^item> \<open>Encoding\<close>: src/utils.c, big-endian integers, checksum, file names.  zlib's crc32 is a parameter.
  \<^item> \<open>SafeIO\<close>: src/utils.c, \<open>safe_writev\<close>, \<open>safe_preadv\<close>, \<open>safe_pread\<close>.
  \<^item> \<open>VectorIO\<close>: src/utils.c, \<open>safe_readv\<close> and \<open>safe_pwritev\<close>, which nothing calls yet.
  \<^item> \<open>Records\<close>: src/records.c and records.h, data and hint records as arrays of \<open>iovec\<close>; \<open>entry\<close> is
    the abstract record and \<open>encode_entry\<close> its bytes.
  \<^item> \<open>Uthash\<close>: the macros of vendor/uthash/uthash.h that the sources expand.  Locale \<open>keyed_table\<close>.
  \<^item> \<open>FileList\<close>, \<open>Files\<close>: src/files.c, the doubly linked list and hash table of datafiles (record
    \<open>files_state\<close>, which extends \<open>posix\<close>), scan at start, opening, rotation, deletion, renaming.
  \<^item> \<open>Iterator\<close>: src/iterator.c, the two record iterators.  Locale \<open>record_log\<close>: at a record boundary
    \<open>next\<close> returns the record and advances; interpreted for datafiles and for hintfiles.
  \<^item> \<open>Keydir\<close>: src/keydir.c, the directory (record \<open>keydir_state\<close>, extends \<open>files_state\<close>), its lock,
    iterator and recovery.  Locale \<open>key_directory\<close>: what writer and recovery rely on.
  \<^item> \<open>Reader\<close>: src/reader.c, positioned reads and the descriptor invalidator.
  \<^item> \<open>Ringbuf\<close>: src/writer_ringbuf.c, the bounded queue.  Locale \<open>bounded_queue\<close>.
  \<^item> \<open>Appending\<close>: the shared effect of a \<open>safe_writev\<close> on the file behind its descriptor.
  \<^item> \<open>Hint\<close>: src/hint.c, the hintfile generator threads.
  \<^item> \<open>Writer\<close>: src/writer.c, \<open>ccask_write_record_blocking\<close> and the writer thread (record
    \<open>writer_state\<close>, extends \<open>keydir_state\<close>).
  \<^item> \<open>Core\<close>: src/core.c, the public operations (record \<open>store_state\<close>, extends \<open>writer_state\<close>).
  \<^item> \<open>System\<close>: the public operations and the threads as one step relation \<open>store_step\<close>, and its
    specification \<open>spec_step\<close>, a map with a queue of accepted puts.  Locale \<open>forward_simulation\<close>.
  \<^item> \<open>Scan\<close>, \<open>Startup\<close>: what \<open>ccask_files_init\<close> and \<open>ccask_init\<close> make of a directory of logs.
  \<^item> \<open>Durable\<close>: what is on disk while the store runs without faults (invariant \<open>durable\<close>), and that
    the next start recovers exactly the map of the run.
  \<^item> \<open>Shutdown\<close>: \<open>ccask_shutdown\<close> returns and writes every accepted put.
  \<^item> \<open>Compactor\<close>: src/compactor.c.  \<open>Compaction\<close>: what is on disk after a compaction without faults.
  \<^item> \<open>Listing\<close>: the key iterator in the loop of a client.  \<open>Interface\<close>: which status codes the public
    operations return, with typing rules for programs in the option monad.
  \<^item> \<open>Memory\<close>: \<open>malloc\<close> and \<open>free\<close> of record buffers in src/records.c, in \<open>ccask_get\<close> and in the loop of
    src/hint.c, as operations that carry a heap of live blocks along and refine the ones without.
  \<^item> \<open>Program\<close>: bin/src/main.c, which starts, compacts and shuts down a store.

  Conventions

  The global state of each C file is a record that extends the record of the files it calls, so a
  function of a lower layer runs unchanged on the state of every higher one (the record's \<open>more\<close>).
  Pointers to nodes are addresses in an explicit heap (\<open>file_heap\<close>, \<open>kd_heap\<close>), because the list and
  the hash table share and mutate them.  A C function that returns for every state is a HOL function;
  one that may loop for ever, wait for a lock for ever, exit or be undefined has a result in
  \<open>option\<close>, and \<open>None\<close> says that it does not return.  Loops that may not end are \<open>partial_function\<close>s,
  so there is no fuel: that such a loop returns is a theorem of its own.  The loops of the fault
  handling end because the fault script is a finite list of arbitrary length: every call that can
  fail takes the next entry (no fault, an errno, or a short transfer), and an empty script means that
  nothing fails any more.  A theorem without a hypothesis on \<open>fault_script\<close> holds for every finite
  sequence of failures; a theorem with \<open>fault_script w = []\<close> says what happens when nothing fails.
  Identifiers, sizes and positions keep their C widths (\<open>u32\<close>, \<open>u64\<close>); a position is compared as the
  \<open>off_t\<close> that lseek gives, and \<open>max_file_size\<close> bounds the size of a file as the system does.

  What the lemmas show

  Each layer has an invariant and a frame.  \<open>posix_inv\<close>: descriptors and directory entries are
  consistent.  \<open>uthash_inv\<close>: chains, order and counters of the hash table agree.  \<open>files_rep w ps\<close>: the
  nodes \<open>ps\<close> are the doubly linked list, sorted by falling identifier, and the table holds exactly
  them.  \<open>files_ok w ps\<close> adds that every node has its datafile, descriptors that are open are on that
  file, and the newest node is the only active one.  \<open>keydir_inv\<close>: the directory's table and records
  agree.  \<open>store_inv\<close> adds that every location in the directory is the start of a complete record of
  that key in an existing datafile, with a valid checksum.  \<open>store_map\<close> is the abstract state: the
  finite map from keys to timestamp and value that these records spell.  The operations are shown to
  keep the invariants for every fault script, and to be functions on \<open>store_map\<close>: a put that returns
  CCASK_OK is a map update, one that fails changes nothing, a get answers from the map.  Recovery is
  equal to \<open>replay\<close>, the fold of the records of the logs.  The queue is equal to a list.

  Not modelled

  src/src/log.cc and every logging call (output only); the calls that are commented out in
  bin/src/main.c;
  the uthash macros that are never expanded;
  free outside theory \<open>Memory\<close>, where it has no effect on the modelled state except where it makes a
  pointer invalid; a freed block is never handed out again, so every second free is seen.  Mutexes
  and read-write locks: an operation that takes and releases a lock is one atomic step; a lock that is
  kept beyond the call (the read lock of the directory iterator, the mutex of the ring buffer after a
  failed push) is part of the state, and a call that would wait for it is \<open>None\<close>.  A thread is a
  function for its rounds, called as a step between the other operations.
\<close>

end
